(* ===== verification/Prelude.thy ===== *)
theory Prelude
  imports "HOL-Library.Word"
begin

text \<open>
  Shared vocabulary of the development: the machine integers of the Rust sources, the
  outcome of a Rust call (a value, an error value, a panic, or no return at all), checked
  arithmetic, big-endian byte images, UTF-8 validity (what \<open>std::str::from_utf8\<close>
  accepts), and the interface of the \<open>bytes\<close> crate.

  The crate \<open>bytes\<close> is not part of the repository, so its operations are the fields
  of a record \<open>bytes_crate\<close> that every function using them takes as its argument
  \<open>B\<close>.  What the code relies on is the predicate \<open>bytes_doc B\<close>: the documented
  behaviour of \<open>Buf\<close> and \<open>BufMut\<close> on a buffer seen as its list of bytes.
\<close>

unbundle bit_operations_syntax

section \<open>Integers, strings and outcomes\<close>

type_synonym u8 = "8 word"
type_synonym u16 = "16 word"
type_synonym u32 = "32 word"
type_synonym u64 = "64 word"

text \<open>The content of a byte buffer (\<open>BytesMut\<close>, \<open>Vec<u8>\<close>, \<open>&[u8]\<close>).\<close>

type_synonym bytes = "u8 list"

text \<open>A Rust \<open>String\<close> is the list of its UTF-8 bytes; its \<open>len()\<close> counts bytes.\<close>

type_synonym rstring = "u8 list"

text \<open>The bytes of an ASCII literal of the sources.\<close>

definition lit :: "string \<Rightarrow> rstring" where
  "lit s = map of_char s"

text \<open>\<open>std::io::Error\<close>: its kind and message (\<open>IoSystem\<close>: any kind the system reports).\<close>

datatype io_kind = IoNotFound | IoInvalidData | IoTimedOut | IoAddrInUse | IoInvalidInput | IoOther | IoSystem

datatype io_error = IoError (kind: io_kind) (message: rstring)

text \<open>
  A call either returns normally (\<open>Ok\<close> or \<open>Err\<close>, as \<open>Result\<close> does), or unwinds
  (\<open>Panic\<close>), or does not return, which is the value \<open>None\<close> of the option around it.
\<close>

datatype ('e, 'a) outcome = Ok 'a | Err 'e | Panic

type_synonym ('e, 'a) run = "('e, 'a) outcome option"

abbreviation ok :: "'a \<Rightarrow> ('e, 'a) run" where "ok x \<equiv> Some (Ok x)"
abbreviation err :: "'e \<Rightarrow> ('e, 'a) run" where "err e \<equiv> Some (Err e)"
abbreviation panic :: "('e, 'a) run" where "panic \<equiv> Some Panic"

text \<open>The operator \<open>?\<close>: go on with the value, return early otherwise.\<close>

definition andThen :: "('e, 'a) run \<Rightarrow> ('a \<Rightarrow> ('e, 'b) run) \<Rightarrow> ('e, 'b) run" where
  "andThen m f = Option.bind m (\<lambda>r. case r of Ok x \<Rightarrow> f x | Err e \<Rightarrow> err e | Panic \<Rightarrow> panic)"

text \<open>\<open>map_err(f)\<close>.\<close>

definition mapErr :: "('e \<Rightarrow> 'f) \<Rightarrow> ('e, 'a) run \<Rightarrow> ('f, 'a) run" where
  "mapErr h m = map_option (\<lambda>r. case r of Ok x \<Rightarrow> Ok x | Err e \<Rightarrow> Err (h e) | Panic \<Rightarrow> Panic) m"

text \<open>A call that panics (\<open>None\<close>) or gives a value, in a function that may also fail.\<close>

definition need :: "'a option \<Rightarrow> ('a \<Rightarrow> ('e, 'b) run) \<Rightarrow> ('e, 'b) run" where
  "need m f = (case m of None \<Rightarrow> panic | Some x \<Rightarrow> f x)"

text \<open>\<open>unwrap()\<close> on a \<open>Result\<close>: an error becomes a panic.\<close>

definition unwrap :: "('e, 'a) run \<Rightarrow> ('f, 'a) run" where
  "unwrap m = map_option (\<lambda>r. case r of Ok x \<Rightarrow> Ok x | _ \<Rightarrow> Panic) m"

lemma andThen_simps [simp]:
  "andThen (ok x) f = f x"
  "andThen (err e) f = err e"
  "andThen panic f = panic"
  "andThen None f = None"
  by (simp_all add: andThen_def)

lemma mapErr_simps [simp]:
  "mapErr h (ok x) = ok x"
  "mapErr h (err e) = err (h e)"
  "mapErr h panic = panic"
  "mapErr h None = None"
  by (simp_all add: mapErr_def)

lemma need_simps [simp]:
  "need (Some x) f = f x"
  "need None f = panic"
  by (simp_all add: need_def)

lemma unwrap_simps [simp]:
  "unwrap (ok x) = ok x"
  "unwrap (err e) = panic"
  "unwrap panic = panic"
  "unwrap None = None"
  by (simp_all add: unwrap_def)

lemma andThen_eq_ok:
  "andThen m f = ok y \<longleftrightarrow> (\<exists>x. m = ok x \<and> f x = ok y)"
  by (cases m; cases "the m") auto

lemma andThen_assoc: "andThen (andThen m f) g = andThen m (\<lambda>x. andThen (f x) g)"
  by (auto simp: andThen_def split: outcome.splits option.splits bind_splits)

lemma need_eq_ok: "need m f = ok y \<longleftrightarrow> (\<exists>x. m = Some x \<and> f x = ok y)"
  by (auto simp: need_def split: option.splits)

lemma mapErr_eq_ok: "mapErr h m = ok x \<longleftrightarrow> m = ok x"
  by (cases m; cases "the m") auto

lemma unwrap_eq_ok: "unwrap m = ok x \<longleftrightarrow> m = ok x"
  by (cases m; cases "the m") auto

lemma map_sum_id_iff [simp]:
  "map_sum id f z = Inr y \<longleftrightarrow> (\<exists>x. z = Inr x \<and> y = f x)"
  "map_sum id f z = Inl e \<longleftrightarrow> z = Inl e"
  by (cases z; auto)+

text \<open>Taking a successful sequence of calls apart, one call at a time.\<close>

named_theorems ok_elims \<open>a composite call that succeeded, taken apart\<close>

lemma andThen_okE [ok_elims]:
  "andThen m f = ok y \<Longrightarrow> (\<And>x. m = ok x \<Longrightarrow> f x = ok y \<Longrightarrow> P) \<Longrightarrow> P"
  by (auto simp: andThen_eq_ok)

lemma need_okE [ok_elims]:
  "need m f = ok y \<Longrightarrow> (\<And>x. m = Some x \<Longrightarrow> f x = ok y \<Longrightarrow> P) \<Longrightarrow> P"
  by (auto simp: need_eq_ok)

lemma mapErr_okE [ok_elims]: "mapErr h m = ok y \<Longrightarrow> (m = ok y \<Longrightarrow> P) \<Longrightarrow> P"
  by (simp add: mapErr_eq_ok)

lemma if_okE [ok_elims]:
  fixes m n :: "('e, 'a) run"
  shows "(if c then m else n) = ok y \<Longrightarrow> (c \<Longrightarrow> m = ok y \<Longrightarrow> P) \<Longrightarrow> (\<not> c \<Longrightarrow> n = ok y \<Longrightarrow> P) \<Longrightarrow> P"
  by (auto split: if_splits)

lemma prod_okE [ok_elims]:
  fixes f :: "'a \<Rightarrow> 'b \<Rightarrow> ('e, 'c) run"
  shows "(case p of (a, b) \<Rightarrow> f a b) = ok y \<Longrightarrow> (\<And>a b. p = (a, b) \<Longrightarrow> f a b = ok y \<Longrightarrow> P) \<Longrightarrow> P"
  by (cases p) auto

lemma err_okE [ok_elims]: "err e = ok y \<Longrightarrow> P" and panic_okE [ok_elims]: "panic = ok y \<Longrightarrow> P"
  by simp_all

lemma andThen_mono [partial_function_mono]:
  assumes "mono_option m" and "\<And>x. mono_option (\<lambda>g. F x g)"
  shows "mono_option (\<lambda>g. andThen (m g) (\<lambda>x. F x g))"
  unfolding andThen_def
proof (rule bind_mono)
  show "mono_option m" by (rule assms(1))
  show "mono_option (\<lambda>g. case y of Ok x \<Rightarrow> F x g | Err e \<Rightarrow> err e | Panic \<Rightarrow> panic)" for y
    by (cases y) (auto intro: assms(2) option.const_mono)
qed

lemma need_mono [partial_function_mono]:
  assumes "\<And>x. mono_option (\<lambda>g. F x g)"
  shows "mono_option (\<lambda>g. need m (\<lambda>x. F x g))"
  unfolding need_def using assms
  by (cases m) (auto intro!: option.const_mono)

text \<open>
  A call returns when it is \<open>Some\<close> of an outcome (a value, an error or a panic).  The
  rules below carry this through a sequence of calls.
\<close>

named_theorems returns_intros \<open>composite calls return when their parts do\<close>

lemma returns_andThen [returns_intros]:
  "\<exists>y. m = Some y \<Longrightarrow> (\<And>x. m = ok x \<Longrightarrow> \<exists>y. f x = Some y) \<Longrightarrow> \<exists>y. andThen m f = Some y"
  by (cases m; cases "the m") auto

lemma returns_need [returns_intros]:
  "(\<And>x. m = Some x \<Longrightarrow> \<exists>y. f x = Some y) \<Longrightarrow> \<exists>y. need m f = Some y"
  by (cases m) auto

lemma returns_Some [returns_intros]: "\<exists>y. Some x = Some y"
  by simp

lemma returns_mapErr [returns_intros]: "\<exists>y. m = Some y \<Longrightarrow> \<exists>y. mapErr h m = Some y"
  by (auto simp: mapErr_def)

lemma returns_if [returns_intros]:
  "(c \<Longrightarrow> \<exists>y. m = Some y) \<Longrightarrow> (\<not> c \<Longrightarrow> \<exists>y. n = Some y) \<Longrightarrow> \<exists>y. (if c then m else n) = Some y"
  by simp

lemma returns_prod [returns_intros]:
  "(\<And>a b. p = (a, b) \<Longrightarrow> \<exists>y. f a b = Some y) \<Longrightarrow> \<exists>y. (case p of (a, b) \<Rightarrow> f a b) = Some y"
  by (cases p) simp

section \<open>Checked arithmetic\<close>

text \<open>
  Rust's \<open>+\<close> and \<open>-\<close> on unsigned integers: with overflow checks (the dev profile, first
  argument \<open>True\<close>) an overflow panics, without them (the release profile) it wraps.
\<close>

definition uadd :: "bool \<Rightarrow> 'a::len word \<Rightarrow> 'a word \<Rightarrow> 'a word option" where
  "uadd checks a b =
     (if checks \<and> unat a + unat b \<ge> 2 ^ LENGTH('a) then None else Some (a + b))"

definition usub :: "bool \<Rightarrow> 'a::len word \<Rightarrow> 'a word \<Rightarrow> 'a word option" where
  "usub checks a b = (if checks \<and> a < b then None else Some (a - b))"

lemma uadd_Some:
  fixes a b :: "'a::len word"
  assumes "unat a + unat b < 2 ^ LENGTH('a)"
  shows "uadd checks a b = Some (a + b)" and "unat (a + b) = unat a + unat b"
  using assms by (simp_all add: uadd_def unat_word_ariths)

lemma unat_u8_less: "unat (x::u8) < 256"
  using unsigned_less [where w = x and 'a = nat] by simp

lemma unat_u16_less: "unat (x::u16) < 65536"
  using unsigned_less [where w = x and 'a = nat] by simp

lemma unat_u32_less: "unat (x::u32) < 4294967296"
  using unsigned_less [where w = x and 'a = nat] by simp

lemma unat_ucast_16_64: "unat (ucast (x::u16) :: u64) = unat x"
  using unat_u16_less [of x] by (simp add: unsigned_ucast_eq take_bit_nat_eq_self_iff)

lemma unat_ucast_32_64: "unat (ucast (x::u32) :: u64) = unat x"
  using unat_u32_less [of x] by (simp add: unsigned_ucast_eq take_bit_nat_eq_self_iff)

lemma pred_less_word: "0 < (t::'a::len word) \<Longrightarrow> t - 1 < t"
  by (metis diff_less less_numeral_extra(1) unat_gt_0 unat_minus_one word_less_nat_alt
      word_not_simps(1))

section \<open>Big-endian images\<close>

definition enc16 :: "u16 \<Rightarrow> bytes" where
  "enc16 w = [ucast (drop_bit 8 w), ucast w]"

definition dec16 :: "u8 \<Rightarrow> u8 \<Rightarrow> u16" where
  "dec16 h l = push_bit 8 (ucast h) OR ucast l"

definition enc32 :: "u32 \<Rightarrow> bytes" where
  "enc32 w = enc16 (ucast (drop_bit 16 w)) @ enc16 (ucast w)"

definition dec32 :: "u8 \<Rightarrow> u8 \<Rightarrow> u8 \<Rightarrow> u8 \<Rightarrow> u32" where
  "dec32 a b c d = push_bit 16 (ucast (dec16 a b)) OR ucast (dec16 c d)"

lemma dec16_enc16 [simp]: "dec16 (ucast (drop_bit 8 w)) (ucast w) = w"
  unfolding dec16_def
  by (rule bit_word_eqI) (auto simp: bit_simps)

lemma bit_u8_high: "8 \<le> n \<Longrightarrow> \<not> bit (l::u8) n"
  using bit_imp_le_length [of l n] by auto

lemma dec16_add: "dec16 h l = word_of_nat (256 * unat h + unat l)"
proof -
  have "push_bit 8 (ucast h :: u16) AND ucast l = 0"
    by (rule bit_word_eqI) (auto simp: bit_simps bit_u8_high)
  then have "dec16 h l = push_bit 8 (ucast h) + ucast l"
    by (simp add: dec16_def disjunctive_add_eq_or)
  then show ?thesis by (simp add: push_bit_eq_mult mult.commute)
qed

lemma unat_dec16: "unat (dec16 h l) = 256 * unat h + unat l"
proof -
  have "256 * unat h + unat l < 2 ^ LENGTH(16)"
    using unat_u8_less [of h] unat_u8_less [of l] by simp
  then show ?thesis by (simp only: dec16_add unat_of_nat mod_less)
qed

lemma enc16_dec16: "enc16 (dec16 h l) = [h, l]"
  unfolding enc16_def dec16_def by (auto intro!: bit_word_eqI simp: bit_simps bit_u8_high)

lemma length_enc16 [simp]: "length (enc16 w) = 2"
  by (simp add: enc16_def)

lemma length_enc32 [simp]: "length (enc32 w) = 4"
  by (simp add: enc32_def)

lemma dec32_enc32:
  "dec32 (ucast (drop_bit 8 (ucast (drop_bit 16 w) :: u16))) (ucast (ucast (drop_bit 16 w) :: u16))
     (ucast (drop_bit 8 (ucast w :: u16))) (ucast (ucast w :: u16)) = w"
  unfolding dec32_def dec16_enc16
  by (rule bit_word_eqI) (auto simp: bit_simps)

section \<open>The interface of the bytes crate\<close>

record bytes_crate =
  get_u8 :: "bytes \<Rightarrow> (u8 \<times> bytes) option"
  get_u16 :: "bytes \<Rightarrow> (u16 \<times> bytes) option"
  get_u32 :: "bytes \<Rightarrow> (u32 \<times> bytes) option"
  split_to :: "nat \<Rightarrow> bytes \<Rightarrow> (bytes \<times> bytes) option"
  put_u8 :: "bytes \<Rightarrow> u8 \<Rightarrow> bytes"
  put_u16 :: "bytes \<Rightarrow> u16 \<Rightarrow> bytes"
  put_u32 :: "bytes \<Rightarrow> u32 \<Rightarrow> bytes"
  put_slice :: "bytes \<Rightarrow> bytes \<Rightarrow> bytes"
  put_bytes :: "bytes \<Rightarrow> u8 \<Rightarrow> nat \<Rightarrow> bytes"

text \<open>
  The documented behaviour: the getters read big-endian integers off the front and panic
  (\<open>None\<close>) when too few bytes are left; \<open>split_to(n)\<close> cuts the first \<open>n\<close> bytes off
  and panics when there are fewer; the putters append at the end.
\<close>

definition bytes_doc :: "bytes_crate \<Rightarrow> bool" where
  "bytes_doc B \<longleftrightarrow>
     (\<forall>b. get_u8 B b = (case b of x # r \<Rightarrow> Some (x, r) | _ \<Rightarrow> None)) \<and>
     (\<forall>b. get_u16 B b = (case b of x # y # r \<Rightarrow> Some (dec16 x y, r) | _ \<Rightarrow> None)) \<and>
     (\<forall>b. get_u32 B b =
        (case b of x # y # z # u # r \<Rightarrow> Some (dec32 x y z u, r) | _ \<Rightarrow> None)) \<and>
     (\<forall>n b. split_to B n b = (if n \<le> length b then Some (take n b, drop n b) else None)) \<and>
     (\<forall>b x. put_u8 B b x = b @ [x]) \<and>
     (\<forall>b x. put_u16 B b x = b @ enc16 x) \<and>
     (\<forall>b x. put_u32 B b x = b @ enc32 x) \<and>
     (\<forall>b s. put_slice B b s = b @ s) \<and>
     (\<forall>b x n. put_bytes B b x n = b @ replicate n x)"

named_theorems bytes_simps \<open>the operations of a documented bytes crate, rewritten\<close>

lemma get_u8_doc [bytes_simps]:
  "bytes_doc B \<Longrightarrow> get_u8 B [] = None"
  "bytes_doc B \<Longrightarrow> get_u8 B (x # r) = Some (x, r)"
  by (simp_all add: bytes_doc_def)

lemma get_u16_doc [bytes_simps]:
  "bytes_doc B \<Longrightarrow> get_u16 B [] = None"
  "bytes_doc B \<Longrightarrow> get_u16 B [x] = None"
  "bytes_doc B \<Longrightarrow> get_u16 B (x # y # r) = Some (dec16 x y, r)"
  "bytes_doc B \<Longrightarrow> get_u16 B (enc16 w @ r) = Some (w, r)"
  by (simp_all add: bytes_doc_def enc16_def)

lemma get_u32_doc [bytes_simps]:
  "bytes_doc B \<Longrightarrow> get_u32 B (x # y # z # u # r) = Some (dec32 x y z u, r)"
  "bytes_doc B \<Longrightarrow> get_u32 B (enc32 w @ r) = Some (w, r)"
  by (simp_all add: bytes_doc_def enc32_def enc16_def dec32_enc32)

lemma split_to_doc [bytes_simps]:
  "bytes_doc B \<Longrightarrow>
     split_to B n b = (if n \<le> length b then Some (take n b, drop n b) else None)"
  by (simp add: bytes_doc_def)

lemma put_doc [bytes_simps]:
  "bytes_doc B \<Longrightarrow> put_u8 B b x = b @ [x]"
  "bytes_doc B \<Longrightarrow> put_u16 B b y = b @ enc16 y"
  "bytes_doc B \<Longrightarrow> put_u32 B b z = b @ enc32 z"
  "bytes_doc B \<Longrightarrow> put_slice B b s = b @ s"
  "bytes_doc B \<Longrightarrow> put_bytes B b x n = b @ replicate n x"
  by (simp_all add: bytes_doc_def)

text \<open>Every getter that gives a value shortens the buffer.\<close>

lemma get_u8_shrinks: "bytes_doc B \<Longrightarrow> get_u8 B b = Some (x, r) \<Longrightarrow> length r < length b"
  by (auto simp: bytes_doc_def split: list.splits)

lemma get_u16_shrinks: "bytes_doc B \<Longrightarrow> get_u16 B b = Some (y, r) \<Longrightarrow> length r < length b"
  by (auto simp: bytes_doc_def split: list.splits)

lemma get_u32_shrinks: "bytes_doc B \<Longrightarrow> get_u32 B b = Some (z, r) \<Longrightarrow> length r < length b"
  by (auto simp: bytes_doc_def split: list.splits)

text \<open>A concrete crate, on lists; the witnesses run the model on it.\<close>

definition list_bytes :: bytes_crate where
  "list_bytes = \<lparr>
     get_u8 = (\<lambda>b. case b of x # r \<Rightarrow> Some (x, r) | _ \<Rightarrow> None),
     get_u16 = (\<lambda>b. case b of x # y # r \<Rightarrow> Some (dec16 x y, r) | _ \<Rightarrow> None),
     get_u32 = (\<lambda>b. case b of x # y # z # u # r \<Rightarrow> Some (dec32 x y z u, r) | _ \<Rightarrow> None),
     split_to = (\<lambda>n b. if n \<le> length b then Some (take n b, drop n b) else None),
     put_u8 = (\<lambda>b x. b @ [x]),
     put_u16 = (\<lambda>b x. b @ enc16 x),
     put_u32 = (\<lambda>b x. b @ enc32 x),
     put_slice = (\<lambda>b s. b @ s),
     put_bytes = (\<lambda>b x n. b @ replicate n x)\<rparr>"

lemma list_bytes_doc [simp]: "bytes_doc list_bytes"
  by (simp add: bytes_doc_def list_bytes_def)

section \<open>UTF-8\<close>

text \<open>
  What \<open>std::str::from_utf8\<close> accepts: the well-formed byte sequences of the Unicode
  standard (no overlong forms, no surrogates, nothing above U+10FFFF).
\<close>

definition cont :: "u8 \<Rightarrow> bool" where
  "cont b \<longleftrightarrow> 0x80 \<le> b \<and> b \<le> 0xBF"

fun utf8_valid :: "bytes \<Rightarrow> bool" where
  "utf8_valid [] = True"
| "utf8_valid (a # r) =
     (if a < 0x80 then utf8_valid r
      else if 0xC2 \<le> a \<and> a \<le> 0xDF then
        (case r of b # r' \<Rightarrow> cont b \<and> utf8_valid r' | _ \<Rightarrow> False)
      else if 0xE0 \<le> a \<and> a \<le> 0xEF then
        (case r of b # c # r' \<Rightarrow>
            (if a = 0xE0 then 0xA0 \<le> b \<and> b \<le> 0xBF
             else if a = 0xED then 0x80 \<le> b \<and> b \<le> 0x9F else cont b)
            \<and> cont c \<and> utf8_valid r'
         | _ \<Rightarrow> False)
      else if 0xF0 \<le> a \<and> a \<le> 0xF4 then
        (case r of b # c # d # r' \<Rightarrow>
            (if a = 0xF0 then 0x90 \<le> b \<and> b \<le> 0xBF
             else if a = 0xF4 then 0x80 \<le> b \<and> b \<le> 0x8F else cont b)
            \<and> cont c \<and> cont d \<and> utf8_valid r'
         | _ \<Rightarrow> False)
      else False)"

lemma utf8_valid_ascii: "\<forall>b \<in> set s. b < 0x80 \<Longrightarrow> utf8_valid s"
  by (induction s) auto

end
