(* ===== verification/ClientId.thy ===== *)
theory ClientId
  imports Prelude "HOL-Library.List_Lexorder"
begin

text \<open>
  The client identifiers of \<open>message_broker/client/clobj.rs\<close>: the identifier string with its
  32-bit hash, the hash function, and the comparisons.  The derived total order \<open>Ord\<close> compares
  the strings bytewise and then the hashes; equality and the partial order were written by hand
  and look at the hash and the length.
\<close>

unbundle bit_operations_syntax

section \<open>The hash\<close>

definition C1 :: u32 where "C1 = 0xcc9e2d51"
definition C2 :: u32 where "C2 = 0x1b873593"

definition from_le_bytes :: "u8 \<Rightarrow> u8 \<Rightarrow> u8 \<Rightarrow> u8 \<Rightarrow> u32" where
  "from_le_bytes a b c d =
     ucast a OR push_bit 8 (ucast b) OR push_bit 16 (ucast c) OR push_bit 24 (ucast d)"

text \<open>The mixing of a block (or of the tail): multiply, rotate, multiply.\<close>

definition mix_k :: "u32 \<Rightarrow> u32" where
  "mix_k k = word_rotl 15 (k * C1) * C2"

text \<open>\<open>for i in 0..nblocks\<close>: every full block of four bytes; what is left is the tail.\<close>

fun hash_blocks :: "u32 \<Rightarrow> bytes \<Rightarrow> u32 \<times> bytes" where
  "hash_blocks hash (a # b # c # d # r) =
     (let k = mix_k (from_le_bytes a b c d);
          hash = hash XOR k;
          hash = word_rotl 13 hash;
          hash = hash * 5 + 0xe6546b64
      in hash_blocks hash r)"
| "hash_blocks hash tail = (hash, tail)"

definition tail_k1 :: "bytes \<Rightarrow> u32" where
  "tail_k1 tail =
     (case tail of
        [t0, t1, t2] \<Rightarrow> 0 XOR push_bit 16 (ucast t2)
      | [t0, t1] \<Rightarrow> 0 XOR push_bit 8 (ucast t1)
      | [t0] \<Rightarrow> 0 XOR ucast t0
      | _ \<Rightarrow> 0)"

definition finalize :: "u32 \<Rightarrow> u32" where
  "finalize hash =
     (let hash = hash XOR drop_bit 16 hash;
          hash = hash * 0x85ebca6b;
          hash = hash XOR drop_bit 13 hash;
          hash = hash * 0xc2b2ae35
      in hash XOR drop_bit 16 hash)"

definition clid_hash :: "rstring \<Rightarrow> u32" where
  "clid_hash raw_clid =
     (let (hash, tail) = hash_blocks 0 raw_clid;
          hash = hash XOR mix_k (tail_k1 tail);
          hash = hash XOR word_of_nat (length raw_clid)
      in finalize hash)"

section \<open>Identifiers and their comparisons\<close>

datatype client_id = ClientID (clid_id: rstring) (clid_hash_field: u32)

definition clid_new :: "rstring \<Rightarrow> client_id" where
  "clid_new raw_clid = ClientID raw_clid (clid_hash raw_clid)"

definition clid_eq :: "client_id \<Rightarrow> client_id \<Rightarrow> bool" where
  "clid_eq a b =
     (if length (clid_id a) \<noteq> length (clid_id b) then False
      else clid_hash_field a = clid_hash_field b)"

definition clid_ne :: "client_id \<Rightarrow> client_id \<Rightarrow> bool" where
  "clid_ne a b =
     (if length (clid_id a) = length (clid_id b) then False
      else clid_hash_field a \<noteq> clid_hash_field b)"

definition clid_ge :: "client_id \<Rightarrow> client_id \<Rightarrow> bool" where
  "clid_ge a b \<longleftrightarrow> clid_hash_field a \<ge> clid_hash_field b"

definition clid_gt :: "client_id \<Rightarrow> client_id \<Rightarrow> bool" where
  "clid_gt a b \<longleftrightarrow> clid_hash_field a > clid_hash_field b"

definition clid_le :: "client_id \<Rightarrow> client_id \<Rightarrow> bool" where
  "clid_le a b \<longleftrightarrow> clid_hash_field a \<le> clid_hash_field b"

definition clid_lt :: "client_id \<Rightarrow> client_id \<Rightarrow> bool" where
  "clid_lt a b \<longleftrightarrow> clid_hash_field a < clid_hash_field b"

datatype rust_ordering = Less | Equal | Greater

definition cmp_of :: "'a::linorder \<Rightarrow> 'a \<Rightarrow> rust_ordering" where
  "cmp_of a b = (if a < b then Less else if a = b then Equal else Greater)"

definition clid_partial_cmp :: "client_id \<Rightarrow> client_id \<Rightarrow> rust_ordering option" where
  "clid_partial_cmp a b = Some (cmp_of (clid_hash_field a) (clid_hash_field b))"

text \<open>\<open>#[derive(Ord)]\<close>: the fields in their order, the string first.\<close>

instantiation client_id :: linorder
begin

definition less_eq_client_id :: "client_id \<Rightarrow> client_id \<Rightarrow> bool" where
  "less_eq_client_id a b \<longleftrightarrow> clid_id a < clid_id b \<or>
     clid_id a = clid_id b \<and> clid_hash_field a \<le> clid_hash_field b"

definition less_client_id :: "client_id \<Rightarrow> client_id \<Rightarrow> bool" where
  "less_client_id a b \<longleftrightarrow> clid_id a < clid_id b \<or>
     clid_id a = clid_id b \<and> clid_hash_field a < clid_hash_field b"

instance
  by standard (auto simp: less_eq_client_id_def less_client_id_def intro: client_id.expand)

end

definition clid_cmp :: "client_id \<Rightarrow> client_id \<Rightarrow> rust_ordering" where
  "clid_cmp a b =
     (case cmp_of (clid_id a) (clid_id b) of
        Equal \<Rightarrow> cmp_of (clid_hash_field a) (clid_hash_field b)
      | c \<Rightarrow> c)"

lemma clid_cmp_linorder: "clid_cmp a b = cmp_of a b"
  by (auto simp: clid_cmp_def cmp_of_def less_client_id_def intro: client_id.expand)

lemma cmp_of_iff [simp]:
  "cmp_of a b = Less \<longleftrightarrow> a < b"
  "cmp_of a b = Equal \<longleftrightarrow> a = b"
  "cmp_of a b = Greater \<longleftrightarrow> b < a"
  by (auto simp: cmp_of_def)

lemma clid_new_inj [simp]: "clid_new a = clid_new b \<longleftrightarrow> a = b"
  by (auto simp: clid_new_def)

lemma clid_new_sel [simp]: "clid_id (clid_new s) = s" "clid_hash_field (clid_new s) = clid_hash s"
  by (simp_all add: clid_new_def)

lemma clid_eq_refl [simp]: "clid_eq a a"
  by (simp add: clid_eq_def)

lemma hash_blocks_append:
  "length p mod 4 = 0 \<Longrightarrow> hash_blocks h (p @ t) = hash_blocks (fst (hash_blocks h p)) t"
  by (induction h p rule: hash_blocks.induct) (auto simp: Let_def)

lemma hash_blocks_short: "length t < 4 \<Longrightarrow> hash_blocks h t = (h, t)"
  by (induction h t rule: hash_blocks.induct) auto

lemma clid_hash_split:
  assumes "length p mod 4 = 0" and "length t < 4"
  shows "clid_hash (p @ t) = finalize (fst (hash_blocks 0 p) XOR mix_k (tail_k1 t)
     XOR word_of_nat (length p + length t))"
  using assms by (simp add: clid_hash_def hash_blocks_append hash_blocks_short xor.assoc)

text \<open>
  The published 32-bit MurmurHash3 (x86 variant) with seed zero: the tail takes all of its
  bytes, least significant first.
\<close>

definition murmur_tail :: "bytes \<Rightarrow> u32" where
  "murmur_tail tail = (\<Sum>i < length tail. push_bit (8 * i) (ucast (tail ! i)))"

definition murmur3 :: "bytes \<Rightarrow> u32" where
  "murmur3 data =
     (let (h, tail) = hash_blocks 0 data
      in finalize (h XOR mix_k (murmur_tail tail) XOR word_of_nat (length data)))"

lemma hash_blocks_tail: "length (snd (hash_blocks h d)) = length d mod 4"
  by (induction h d rule: hash_blocks.induct) (auto simp: Let_def)

lemma tail_k1_short: "length t \<le> 1 \<Longrightarrow> tail_k1 t = murmur_tail t"
  by (cases t) (auto simp: tail_k1_def murmur_tail_def)

section \<open>Properties\<close>

text \<open>The derived order sees two identifiers as equal exactly when their strings are equal, and
  it orders them bytewise by their strings, so a registry sorted by it has one place per client.\<close>

theorem clid_cmp_by_string:
  "clid_cmp (clid_new a) (clid_new b) = cmp_of a b"
  by (auto simp: clid_cmp_def cmp_of_def)

text \<open>Identifiers of the same length whose blocks and last byte agree are equal for the broker,
  whatever their one or two bytes before the last: the hash drops the first bytes of the tail.\<close>

theorem clid_tail_collision:
  assumes "length p mod 4 = 0"
  shows "clid_eq (clid_new (p @ [x, y, z])) (clid_new (p @ [x', y', z])) \<and>
    clid_eq (clid_new (p @ [x, z])) (clid_new (p @ [x', z]))"
  using assms by (simp add: clid_eq_def clid_hash_split tail_k1_def)

theorem clid_tail_collision_witness:
  "clid_eq (clid_new ([] @ [97, 98, 99])) (clid_new ([] @ [120, 121, 99])) \<and>
   clid_eq (clid_new ([] @ [97, 99])) (clid_new ([] @ [120, 99])) \<and>
   [97, 98, 99] \<noteq> ([120, 121, 99] :: rstring)"
  using clid_tail_collision [of "[]" 97 98 99 120 121] clid_tail_collision [of "[]" 97 98 99 120]
  by simp

text \<open>The hand-written inequality is not the negation of equality: identifiers of one length with
  different hashes are neither equal nor unequal.\<close>

theorem clid_ne_not_negation:
  assumes "length a = length b" and "clid_hash a \<noteq> clid_hash b"
  shows "\<not> clid_eq (clid_new a) (clid_new b) \<and> \<not> clid_ne (clid_new a) (clid_new b)"
  using assms by (simp add: clid_eq_def clid_ne_def)

lemma clid_hash_examples: "clid_hash [97] = 1009084850" "clid_hash [98] \<noteq> clid_hash [97]"
  by code_simp+

theorem clid_ne_not_negation_witness:
  "\<not> clid_eq (clid_new [97]) (clid_new [98]) \<and> \<not> clid_ne (clid_new [97]) (clid_new [98])"
  using clid_hash_examples(2) by (intro clid_ne_not_negation) simp_all

text \<open>The hash is MurmurHash3 with seed zero on every string whose length is zero or one modulo
  four.\<close>

theorem clid_hash_murmur3:
  assumes "length s mod 4 \<le> 1"
  shows "clid_hash s = murmur3 s"
proof -
  have "length (snd (hash_blocks 0 s)) \<le> 1" using assms by (simp add: hash_blocks_tail)
  then show ?thesis
    by (cases "hash_blocks 0 s") (simp add: clid_hash_def murmur3_def tail_k1_short xor.assoc)
qed

theorem clid_hash_murmur3_witness:
  "clid_hash (lit ''home1'') = murmur3 (lit ''home1'')"
  by (rule clid_hash_murmur3) (simp add: lit_def)

end
