(* ===== verification/Session.thy ===== *)
theory Session
  imports ClientId
begin

text \<open>
  The time-based session control of \<open>message_broker/client/clobj.rs\<close>
  (\<open>Session\<close>, \<open>Limiter\<close>) and the trait \<open>SessionController\<close> of
  \<open>message_broker/client/mod.rs\<close>.  Times are Unix seconds in a \<open>u64\<close>.  The argument
  \<open>checks\<close> says whether the program was built with overflow checks.

  The trait is the locale \<open>session_controller\<close>; a session is an instance of it.
\<close>

record session =
  s_ttl :: u64
  s_expr_interval :: u32
  s_keep_alive :: u16

record limiter =
  l_receive_maximum :: "u16 option"
  l_maximum_packet_size :: "u16 option"
  l_topic_alias_maximum :: "u16 option"

definition limiter_default :: limiter where
  "limiter_default =
     \<lparr>l_receive_maximum = None, l_maximum_packet_size = None, l_topic_alias_maximum = None\<rparr>"

definition limiter_new :: "u16 option \<Rightarrow> u16 option \<Rightarrow> u16 option \<Rightarrow> limiter" where
  "limiter_new receive_maximum maximum_packet_size topic_alias_maximum =
     \<lparr>l_receive_maximum = receive_maximum, l_maximum_packet_size = maximum_packet_size,
      l_topic_alias_maximum = topic_alias_maximum\<rparr>"

section \<open>Operations\<close>

definition is_alive :: "session \<Rightarrow> u64 \<Rightarrow> bool" where
  "is_alive s t \<longleftrightarrow> s_ttl s \<ge> t"

definition expiration_time :: "bool \<Rightarrow> session \<Rightarrow> u64 option" where
  "expiration_time checks s = uadd checks (ucast (s_expr_interval s)) (s_ttl s)"

definition is_expired :: "bool \<Rightarrow> session \<Rightarrow> u64 \<Rightarrow> bool option" where
  "is_expired checks s t = map_option (\<lambda>e. e \<le> t) (expiration_time checks s)"

text \<open>The keep-alive interval and a half, in sixteen bits: \<open>keep_alive + keep_alive/2\<close>.\<close>

definition grace :: "bool \<Rightarrow> u16 \<Rightarrow> u16 option" where
  "grace checks keep_alive = uadd checks keep_alive (keep_alive div 2)"

definition session_keep_alive ::
    "bool \<Rightarrow> session \<Rightarrow> u64 \<Rightarrow> (string, session \<times> u64) run" where
  "session_keep_alive checks s t =
     (if s_ttl s \<le> t then err ''already expired''
      else need (grace checks (s_keep_alive s)) (\<lambda>g.
           need (uadd checks t (ucast g)) (\<lambda>ttl.
             ok (s\<lparr>s_ttl := ttl\<rparr>, ttl))))"

definition kill :: "bool \<Rightarrow> session \<Rightarrow> u64 \<Rightarrow> session option" where
  "kill checks s now = map_option (\<lambda>ttl. s\<lparr>s_ttl := ttl\<rparr>) (usub checks now 1)"

text \<open>
  A client tries to keep its session alive at each of a list of times; a refusal leaves the
  session as it was.
\<close>

fun keep_alive_attempts :: "bool \<Rightarrow> session \<Rightarrow> u64 list \<Rightarrow> (string, session) run" where
  "keep_alive_attempts checks s [] = ok s"
| "keep_alive_attempts checks s (t # ts) =
     (case session_keep_alive checks s t of
        Some (Ok (s', _)) \<Rightarrow> keep_alive_attempts checks s' ts
      | Some (Err _) \<Rightarrow> keep_alive_attempts checks s ts
      | Some Panic \<Rightarrow> panic
      | None \<Rightarrow> None)"

section \<open>The interface of session control\<close>

locale session_controller =
  fixes alive :: "'s \<Rightarrow> u64 \<Rightarrow> bool"
    and ttl_of :: "'s \<Rightarrow> u64"
    and keep :: "'s \<Rightarrow> u64 \<Rightarrow> (string, 's \<times> u64) run"
    and kill_at :: "'s \<Rightarrow> u64 \<Rightarrow> 's option"
    and attempts :: "'s \<Rightarrow> u64 list \<Rightarrow> (string, 's) run"
  assumes alive_ttl: "alive s t \<longleftrightarrow> t \<le> ttl_of s"
    and keep_dead: "ttl_of s \<le> t \<Longrightarrow> \<exists>e. keep s t = err e"
    and keep_ok: "keep s t = ok (s', v) \<Longrightarrow> t < ttl_of s \<and> v = ttl_of s'"
    and kill_dead: "0 < t \<Longrightarrow> \<exists>s'. kill_at s t = Some s' \<and> \<not> alive s' t"
    and attempts_Nil: "attempts s [] = ok s"
    and attempts_err: "keep s t = err e \<Longrightarrow> attempts s (t # ts) = attempts s ts"
    and attempts_ok: "keep s t = ok (s', v) \<Longrightarrow> attempts s (t # ts) = attempts s' ts"
begin

lemma keep_only_alive: "keep s t = ok (s', v) \<Longrightarrow> alive s t"
  using keep_ok by (force simp: alive_ttl)

lemma alive_antimono: "alive s t \<Longrightarrow> t' \<le> t \<Longrightarrow> alive s t'"
  by (auto simp: alive_ttl)

lemma dead_attempts: "\<not> alive s t \<Longrightarrow> \<forall>t' \<in> set ts. t \<le> t' \<Longrightarrow> attempts s ts = ok s"
proof (induction ts)
  case Nil
  then show ?case by (simp add: attempts_Nil)
next
  case (Cons t' ts)
  then have "ttl_of s \<le> t'" by (auto simp: alive_ttl)
  then obtain e where "keep s t' = err e" using keep_dead by blast
  with Cons show ?case by (simp add: attempts_err)
qed

lemma killed_attempts:
  assumes "0 < t" and "\<forall>t' \<in> set ts. t \<le> t'"
  shows "\<exists>s'. kill_at s t = Some s' \<and> attempts s' ts = ok s' \<and> (\<forall>t' \<in> set ts. \<not> alive s' t')"
proof -
  obtain s' where s': "kill_at s t = Some s'" "\<not> alive s' t" using kill_dead assms(1) by blast
  have "\<not> alive s' t'" if "t' \<in> set ts" for t'
    using s'(2) assms(2) that alive_antimono by blast
  then show ?thesis using s' dead_attempts assms(2) by blast
qed

end

lemma session_keep_alive_ok:
  "session_keep_alive checks s t = ok (s', v) \<Longrightarrow>
     t < s_ttl s \<and> v = s_ttl s' \<and> s_keep_alive s' = s_keep_alive s \<and>
     s_expr_interval s' = s_expr_interval s"
  by (auto simp: session_keep_alive_def need_eq_ok split: if_splits)

interpretation sess: session_controller is_alive s_ttl "session_keep_alive checks" "kill checks"
    "keep_alive_attempts checks" for checks
proof
  show "0 < t \<Longrightarrow> \<exists>s'. kill checks s t = Some s' \<and> \<not> is_alive s' t" for s t
    using pred_less_word [of t] word_coorder.not_eq_extremum [of t]
    by (auto simp: kill_def usub_def is_alive_def not_le not_less)
qed (auto simp: is_alive_def session_keep_alive_def need_eq_ok split: if_splits)

section \<open>Properties\<close>

lemma grace_exact:
  assumes "unat k \<le> 43690"
  shows "\<exists>g. grace checks k = Some g \<and> unat g = unat k + unat k div 2"
proof -
  have "unat (k div 2) = unat k div 2" by (simp add: unat_div)
  then show ?thesis
    using assms uadd_Some [of k "k div 2"] by (auto simp: grace_def)
qed

text \<open>C33: Keeping a session alive at a time strictly before its deadline moves the deadline to one and a
  half keep-alive intervals after that time, exactly, for every interval up to 43690 seconds and every
  time below 2^63, and changes nothing else of the session; at the deadline itself, where the session
  still counts as alive, and after it, it is refused as already expired.\<close>

theorem keep_alive_extends:
  assumes "unat (s_keep_alive s) \<le> 43690" and "unat t < 2 ^ 63"
  shows "if t < s_ttl s
    then \<exists>ttl. session_keep_alive checks s t = ok (s\<lparr>s_ttl := ttl\<rparr>, ttl) \<and>
      unat ttl = unat t + unat (s_keep_alive s) + unat (s_keep_alive s) div 2
    else session_keep_alive checks s t = err ''already expired'' \<and> (is_alive s t \<longleftrightarrow> t = s_ttl s)"
proof -
  obtain g where g: "grace checks (s_keep_alive s) = Some g"
    "unat g = unat (s_keep_alive s) + unat (s_keep_alive s) div 2"
    using grace_exact [OF assms(1)] by blast
  have u: "unat (ucast g :: u64) = unat g" by (rule unat_ucast_16_64)
  then have "unat t + unat (ucast g :: u64) < 2 ^ LENGTH(64)"
    using assms(2) unat_u16_less [of g] by simp
  note uadd_Some [OF this]
  then show ?thesis
    using g u by (auto simp: session_keep_alive_def is_alive_def not_le)
qed

theorem keep_alive_extends_witness:
  "(\<exists>ttl. session_keep_alive True \<lparr>s_ttl = 100, s_expr_interval = 0, s_keep_alive = 60\<rparr> 50 =
     ok (\<lparr>s_ttl = 100, s_expr_interval = 0, s_keep_alive = 60\<rparr>\<lparr>s_ttl := ttl\<rparr>, ttl) \<and>
     unat ttl = unat (50::u64) + unat (60::u16) + unat (60::u16) div 2) \<and>
   session_keep_alive True \<lparr>s_ttl = 100, s_expr_interval = 0, s_keep_alive = 60\<rparr> 100 = err ''already expired''"
  using keep_alive_extends [of "\<lparr>s_ttl = 100, s_expr_interval = 0, s_keep_alive = 60\<rparr>" 50 True]
    keep_alive_extends [of "\<lparr>s_ttl = 100, s_expr_interval = 0, s_keep_alive = 60\<rparr>" 100 True] by simp

text \<open>A session that is dead at some time is never revived: whatever attempts to keep it alive
  are made from then on, all are refused and the session stays as it is.\<close>

theorem dead_session_stays_dead:
  assumes "\<not> is_alive s t" and "\<forall>t' \<in> set ts. t \<le> t'"
  shows "keep_alive_attempts checks s ts = ok s"
  using assms by (rule sess.dead_attempts)

theorem dead_session_stays_dead_witness:
  "keep_alive_attempts True \<lparr>s_ttl = 100, s_expr_interval = 0, s_keep_alive = 60\<rparr> [101, 150] =
     ok \<lparr>s_ttl = 100, s_expr_interval = 0, s_keep_alive = 60\<rparr>"
  by (rule dead_session_stays_dead [where t = 101]) (simp_all add: is_alive_def)

text \<open>A killed session refuses every later attempt to keep it alive, and is alive at none of
  those times.\<close>

theorem killed_session_stays_dead:
  assumes "0 < t" and "\<forall>t' \<in> set ts. t \<le> t'"
  shows "\<exists>s'. kill checks s t = Some s' \<and> keep_alive_attempts checks s' ts = ok s' \<and>
    (\<forall>t' \<in> set ts. \<not> is_alive s' t')"
  using assms by (rule sess.killed_attempts)

theorem killed_session_stays_dead_witness:
  "\<exists>s'. kill True \<lparr>s_ttl = 500, s_expr_interval = 0, s_keep_alive = 60\<rparr> 100 = Some s' \<and>
    keep_alive_attempts True s' [100, 200] = ok s' \<and> (\<forall>t' \<in> set [100, 200]. \<not> is_alive s' t')"
  by (rule killed_session_stays_dead) simp_all

text \<open>At its last second a session counts as alive, but keeping it alive is refused.\<close>

theorem last_second_refused:
  "is_alive s (s_ttl s) \<and> session_keep_alive checks s (s_ttl s) = err ''already expired''"
  by (simp add: is_alive_def session_keep_alive_def)

text \<open>A keep-alive interval above 43690 seconds overflows its sixteen bits: with overflow checks
  keeping the session alive panics, without them the interval and a half loses 65536 seconds.\<close>

theorem keep_alive_overflow:
  assumes "unat k > 43690"
  shows "grace True k = None \<and>
    (\<exists>g. grace False k = Some g \<and> unat g = unat k + unat k div 2 - 65536)"
proof -
  have div: "unat (k div 2) = unat k div 2" by (simp add: unat_div)
  have "unat k + unat k div 2 < 2 * 65536" using unat_u16_less [of k] by simp
  moreover have ge: "65536 \<le> unat k + unat k div 2" using assms by arith
  ultimately have "(unat k + unat k div 2) mod 65536 = unat k + unat k div 2 - 65536"
    by (simp add: le_mod_geq)
  then have "unat (k + k div 2) = unat k + unat k div 2 - 65536"
    by (simp add: unat_word_ariths div)
  then show ?thesis using ge by (auto simp: grace_def uadd_def div)
qed

theorem keep_alive_overflow_witness:
  "grace True 65535 = None \<and>
   (\<exists>g. grace False 65535 = Some g \<and> unat g = unat (65535::u16) + unat (65535::u16) div 2 - 65536)"
  by (rule keep_alive_overflow) simp

end
