(* ===== verification/Wire.thy ===== *)
theory Wire
  imports Prelude
begin

text \<open>
  The common wire format of the protocol layer: \<open>protocol/v5/mod.rs\<close> (service levels, the
  variable-length \<open>RemainingLength\<close>, length-prefixed strings and binary data) and
  \<open>protocol/v5/malform.rs\<close> (the reason codes of malformed packets).

  \<open>varint\<close>, \<open>utf8_image\<close> and \<open>pair_image\<close> are the reference images; the encoders
  are shown to append them and the decoders to read them back in front of any rest.
\<close>

unbundle bit_operations_syntax

section \<open>Reason codes and service levels\<close>

datatype malformed =
    MalformedPacket | ProtocolError | ReceiveMax | PacketTooLarge | RetainNotSupported
  | QoSNotSupported | SharedSubsUnsuppported | SubsIdUnSupported | WildcardSubsUnSupported

fun malformed_code :: "malformed \<Rightarrow> u8" where
  "malformed_code MalformedPacket = 0x81"
| "malformed_code ProtocolError = 0x82"
| "malformed_code ReceiveMax = 0x93"
| "malformed_code PacketTooLarge = 0x95"
| "malformed_code RetainNotSupported = 0x9A"
| "malformed_code QoSNotSupported = 0x9B"
| "malformed_code SharedSubsUnsuppported = 0x9E"
| "malformed_code SubsIdUnSupported = 0xA1"
| "malformed_code WildcardSubsUnSupported = 0xA2"

datatype service_level = QoS0 | QoS1 | QoS2

fun qos_code :: "service_level \<Rightarrow> u8" where
  "qos_code QoS0 = 0"
| "qos_code QoS1 = 1"
| "qos_code QoS2 = 2"

definition max_qos :: u8 where
  "max_qos = 2"

definition qos_default :: service_level where
  "qos_default = QoS0"

definition qos_try_from :: "u8 \<Rightarrow> (malformed, service_level) run" where
  "qos_try_from v =
     (if v = 0 then ok QoS0 else if v = 1 then ok QoS1 else if v = 2 then ok QoS2
      else err QoSNotSupported)"

lemma qos_try_from_code [simp]: "qos_try_from (qos_code q) = ok q"
  by (cases q) (simp_all add: qos_try_from_def)

lemma qos_try_from_ok_iff: "qos_try_from v = ok q \<longleftrightarrow> v = qos_code q"
  by (cases q) (auto simp: qos_try_from_def)

lemma qos_code_inj [simp]: "qos_code p = qos_code q \<longleftrightarrow> p = q"
  by (cases p; cases q) simp_all

lemma returns_qos_try_from [simp]: "\<exists>y. qos_try_from v = Some y"
  by (simp add: qos_try_from_def)

section \<open>RemainingLength\<close>

partial_function (option) rl_decode_loop ::
    "bytes_crate \<Rightarrow> u32 \<Rightarrow> u32 \<Rightarrow> bytes \<Rightarrow> (string, u32 \<times> bytes) run" where
  "rl_decode_loop B multiplier value buffer =
     need (get_u8 B buffer) (\<lambda>(encoded_byte, buffer).
       let value = value + ucast (encoded_byte AND 127) * multiplier in
       if encoded_byte AND 128 = 0 then ok (value, buffer)
       else let multiplier = multiplier * 128 in
         if multiplier > 128 * 128 * 128 then err ''Malformed Remaining Length''
         else rl_decode_loop B multiplier value buffer)"

declare rl_decode_loop.simps [code]

definition rl_decode :: "bytes_crate \<Rightarrow> bytes \<Rightarrow> (string, u32 \<times> bytes) run" where
  "rl_decode B buffer = rl_decode_loop B 1 0 buffer"

definition MAX_ENCODABLE :: u32 where
  "MAX_ENCODABLE = 268435455"

lemma word_div_128_less: "(t::u32) \<noteq> 0 \<Longrightarrow> unat (t div 128) < unat t"
  by (simp add: unat_div word_less_nat_alt) (metis div_less_dividend gr0I one_less_numeral_iff
    semiring_norm(76) unat_eq_zero)

text \<open>The store \<open>res[size] = ...\<close> panics outside the four bytes of the array.\<close>

function rl_encode_loop :: "u32 \<Rightarrow> bytes \<Rightarrow> nat \<Rightarrow> (string, bytes \<times> nat) run" where
  "rl_encode_loop target res sz =
     (if target \<noteq> 0 then
        let encoded_byte = ucast (target mod 128) :: u8;
            target' = target div 128;
            encoded_byte = (if target' > 0 then encoded_byte OR 128 else encoded_byte)
        in if sz < length res then rl_encode_loop target' (res[sz := encoded_byte]) (sz + 1)
           else panic
      else ok (res, sz))"
  by pat_completeness auto
termination
  by (relation "measure (\<lambda>(target, res, sz). unat target)") (auto simp: word_div_128_less)

declare rl_encode_loop.simps [simp del]

definition rl_encode :: "u32 \<Rightarrow> (string, bytes \<times> nat) run" where
  "rl_encode target =
     (if target > MAX_ENCODABLE then err ''error encode length''
      else rl_encode_loop target [0, 0, 0, 0] 0)"

subsection \<open>The reference image\<close>

text \<open>
  Base 128, least significant group first, the top bit set on every group but the last.
  Zero has no group at all, as the encoder's loop has no iteration for it.
\<close>

fun varint :: "nat \<Rightarrow> bytes" where
  "varint n =
     (if n = 0 then []
      else if n < 128 then [word_of_nat n]
      else word_of_nat (n mod 128 + 128) # varint (n div 128))"

declare varint.simps [simp del]

lemma varint_0 [simp]: "varint 0 = []"
  by (simp add: varint.simps)

lemma u8_and_127: "unat ((x::u8) AND 127) = unat x mod 128"
proof -
  have "x AND 127 = take_bit 7 x"
    by (simp add: take_bit_eq_mask mask_eq_exp_minus_1)
  then show ?thesis by (simp add: take_bit_eq_mod unat_mod)
qed

lemma u8_and_128: "(x::u8) AND 128 = 0 \<longleftrightarrow> unat x < 128"
proof -
  have "x AND 128 = 0 \<longleftrightarrow> \<not> bit x 7"
    using and_exp_eq_0_iff_not_bit [of x 7] by simp
  also have "bit x 7 \<longleftrightarrow> bit (unat x) 7"
    by (simp add: bit_simps)
  also have "bit (unat x) 7 \<longleftrightarrow> odd (unat x div 128)"
    by (simp add: bit_iff_odd)
  also have "odd (unat x div 128) \<longleftrightarrow> \<not> unat x < 128"
  proof -
    have "unat x < 256" by (rule unat_u8_less)
    then have "unat x div 128 = (if unat x < 128 then 0 else 1)" by auto
    then show ?thesis by simp
  qed
  finally show ?thesis by simp
qed


lemma varint_cases:
  "n = 0 \<Longrightarrow> varint n = []"
  "0 < n \<Longrightarrow> n < 128 \<Longrightarrow> varint n = [word_of_nat n]"
  "128 \<le> n \<Longrightarrow> varint n = word_of_nat (n mod 128 + 128) # varint (n div 128)"
  by (subst varint.simps; simp)+

lemma length_varint: "n < 128 ^ k \<Longrightarrow> length (varint n) \<le> k"
proof (induction k arbitrary: n)
  case 0
  then show ?case by (simp add: varint_cases)
next
  case (Suc k)
  show ?case
  proof (cases "n < 128")
    case True
    then show ?thesis by (cases "n = 0") (simp_all add: varint_cases)
  next
    case False
    have "n div 128 < 128 ^ k"
      using Suc.prems by (simp add: less_mult_imp_div_less mult.commute)
    then have "length (varint (n div 128)) \<le> k" by (rule Suc.IH)
    with False show ?thesis by (simp add: varint_cases)
  qed
qed

lemma varint_nonempty: "0 < n \<Longrightarrow> varint n \<noteq> []"
  by (subst varint.simps) simp

subsection \<open>The encoder writes the image\<close>

lemma unat_div_128: "unat ((t::u32) div 128) = unat t div 128"
  by (simp add: unat_div)

lemma unat_mod_128: "unat ((t::u32) mod 128) = unat t mod 128"
  by (simp add: unat_mod)

lemma ucast_group: "(ucast ((t::u32) mod 128) :: u8) = word_of_nat (unat t mod 128)"
  by (metis of_nat_unat unat_mod_128)

lemma ucast_and_127: "(ucast ((x::u8) AND 127) :: u32) = word_of_nat (unat x mod 128)"
  by (metis of_nat_unat u8_and_127)

lemma u8_or_128: "n < 128 \<Longrightarrow> (word_of_nat n :: u8) OR 128 = word_of_nat (n + 128)"
proof -
  assume n: "n < 128"
  have "(word_of_nat n :: u8) AND 128 = 0"
    using n by (simp add: u8_and_128 unat_of_nat)
  then have "(word_of_nat n :: u8) + 128 = word_of_nat n OR 128"
    by (simp add: disjunctive_add_eq_or)
  then show ?thesis by simp
qed

lemma rl_encode_loop_image:
  assumes "unat target < 128 ^ k" and "length pre + k \<le> 4" and "length pre + length post = 4"
  shows "\<exists>post'. rl_encode_loop target (pre @ post) (length pre) =
           ok (pre @ varint (unat target) @ post', length pre + length (varint (unat target)))
         \<and> length pre + length (varint (unat target)) + length post' = 4"
  using assms
proof (induction k arbitrary: target pre post)
  case 0
  then show ?case by (simp add: unat_eq_0 rl_encode_loop.simps)
next
  case (Suc k)
  show ?case
  proof (cases "target = 0")
    case True
    then show ?thesis using Suc.prems by (simp add: rl_encode_loop.simps)
  next
    case False
    let ?t = "target div 128" and ?n = "unat target"
    let ?e = "if ?t > 0 then (ucast (target mod 128) :: u8) OR 128 else ucast (target mod 128)"
    from Suc.prems obtain p ps where post: "post = p # ps" by (cases post) auto
    have t: "unat ?t = ?n div 128" by (rule unat_div_128)
    have pos: "?t > 0 \<longleftrightarrow> 128 \<le> ?n"
      using t by (metis div_greater_zero_iff unat_gt_0 word_neq_0_conv zero_less_numeral)
    have n0: "0 < ?n" using False by (simp add: unat_gt_0)
    have vn: "varint ?n = ?e # varint (unat ?t)"
    proof (cases "128 \<le> ?n")
      case True
      then have "?e = word_of_nat (?n mod 128 + 128)"
        by (simp only: pos if_True ucast_group u8_or_128 mod_less_divisor zero_less_numeral)
      with True show ?thesis by (simp only: varint_cases t)
    next
      case False
      then have "\<not> ?t > 0" by (simp only: pos not_False_eq_True)
      with False have "?e = word_of_nat ?n" by (simp only: if_False ucast_group mod_less not_le)
      with False n0 show ?thesis by (simp only: varint_cases t not_le div_less)
    qed
    then have vlen: "length (varint ?n) = Suc (length (varint (unat ?t)))" by simp
    have step: "rl_encode_loop target (pre @ post) (length pre)
                 = rl_encode_loop ?t ((pre @ [?e]) @ ps) (length (pre @ [?e]))"
      using False post by (subst rl_encode_loop.simps) (simp add: Let_def list_update_append)
    define e where "e = ?e"
    have "unat ?t < 128 ^ k"
      using Suc.prems(1) by (simp add: t less_mult_imp_div_less mult.commute)
    moreover have "length (pre @ [e]) + k \<le> 4" "length (pre @ [e]) + length ps = 4"
      using Suc.prems(2,3) post by simp_all
    ultimately obtain post' where
      "rl_encode_loop ?t ((pre @ [e]) @ ps) (length (pre @ [e])) =
         ok ((pre @ [e]) @ varint (unat ?t) @ post', length (pre @ [e]) + length (varint (unat ?t)))"
      "length (pre @ [e]) + length (varint (unat ?t)) + length post' = 4"
      using Suc.IH by blast
    then show ?thesis
      unfolding step vlen vn e_def [symmetric] by (intro exI [of _ post']) simp
  qed
qed

lemma rl_encode_image:
  assumes "unat n < 128 ^ 4"
  shows "\<exists>arr. rl_encode n = ok (arr, length (varint (unat n)))
             \<and> take (length (varint (unat n))) arr = varint (unat n)"
proof -
  have "\<not> n > MAX_ENCODABLE"
    using assms by (simp add: MAX_ENCODABLE_def word_less_nat_alt)
  then show ?thesis
    using rl_encode_loop_image [of n 4 "[]" "[0, 0, 0, 0]"] assms
    by (auto simp: rl_encode_def)
qed

subsection \<open>The decoder reads the image back\<close>

lemma rl_decode_loop_image:
  assumes B: "bytes_doc B" and "0 < n" and "n < 128 ^ (4 - k)" and "k < 4"
  shows "rl_decode_loop B (128 ^ k) v (varint n @ r) = ok (v + word_of_nat n * 128 ^ k, r)"
  using assms(2-)
proof (induction n arbitrary: k v rule: less_induct)
  case (less n)
  show ?case
  proof (cases "n < 128")
    case True
    then have u: "unat (word_of_nat n :: u8) = n" by (simp add: unat_of_nat)
    with True have "(word_of_nat n :: u8) AND 128 = 0" by (simp add: u8_and_128)
    moreover have "(ucast ((word_of_nat n :: u8) AND 127) :: u32) = word_of_nat n"
      using u True by (simp only: ucast_and_127) simp
    ultimately show ?thesis
      using True less.prems B
      by (subst rl_decode_loop.simps) (simp add: varint_cases bytes_simps)
  next
    case False
    let ?b = "word_of_nat (n mod 128 + 128) :: u8"
    have "n mod 128 + 128 < 2 ^ LENGTH(8)" by simp
    then have ub: "unat ?b = n mod 128 + 128" by (simp only: unat_of_nat mod_less)
    have k: "k < 3"
    proof (rule ccontr)
      assume "\<not> k < 3"
      with less.prems have "k = 3" by simp
      with less.prems False show False by simp
    qed
    then have "(128::u32) ^ Suc k \<le> 128 * 128 * 128"
      by (auto simp: less_Suc_eq numeral_3_eq_3)
    then have noerr: "\<not> (128::u32) ^ k * 128 > 128 * 128 * 128"
      by (simp add: mult.commute not_less)
    have "(4::nat) - k = Suc (4 - Suc k)" using k by simp
    then have "n < 128 ^ (4 - Suc k) * 128" using less.prems(2) by simp
    then have small: "n div 128 < 128 ^ (4 - Suc k)" by (rule less_mult_imp_div_less)
    have "(word_of_nat n :: u32) = word_of_nat (n div 128 * 128 + n mod 128)" by simp
    then have n: "(word_of_nat n :: u32) = word_of_nat (n div 128) * 128 + word_of_nat (n mod 128)"
      by (simp only: of_nat_add of_nat_mult of_nat_numeral)
    have "ucast (?b AND 127) = (word_of_nat (n mod 128) :: u32)"
      by (simp only: ucast_and_127 ub) simp
    moreover have "?b AND 128 \<noteq> 0" by (simp only: u8_and_128 ub)
    ultimately have "rl_decode_loop B (128 ^ k) v (varint n @ r) =
      rl_decode_loop B (128 ^ Suc k) (v + word_of_nat (n mod 128) * 128 ^ k) (varint (n div 128) @ r)"
      using False B noerr
      by (subst rl_decode_loop.simps) (simp add: varint_cases bytes_simps Let_def mult.commute)
    also have "\<dots> = ok (v + word_of_nat (n mod 128) * 128 ^ k
                          + word_of_nat (n div 128) * 128 ^ Suc k, r)"
      using False small k by (intro less.IH) auto
    finally show ?thesis by (simp add: n algebra_simps)
  qed
qed


lemma rl_decode_image:
  assumes "bytes_doc B" and "0 < n" and "n < 128 ^ 4"
  shows "rl_decode B (varint n @ r) = ok (word_of_nat n, r)"
  using rl_decode_loop_image [of B n 0 0 r] assms by (simp add: rl_decode_def)

subsection \<open>The decoder on an arbitrary buffer\<close>

text \<open>
  \<open>varint_value\<close> reads groups as the digits of a base-128 number.  The specification of the
  decoder: with \<open>k\<close> continuation bytes at the front, four or more are an error, a buffer that
  has nothing after them is a panic (a getter on an empty buffer), and otherwise the value of
  the first \<open>k + 1\<close> bytes is returned.
\<close>

fun varint_value :: "bytes \<Rightarrow> nat" where
  "varint_value [] = 0"
| "varint_value (x # xs) = unat x mod 128 + 128 * varint_value xs"

abbreviation groups :: "bytes \<Rightarrow> nat" where
  "groups b \<equiv> length (takeWhile (\<lambda>x. 128 \<le> unat x) b)"

definition rl_spec :: "nat \<Rightarrow> bytes \<Rightarrow> (string, nat \<times> bytes) run" where
  "rl_spec m b =
     (if m \<le> groups b then err ''Malformed Remaining Length''
      else if groups b = length b then panic
      else ok (varint_value (take (Suc (groups b)) b), drop (Suc (groups b)) b))"

lemma rl_decode_loop_spec:
  assumes "bytes_doc B" and "k < 4"
  shows "rl_decode_loop B (128 ^ k) v b =
    andThen (rl_spec (4 - k) b) (\<lambda>(n, r). ok (v + word_of_nat n * 128 ^ k, r))"
  using assms(2)
proof (induction b arbitrary: k v)
  case Nil
  then show ?case
    using assms(1) by (subst rl_decode_loop.simps) (simp add: rl_spec_def bytes_simps)
next
  case (Cons x b)
  have step: "rl_decode_loop B (128 ^ k) v (x # b) =
      (if unat x < 128 then ok (v + word_of_nat (unat x mod 128) * 128 ^ k, b)
       else if (128::u32) ^ Suc k > 128 * 128 * 128 then err ''Malformed Remaining Length''
       else rl_decode_loop B (128 ^ Suc k) (v + word_of_nat (unat x mod 128) * 128 ^ k) b)"
    using assms(1)
    by (subst rl_decode_loop.simps)
      (simp add: bytes_simps Let_def u8_and_128 ucast_and_127 mult.commute del: of_nat_unat)
  show ?case
  proof (cases "unat x < 128")
    case True
    then show ?thesis unfolding step using Cons.prems by (simp add: rl_spec_def)
  next
    case False
    show ?thesis
    proof (cases "k = 3")
      case True
      then have "(128::u32) ^ Suc k > 128 * 128 * 128" by simp
      with False True show ?thesis unfolding step by (simp add: rl_spec_def)
    next
      case k: False
      with Cons.prems have k: "Suc k < 4" by simp
      then have "k = 0 \<or> k = 1 \<or> k = 2" by auto
      then have "\<not> (128::u32) ^ Suc k > 128 * 128 * 128" by (elim disjE) simp_all
      moreover have "rl_spec (4 - k) (x # b) =
        andThen (rl_spec (4 - Suc k) b) (\<lambda>(n, r). ok (unat x mod 128 + 128 * n, r))"
        using False k by (auto simp: rl_spec_def)
      ultimately show ?thesis
        unfolding step Cons.IH [OF k] using False
        by (auto simp: andThen_assoc algebra_simps split: prod.splits
              intro!: arg_cong2 [where f = andThen])
    qed
  qed
qed

lemma rl_decode_spec:
  assumes "bytes_doc B"
  shows "rl_decode B b = andThen (rl_spec 4 b) (\<lambda>(n, r). ok (word_of_nat n, r))"
  using rl_decode_loop_spec [OF assms, of 0 0 b] by (simp add: rl_decode_def)

lemma varint_value_bound: "varint_value b < 128 ^ length b"
  by (induction b) (auto simp: Suc_le_eq [symmetric] intro: order.trans)

lemma rl_decode_shrinks:
  assumes "bytes_doc B" and "rl_decode B b = ok (n, r)"
  shows "length r < length b" and "length b \<le> length r + 4" and "n \<le> MAX_ENCODABLE"
proof -
  from assms have g: "groups b < 4" "groups b \<noteq> length b"
    and r: "r = drop (Suc (groups b)) b"
    and n: "n = word_of_nat (varint_value (take (Suc (groups b)) b))"
    by (auto simp: rl_decode_spec rl_spec_def andThen_eq_ok split: if_splits)
  have "groups b < length b" using g(2) length_takeWhile_le [of _ b] by (metis le_neq_implies_less)
  with r g(1) show "length r < length b" "length b \<le> length r + 4" by auto
  have "varint_value (take (Suc (groups b)) b) < 128 ^ length (take (Suc (groups b)) b)"
    by (rule varint_value_bound)
  also have "\<dots> \<le> 128 ^ 4" using g(1) by (intro power_increasing) auto
  finally have "varint_value (take (Suc (groups b)) b) \<le> 268435455" by simp
  then show "n \<le> MAX_ENCODABLE"
    by (simp add: n MAX_ENCODABLE_def word_le_nat_alt unat_of_nat)
qed

lemma returns_rl_decode [simp]: "bytes_doc B \<Longrightarrow> \<exists>y. rl_decode B b = Some y"
  by (simp add: rl_decode_spec rl_spec_def)


subsection \<open>Encoding and cutting the array\<close>

text \<open>
  The idiom of every packet encoder: \<open>RemainingLength::encode(n as u32)?\<close> and then
  \<open>split_at(size)\<close> of the array.
\<close>

definition rl_bytes :: "nat \<Rightarrow> (string, bytes) run" where
  "rl_bytes n = andThen (rl_encode (word_of_nat n)) (\<lambda>(arr, sz). ok (take sz arr))"

lemma rl_bytes_image:
  assumes "n < 128 ^ 4"
  shows "rl_bytes n = ok (varint n)"
proof -
  have u: "unat (word_of_nat n :: u32) = n"
    using assms by (simp add: unat_of_nat)
  obtain arr where "rl_encode (word_of_nat n) = ok (arr, length (varint n))"
    and "take (length (varint n)) arr = varint n"
    using rl_encode_image [of "word_of_nat n"] assms by (auto simp only: u)
  then show ?thesis by (simp add: rl_bytes_def)
qed

lemma rl_bytes_too_long:
  assumes "128 ^ 4 \<le> n" and "n < 2 ^ 32"
  shows "rl_bytes n = err ''error encode length''"
proof -
  have "unat (word_of_nat n :: u32) = n"
    using assms(2) by (simp add: unat_of_nat)
  then have "(word_of_nat n :: u32) > MAX_ENCODABLE"
    using assms(1) by (simp add: MAX_ENCODABLE_def word_less_nat_alt)
  then show ?thesis by (simp add: rl_bytes_def rl_encode_def)
qed

section \<open>Length-prefixed strings and binary data\<close>

definition decode_utf8_string :: "bytes_crate \<Rightarrow> bytes \<Rightarrow> (string, rstring \<times> bytes) run" where
  "decode_utf8_string B buffer =
     need (get_u16 B buffer) (\<lambda>(len, buffer).
       if unat len > length buffer then err ''buffer out of capacity''
       else need (split_to B (unat len) buffer) (\<lambda>(s, buffer).
         if utf8_valid s then ok (s, buffer) else err ''Invalid UTF-8 string''))"

definition decode_binary_data :: "bytes_crate \<Rightarrow> bytes \<Rightarrow> (string, bytes \<times> bytes) run" where
  "decode_binary_data B buffer =
     need (get_u16 B buffer) (\<lambda>(len, buffer).
       if unat len > length buffer then err ''buffer out of capacity''
       else need (split_to B (unat len) buffer) (\<lambda>(data, buffer). ok (data, buffer)))"

definition encode_utf8_string :: "bytes_crate \<Rightarrow> bytes \<Rightarrow> rstring \<Rightarrow> (string, bytes) run" where
  "encode_utf8_string B buffer s =
     (if length s > 65535 then err ''String too long''
      else let buffer = put_u16 B buffer (word_of_nat (length s))
           in ok (put_slice B buffer s))"

definition encode_binary_data :: "bytes_crate \<Rightarrow> bytes \<Rightarrow> bytes \<Rightarrow> (string, bytes) run" where
  "encode_binary_data B buffer data =
     (if length data > 65535 then err ''Binary data too long''
      else let buffer = put_u16 B buffer (word_of_nat (length data))
           in ok (put_slice B buffer data))"

definition decode_string_pair ::
    "bytes_crate \<Rightarrow> bytes \<Rightarrow> (string, (rstring \<times> rstring) \<times> bytes) run" where
  "decode_string_pair B buffer =
     andThen (decode_utf8_string B buffer) (\<lambda>(key, buffer).
     andThen (decode_utf8_string B buffer) (\<lambda>(val, buffer). ok ((key, val), buffer)))"

text \<open>The image of a length-prefixed byte string, and the strings that have one.\<close>

definition len_image :: "bytes \<Rightarrow> bytes" where
  "len_image s = enc16 (word_of_nat (length s)) @ s"

definition str_ok :: "rstring \<Rightarrow> bool" where
  "str_ok s \<longleftrightarrow> length s \<le> 65535 \<and> utf8_valid s"

lemma length_len_image [simp]: "length (len_image s) = length s + 2"
  by (simp add: len_image_def)

named_theorems wire_simps \<open>encoders and decoders of the common wire format on images\<close>

lemmas [wire_simps] = bytes_simps

lemma encode_utf8_string_image [wire_simps]:
  "bytes_doc B \<Longrightarrow>
     encode_utf8_string B b s =
       (if length s > 65535 then err ''String too long'' else ok (b @ len_image s))"
  by (simp add: encode_utf8_string_def bytes_simps len_image_def)

lemma encode_binary_data_image [wire_simps]:
  "bytes_doc B \<Longrightarrow>
     encode_binary_data B b s =
       (if length s > 65535 then err ''Binary data too long'' else ok (b @ len_image s))"
  by (simp add: encode_binary_data_def bytes_simps len_image_def)

lemma unat_length16: "length s \<le> 65535 \<Longrightarrow> unat (word_of_nat (length s) :: u16) = length s"
  by (simp add: unat_of_nat)

lemma decode_utf8_string_image [wire_simps]:
  "bytes_doc B \<Longrightarrow> str_ok s \<Longrightarrow> decode_utf8_string B (len_image s @ r) = ok (s, r)"
  by (simp add: decode_utf8_string_def bytes_simps len_image_def str_ok_def unat_length16
      del: unat_of_nat)

lemma decode_binary_data_image [wire_simps]:
  "bytes_doc B \<Longrightarrow> length s \<le> 65535 \<Longrightarrow> decode_binary_data B (len_image s @ r) = ok (s, r)"
  by (simp add: decode_binary_data_def bytes_simps len_image_def unat_length16 del: unat_of_nat)

lemma decode_string_pair_image [wire_simps]:
  "bytes_doc B \<Longrightarrow> str_ok k \<Longrightarrow> str_ok v \<Longrightarrow>
     decode_string_pair B (len_image k @ len_image v @ r) = ok ((k, v), r)"
  by (simp add: decode_string_pair_def wire_simps)

lemma decode_utf8_string_ok:
  assumes "bytes_doc B" and "decode_utf8_string B b = ok (s, r)"
  shows "b = len_image s @ r" and "str_ok s" and "length r < length b"
proof -
  from assms obtain h l t where b: "b = h # l # t"
    and t: "s = take (unat (dec16 h l)) t" "r = drop (unat (dec16 h l)) t" "utf8_valid s"
      "unat (dec16 h l) \<le> length t"
    by (auto simp: decode_utf8_string_def bytes_doc_def need_eq_ok split: list.splits if_splits)
  have "length s = unat (dec16 h l)" using t by simp
  then have "word_of_nat (length s) = dec16 h l" by simp
  then show img: "b = len_image s @ r" using b t by (simp add: len_image_def enc16_dec16)
  have "length s \<le> 65535"
    using \<open>length s = _\<close> unat_u16_less [of "dec16 h l"] by simp
  with t(3) show "str_ok s" by (simp add: str_ok_def)
  show "length r < length b" using b t by simp
qed

lemma decode_binary_data_ok:
  assumes "bytes_doc B" and "decode_binary_data B b = ok (s, r)"
  shows "length r < length b"
  using assms
  by (auto simp: decode_binary_data_def bytes_doc_def need_eq_ok split: list.splits if_splits)

lemma decode_string_pair_ok:
  assumes "bytes_doc B" and "decode_string_pair B b = ok (p, r)"
  shows "length r < length b"
  using assms(2)
  by (auto simp: decode_string_pair_def andThen_eq_ok dest!: decode_utf8_string_ok(3) [OF assms(1)])

lemma returns_decode_utf8_string [simp]: "\<exists>y. decode_utf8_string B b = Some y"
  by (auto simp: decode_utf8_string_def need_def split: option.splits)

lemma returns_decode_binary_data [simp]: "\<exists>y. decode_binary_data B b = Some y"
  by (auto simp: decode_binary_data_def need_def split: option.splits)

lemma returns_decode_string_pair [simp]: "\<exists>y. decode_string_pair B b = Some y"
  unfolding decode_string_pair_def by (intro returns_intros returns_decode_utf8_string)

section \<open>User properties\<close>

text \<open>The image of a list of user properties (identifier 0x26, key, value).\<close>

fun pairs_image :: "(rstring \<times> rstring) list \<Rightarrow> bytes" where
  "pairs_image [] = []"
| "pairs_image ((k, v) # ps) = 0x26 # len_image k @ len_image v @ pairs_image ps"

definition pairs_ok :: "(rstring \<times> rstring) list \<Rightarrow> bool" where
  "pairs_ok ps \<longleftrightarrow> (\<forall>(k, v) \<in> set ps. str_ok k \<and> str_ok v)"

text \<open>
  The loop over the user properties that every encoder with properties contains
  (\<open>puback.rs\<close>, \<open>subsack.rs\<close>, \<open>connack.rs\<close>, \<open>publish.rs\<close>).
\<close>

fun encode_pairs :: "bytes_crate \<Rightarrow> bytes \<Rightarrow> (rstring \<times> rstring) list \<Rightarrow> (string, bytes) run" where
  "encode_pairs B buf [] = ok buf"
| "encode_pairs B buf ((key, val) # ps) =
     (let buf = put_u8 B buf 0x26 in
      andThen (encode_utf8_string B buf key) (\<lambda>buf.
      andThen (encode_utf8_string B buf val) (\<lambda>buf. encode_pairs B buf ps)))"

lemma encode_pairs_image [wire_simps]:
  "bytes_doc B \<Longrightarrow> pairs_ok ps \<Longrightarrow> encode_pairs B b ps = ok (b @ pairs_image ps)"
  by (induction ps arbitrary: b) (auto simp: wire_simps pairs_ok_def str_ok_def)

lemma length_pairs_image:
  "length (pairs_image ps) = (\<Sum>(k, v) \<leftarrow> ps. 5 + length k + length v)"
  by (induction ps rule: pairs_image.induct) auto

lemma pairs_ok_simps [simp]:
  "pairs_ok []"
  "pairs_ok ((k, v) # ps) \<longleftrightarrow> str_ok k \<and> str_ok v \<and> pairs_ok ps"
  by (auto simp: pairs_ok_def)

section \<open>Properties\<close>

text \<open>C23: A remaining length from 1 to 268435455 is encoded in at most four bytes, and decoding those
  bytes gives it back whatever follows; a greater one is refused, and zero is encoded in no byte at
  all, so a packet that announces an empty section that way announces nothing.\<close>

theorem remaining_length_roundtrip:
  assumes "bytes_doc B" and "n \<noteq> 0" and "n \<le> MAX_ENCODABLE"
  shows "\<exists>arr k. rl_encode n = ok (arr, k) \<and> k \<le> 4 \<and> rl_decode B (take k arr @ r) = ok (n, r) \<and>
    rl_encode 0 = ok ([0, 0, 0, 0], 0) \<and> (\<forall>m > MAX_ENCODABLE. rl_encode m = err ''error encode length'')"
proof -
  have u: "unat n < 128 ^ 4" using assms(3) by (simp add: MAX_ENCODABLE_def word_le_nat_alt)
  obtain arr where "rl_encode n = ok (arr, length (varint (unat n)))"
    "take (length (varint (unat n))) arr = varint (unat n)"
    using rl_encode_image [OF u] by blast
  moreover have "rl_decode B (varint (unat n) @ r) = ok (n, r)"
    using rl_decode_image [OF assms(1) _ u, of r] assms(2) by (simp add: unat_gt_0)
  moreover have "rl_encode 0 = ok ([0, 0, 0, 0], 0)"
    by (simp add: rl_encode_def rl_encode_loop.simps)
  ultimately show ?thesis using length_varint [OF u] by (auto simp: rl_encode_def)
qed

theorem remaining_length_roundtrip_witness:
  "\<exists>arr k. rl_encode 321 = ok (arr, k) \<and> k \<le> 4 \<and> rl_decode list_bytes (take k arr @ [7]) = ok (321, [7]) \<and>
    rl_encode 0 = ok ([0, 0, 0, 0], 0) \<and> (\<forall>m > MAX_ENCODABLE. rl_encode m = err ''error encode length'')"
  by (rule remaining_length_roundtrip) (simp_all add: MAX_ENCODABLE_def)

text \<open>C22: On any buffer the decoder of the remaining length does what the base-128 reading of its first
  bytes says: four continuation bytes at the front are an error, a buffer that ends in the middle
  panics, and otherwise it takes the bytes up to the first without the continuation bit.\<close>

theorem remaining_length_decoder:
  assumes "bytes_doc B"
  shows "rl_decode B b =
    (if 4 \<le> groups b then err ''Malformed Remaining Length''
     else if groups b = length b then panic
     else ok (word_of_nat (varint_value (take (groups b + 1) b)), drop (groups b + 1) b))"
  unfolding rl_decode_spec [OF assms] by (simp add: rl_spec_def)

theorem remaining_length_decoder_witness:
  "rl_decode list_bytes [0x80, 0x80, 0x80] = 
    (if 4 \<le> groups [0x80, 0x80, 0x80] then err ''Malformed Remaining Length''
     else if groups [0x80, 0x80, 0x80] = length [0x80 :: u8, 0x80, 0x80] then panic
     else ok (word_of_nat (varint_value (take (groups [0x80, 0x80, 0x80] + 1) [0x80, 0x80, 0x80])),
       drop (groups [0x80, 0x80, 0x80] + 1) [0x80, 0x80, 0x80]))"
  by (rule remaining_length_decoder) simp

end
