(* ===== verification/PubAck.thy ===== *)
theory PubAck
  imports Wire
begin

text \<open>
  \<open>protocol/v5/puback.rs\<close>: the PUBACK, PUBREC, PUBREL and PUBCOMP packets and their encoder.
\<close>

datatype pub_ack_type = PubAck | PubRec | PubRel | PubComp

fun pub_ack_code :: "pub_ack_type \<Rightarrow> u8" where
  "pub_ack_code PubAck = 0x40"
| "pub_ack_code PubRec = 0x50"
| "pub_ack_code PubRel = 0x60"
| "pub_ack_code PubComp = 0x70"

record puback_properties =
  pa_reason_string :: "rstring option"
  pa_user_properties :: "(rstring \<times> rstring) list option"

record puback_packet =
  pa_packet_type :: pub_ack_type
  pa_packet_id :: u16
  pa_reason_code :: u8
  pa_properties :: "puback_properties option"

definition puback_encode_properties ::
    "bytes_crate \<Rightarrow> puback_properties \<Rightarrow> (string, bytes) run" where
  "puback_encode_properties B p =
     andThen (case pa_reason_string p of
        None \<Rightarrow> ok []
      | Some reason \<Rightarrow> encode_utf8_string B (put_u8 B [] 0x1F) reason) (\<lambda>buf.
     (case pa_user_properties p of
        None \<Rightarrow> ok buf
      | Some ups \<Rightarrow> encode_pairs B buf ups))"

definition puback_encode :: "bytes_crate \<Rightarrow> puback_packet \<Rightarrow> (string, bytes) run" where
  "puback_encode B p =
     andThen (case pa_properties p of None \<Rightarrow> ok [] | Some q \<Rightarrow> puback_encode_properties B q)
       (\<lambda>buf_prop.
     andThen (rl_bytes (length buf_prop)) (\<lambda>prop_leng.
     andThen (rl_bytes (length prop_leng + length buf_prop + 3)) (\<lambda>remaining_length.
       let buffer = put_u8 B [] (pub_ack_code (pa_packet_type p));
           buffer = put_slice B buffer remaining_length;
           buffer = put_u16 B buffer (pa_packet_id p);
           buffer = put_u8 B buffer (pa_reason_code p);
           buffer = put_slice B buffer prop_leng
       in ok (put_slice B buffer buf_prop))))"

definition puback_props_image :: "puback_packet \<Rightarrow> bytes" where
  "puback_props_image p =
     (case pa_properties p of None \<Rightarrow> [] | Some q \<Rightarrow>
        (case pa_reason_string q of None \<Rightarrow> [] | Some s \<Rightarrow> 0x1F # len_image s) @
        (case pa_user_properties q of None \<Rightarrow> [] | Some ps \<Rightarrow> pairs_image ps))"

definition puback_props_ok :: "puback_packet \<Rightarrow> bool" where
  "puback_props_ok p \<longleftrightarrow>
     pred_option (\<lambda>q. pred_option str_ok (pa_reason_string q)
       \<and> pred_option pairs_ok (pa_user_properties q)) (pa_properties p)"

definition puback_body :: "puback_packet \<Rightarrow> bytes" where
  "puback_body p = enc16 (pa_packet_id p) @ pa_reason_code p
     # varint (length (puback_props_image p)) @ puback_props_image p"

lemma puback_props_encode_image:
  assumes "bytes_doc B" and "puback_props_ok p"
  shows "(case pa_properties p of None \<Rightarrow> ok [] | Some q \<Rightarrow> puback_encode_properties B q) =
    ok (puback_props_image p)"
  using assms
  by (auto simp: puback_encode_properties_def puback_props_image_def puback_props_ok_def wire_simps
      str_ok_def split: option.splits)

lemma puback_encode_frame:
  assumes B: "bytes_doc B" and props: "puback_props_ok p"
    and len: "length (puback_body p) < 128 ^ 4"
  shows "puback_encode B p =
    ok (pub_ack_code (pa_packet_type p) # varint (length (puback_body p)) @ puback_body p)"
proof -
  let ?q = "puback_props_image p"
  have plen: "length ?q < 128 ^ 4" using len by (simp add: puback_body_def)
  have "length (varint (length ?q)) + length ?q + 3 = length (puback_body p)"
    by (simp add: puback_body_def)
  then have "rl_bytes (length (varint (length ?q)) + length ?q + 3)
      = ok (varint (length (puback_body p)))"
    using len by (simp only: rl_bytes_image)
  then show ?thesis
    using B plen
    by (simp add: puback_encode_def puback_props_encode_image [OF B props] rl_bytes_image
        bytes_simps Let_def) (simp add: puback_body_def)
qed

lemma puback_encode_plain:
  assumes "bytes_doc B" and "pa_properties p = None"
  shows "puback_encode B p =
    ok (pub_ack_code (pa_packet_type p) # 3 # enc16 (pa_packet_id p) @ [pa_reason_code p])"
proof -
  have "puback_body p = enc16 (pa_packet_id p) @ [pa_reason_code p]"
    using assms(2) by (simp add: puback_body_def puback_props_image_def)
  moreover have "puback_props_ok p" using assms(2) by (simp add: puback_props_ok_def)
  ultimately show ?thesis
    using puback_encode_frame [OF assms(1)] by (simp add: varint_cases)
qed

text \<open>The encoder of the acknowledgement packets (PUBACK, PUBREC, PUBREL, PUBCOMP) writes the
  packet type, a remaining length equal to the number of bytes after it, then the packet
  identifier, the reason code and the properties under their length; a frame that fits the
  protocol's limit is never refused.\<close>

theorem puback_frame:
  assumes "bytes_doc B" and "puback_props_ok p" and "length (puback_body p) < 128 ^ 4"
  shows "\<exists>frame n rest. puback_encode B p = ok (pub_ack_code (pa_packet_type p) # frame) \<and>
    rl_decode B frame = ok (n, rest) \<and> unat n = length rest \<and> rest = puback_body p"
proof -
  let ?b = "puback_body p"
  have "0 < length ?b" by (simp add: puback_body_def)
  with assms have "rl_decode B (varint (length ?b) @ ?b) = ok (word_of_nat (length ?b), ?b)"
    by (intro rl_decode_image) auto
  moreover have "unat (word_of_nat (length ?b) :: u32) = length ?b"
    using assms(3) by (simp add: unat_of_nat)
  ultimately show ?thesis using puback_encode_frame [OF assms] by blast
qed

theorem puback_frame_witness:
  "let p = \<lparr>pa_packet_type = PubAck, pa_packet_id = 1234, pa_reason_code = 0,
            pa_properties = Some \<lparr>pa_reason_string = Some (lit ''Success''),
                                  pa_user_properties = Some [(lit ''key1'', lit ''value1'')]\<rparr>\<rparr> in
   \<exists>frame n rest. puback_encode list_bytes p = ok (pub_ack_code (pa_packet_type p) # frame) \<and>
     rl_decode list_bytes frame = ok (n, rest) \<and> unat n = length rest \<and> rest = puback_body p"
  unfolding Let_def
  by (rule puback_frame)
    (simp_all add: puback_props_ok_def str_ok_def lit_def puback_body_def puback_props_image_def
      varint_cases)

end
