(* ===== verification/Registry.thy ===== *)
theory Registry
  imports Session ClientId PubAck
begin

text \<open>
  The registry of connected clients, \<open>message_broker/client/clients.rs\<close>: a vector kept sorted
  by the derived order of the client identifiers, with insertion by a linear scan, lookup by binary
  search (the algorithm of the standard library's \<open>binary_search_by\<close> is modelled too), and the
  sending of packets through it (\<open>Forwarder\<close>, \<open>SendStrategy\<close>).

  A socket is code of \<open>tokio\<close>: its writing, \<open>write_all\<close>, is the argument \<open>W\<close> of the
  operations that use it, a function from the socket and the bytes to the result and the socket
  afterwards.
\<close>

text \<open>\<open>struct Client\<close> of \<open>client.rs\<close>; \<open>cl_storage\<close> is the path inside its \<open>ClientStore\<close>.\<close>

record 'k client =
  cl_conid :: u32
  cl_clid :: client_id
  cl_socket :: 'k
  cl_protocol_level :: u8
  cl_session :: session
  cl_limit :: limiter
  cl_storage :: rstring

type_synonym 'k clients = "'k client list"

section \<open>Insertion\<close>

text \<open>
  The loop of \<open>insert\<close> from position \<open>i\<close> on: the position where it stops, the position to
  insert at, and whether the client there is to be replaced.
\<close>

function insert_scan ::
    "client_id \<Rightarrow> u64 \<Rightarrow> 'k clients \<Rightarrow> nat \<Rightarrow> string + (nat \<times> nat \<times> bool)" where
  "insert_scan new_clid now clients i =
     (if i < length clients then
        (case clid_cmp new_clid (cl_clid (clients ! i)) of
           Equal \<Rightarrow>
             if is_alive (cl_session (clients ! i)) now then Inl ''duplicate client id''
             else Inr (i, i, True)
         | Greater \<Rightarrow> insert_scan new_clid now clients (i + 1)
         | Less \<Rightarrow> Inr (i, i, False))
      else Inr (i, length clients, False))"
  by auto
termination by (relation "measure (\<lambda>(_, _, clients, i). length clients - i)") auto

declare insert_scan.simps [simp del]

definition clients_insert :: "u64 \<Rightarrow> 'k clients \<Rightarrow> 'k client \<Rightarrow> string + 'k clients" where
  "clients_insert now clients new_cl =
     (case insert_scan (cl_clid new_cl) now clients 0 of
        Inl e \<Rightarrow> Inl e
      | Inr (i, found, swap) \<Rightarrow>
          Inr (if swap then clients[i := new_cl]
               else take found clients @ new_cl # drop found clients))"

section \<open>Lookup\<close>

text \<open>\<open>slice::binary_search_by\<close> of the standard library.\<close>

function bs_loop :: "(nat \<Rightarrow> rust_ordering) \<Rightarrow> nat \<Rightarrow> nat \<Rightarrow> nat" where
  "bs_loop f sz base =
     (if 1 < sz then
        let half = sz div 2; mid = base + half in
        bs_loop f (sz - half) (if f mid = Greater then base else mid)
      else base)"
  by auto
termination by (relation "measure (\<lambda>(_, sz, _). sz)") auto

declare bs_loop.simps [simp del]

definition binary_search_by :: "('a \<Rightarrow> rust_ordering) \<Rightarrow> 'a list \<Rightarrow> nat option" where
  "binary_search_by f xs =
     (if xs = [] then None
      else let base = bs_loop (\<lambda>i. f (xs ! i)) (length xs) 0 in
        if f (xs ! base) = Equal then Some base else None)"

definition search_mut_client ::
    "client_id \<Rightarrow> ('k client \<Rightarrow> 'r \<times> 'k client) \<Rightarrow> 'k clients \<Rightarrow> 'r option \<times> 'k clients" where
  "search_mut_client clid f clients =
     (case binary_search_by (\<lambda>c. clid_cmp (cl_clid c) clid) clients of
        None \<Rightarrow> (None, clients)
      | Some idx \<Rightarrow> let (r, cl) = f (clients ! idx) in (Some r, clients[idx := cl]))"

definition get_client :: "client_id \<Rightarrow> 'k clients \<Rightarrow> 'k client option" where
  "get_client clid clients =
     map_option (\<lambda>idx. clients ! idx)
       (binary_search_by (\<lambda>c. clid_cmp (cl_clid c) clid) clients)"

section \<open>The registry as a map\<close>

definition reg_ok :: "'k clients \<Rightarrow> bool" where
  "reg_ok clients \<longleftrightarrow> sorted_wrt (<) (map cl_clid clients)"

definition entry :: "'k clients \<Rightarrow> client_id \<Rightarrow> 'k client option" where
  "entry clients clid = find (\<lambda>c. cl_clid c = clid) clients"

lemma reg_ok_nth: "reg_ok cs \<Longrightarrow> i < j \<Longrightarrow> j < length cs \<Longrightarrow> cl_clid (cs ! i) < cl_clid (cs ! j)"
  by (auto simp: reg_ok_def sorted_wrt_iff_nth_less)

lemma entry_nth:
  assumes "reg_ok cs" and "i < length cs"
  shows "entry cs (cl_clid (cs ! i)) = Some (cs ! i)"
  using assms
proof (induction cs arbitrary: i)
  case (Cons c cs)
  then show ?case by (cases i) (auto simp: entry_def reg_ok_def)
qed simp

lemma entry_None: "(\<And>i. i < length cs \<Longrightarrow> cl_clid (cs ! i) \<noteq> clid) \<Longrightarrow> entry cs clid = None"
  by (auto simp: entry_def find_None_iff in_set_conv_nth)

lemma entry_SomeD: "entry cs clid = Some c \<Longrightarrow> cl_clid c = clid \<and> (\<exists>i < length cs. cs ! i = c)"
  by (auto simp: entry_def find_Some_iff)

lemma entry_append: "entry (xs @ ys) clid =
    (case entry xs clid of None \<Rightarrow> entry ys clid | Some c \<Rightarrow> Some c)"
  by (induction xs) (auto simp: entry_def)

lemma entry_update:
  assumes "reg_ok cs" and "i < length cs" and "cl_clid c = cl_clid (cs ! i)"
  shows "reg_ok (cs[i := c])" and "entry (cs[i := c]) clid = (if clid = cl_clid c then Some c else entry cs clid)"
proof -
  have "map cl_clid (cs[i := c]) = map cl_clid cs"
    using assms(2,3) by (metis list_update_id map_update nth_map)
  then show ok: "reg_ok (cs[i := c])" using assms(1) by (simp add: reg_ok_def)
  show "entry (cs[i := c]) clid = (if clid = cl_clid c then Some c else entry cs clid)"
  proof (cases "clid = cl_clid c")
    case True
    then show ?thesis using entry_nth [OF ok, of i] assms(2) by simp
  next
    case False
    then show ?thesis using assms(2,3)
    proof (induction cs arbitrary: i)
      case (Cons d ds)
      then show ?case by (cases i) (auto simp: entry_def)
    qed simp
  qed
qed

section \<open>Insertion keeps the registry a map\<close>

lemma insert_scan_cases:
  "i < length cs \<Longrightarrow> cl_clid (cs ! i) < clid \<Longrightarrow> insert_scan clid now cs i = insert_scan clid now cs (i + 1)"
  "i < length cs \<Longrightarrow> clid < cl_clid (cs ! i) \<Longrightarrow> insert_scan clid now cs i = Inr (i, i, False)"
  "i < length cs \<Longrightarrow> clid = cl_clid (cs ! i) \<Longrightarrow> insert_scan clid now cs i =
     (if is_alive (cl_session (cs ! i)) now then Inl ''duplicate client id'' else Inr (i, i, True))"
  "\<not> i < length cs \<Longrightarrow> insert_scan clid now cs i = Inr (i, length cs, False)"
  by (subst insert_scan.simps, auto simp: clid_cmp_linorder cmp_of_def)+

text \<open>Where the scan stops: everything before is smaller.\<close>

lemma insert_scan_spec:
  assumes "reg_ok cs" and "\<forall>j < i. cl_clid (cs ! j) < clid" and "i \<le> length cs"
  shows "case insert_scan clid now cs i of
      Inl e \<Rightarrow> e = ''duplicate client id'' \<and>
        (\<exists>k < length cs. cl_clid (cs ! k) = clid \<and> is_alive (cl_session (cs ! k)) now)
    | Inr (k, found, swap) \<Rightarrow> k = found \<and> k \<le> length cs \<and> (\<forall>j < k. cl_clid (cs ! j) < clid) \<and>
        (if swap then k < length cs \<and> cl_clid (cs ! k) = clid \<and> \<not> is_alive (cl_session (cs ! k)) now
         else k < length cs \<longrightarrow> clid < cl_clid (cs ! k))"
  using assms
proof (induction clid now cs i rule: insert_scan.induct)
  case (1 clid now cs i)
  show ?case
  proof (cases "i < length cs")
    case True
    show ?thesis
    proof (cases "cl_clid (cs ! i)" clid rule: linorder_cases)
      case less
      then have "\<forall>j < i + 1. cl_clid (cs ! j) < clid" using "1.prems"(2) less_Suc_eq by auto
      moreover have "clid_cmp clid (cl_clid (cs ! i)) = Greater"
        using less by (simp add: clid_cmp_linorder)
      moreover have "i + 1 \<le> length cs" using True by simp
      ultimately show ?thesis
        unfolding insert_scan_cases(1) [OF True less] by (intro "1.IH" [OF True _ "1.prems"(1)])
    next
      case equal
      then show ?thesis using True "1.prems" by (auto simp: insert_scan_cases(3))
    next
      case greater
      then show ?thesis using True "1.prems" by (simp add: insert_scan_cases(2))
    qed
  next
    case False
    then show ?thesis using "1.prems" by (simp add: insert_scan_cases(4))
  qed
qed

lemma reg_ok_insert_at:
  assumes "reg_ok cs" and "k \<le> length cs" and "\<forall>j < k. cl_clid (cs ! j) < cl_clid c"
    and "k < length cs \<longrightarrow> cl_clid c < cl_clid (cs ! k)"
  shows "reg_ok (take k cs @ c # drop k cs)"
    and "entry (take k cs @ c # drop k cs) clid = (if clid = cl_clid c then Some c else entry cs clid)"
    and "entry cs (cl_clid c) = None"
proof -
  have le: "x \<in> set (take k cs) \<Longrightarrow> cl_clid x < cl_clid c" for x
    using assms(2,3) by (auto simp: in_set_conv_nth)
  have after: "cl_clid c < cl_clid (cs ! j)" if "k \<le> j" "j < length cs" for j
    using assms(4) reg_ok_nth [OF assms(1), of k j] that by (cases "k = j") auto
  then have ge: "x \<in> set (drop k cs) \<Longrightarrow> cl_clid c < cl_clid x" for x
    using assms(2) by (auto simp: in_set_conv_nth)
  have sp: "sorted_wrt (<) (map cl_clid (take k cs) @ map cl_clid (drop k cs))"
    using assms(1) by (simp add: reg_ok_def flip: map_append)
  then show "reg_ok (take k cs @ c # drop k cs)"
    unfolding reg_ok_def using le ge
    by (auto simp: sorted_wrt_append)
  have "cl_clid (cs ! j) \<noteq> cl_clid c" if "j < length cs" for j
    using assms(3) after [of j] that by (cases "j < k") (auto dest: less_imp_neq)
  then show none: "entry cs (cl_clid c) = None" by (rule entry_None)
  then have "entry (take k cs) (cl_clid c) = None"
    by (metis append_take_drop_id entry_append option.case_eq_if option.distinct(1))
  moreover have "entry cs clid = entry (take k cs @ drop k cs) clid" by simp
  ultimately show "entry (take k cs @ c # drop k cs) clid =
      (if clid = cl_clid c then Some c else entry cs clid)"
    unfolding entry_append by (auto simp: entry_def split: option.splits)
qed

lemma clients_insert_spec:
  assumes "reg_ok cs"
  shows "if \<exists>c. entry cs (cl_clid new) = Some c \<and> is_alive (cl_session c) now
    then clients_insert now cs new = Inl ''duplicate client id''
    else \<exists>cs'. clients_insert now cs new = Inr cs' \<and> reg_ok cs' \<and>
      (\<forall>clid. entry cs' clid = (if clid = cl_clid new then Some new else entry cs clid))"
proof -
  note scan = insert_scan_spec [OF assms, of 0 "cl_clid new" now]
  show ?thesis
  proof (cases "insert_scan (cl_clid new) now cs 0")
    case (Inl e)
    then obtain k where "k < length cs" "cl_clid (cs ! k) = cl_clid new" "is_alive (cl_session (cs ! k)) now"
      and "e = ''duplicate client id''" using scan by auto
    then show ?thesis using Inl entry_nth [OF assms, of k] by (simp add: clients_insert_def)
  next
    case (Inr r)
    obtain k found swap where r: "r = (k, found, swap)" by (cases r)
    show ?thesis
    proof (cases swap)
      case True
      then have k: "k < length cs" "cl_clid (cs ! k) = cl_clid new" "\<not> is_alive (cl_session (cs ! k)) now"
        using scan Inr r by auto
      then have "entry cs (cl_clid new) = Some (cs ! k)" using entry_nth [OF assms, of k] by simp
      moreover have "clients_insert now cs new = Inr (cs[k := new])"
        using Inr r True by (simp add: clients_insert_def)
      ultimately show ?thesis using entry_update [OF assms k(1)] k(2,3) by simp
    next
      case False
      then have "found = k" "k \<le> length cs" "\<forall>j < k. cl_clid (cs ! j) < cl_clid new"
        "k < length cs \<longrightarrow> cl_clid new < cl_clid (cs ! k)"
        using scan Inr r by auto
      then show ?thesis
        using reg_ok_insert_at [OF assms, of k new] Inr r False by (simp add: clients_insert_def)
    qed
  qed
qed

section \<open>Binary search finds exactly the entries\<close>

lemma bs_loop_small: "sz \<le> 1 \<Longrightarrow> bs_loop f sz base = base"
  by (subst bs_loop.simps) simp

lemma bs_loop_step: "1 < sz \<Longrightarrow> bs_loop f sz base =
    bs_loop f (sz - sz div 2) (if f (base + sz div 2) = Greater then base else base + sz div 2)"
  by (subst bs_loop.simps) (simp add: Let_def)

lemma bs_loop_range: "0 < sz \<Longrightarrow> base \<le> bs_loop f sz base \<and> bs_loop f sz base < base + sz"
proof (induction sz arbitrary: base rule: less_induct)
  case (less sz)
  show ?case
  proof (cases "1 < sz")
    case True
    then show ?thesis
      using less.IH [of "sz - sz div 2" base] less.IH [of "sz - sz div 2" "base + sz div 2"]
      by (cases "f (base + sz div 2) = Greater") (simp_all add: bs_loop_step less_diff_conv)
  next
    case False
    then show ?thesis using less.prems by (simp add: bs_loop_small)
  qed
qed

text \<open>When the elements up to \<open>k\<close> are not above the target and those after it are, it ends at \<open>k\<close>.\<close>

lemma bs_loop_finds:
  assumes below: "\<And>i. i \<le> k \<Longrightarrow> f i \<noteq> Greater" and above: "\<And>i. k < i \<Longrightarrow> i < n \<Longrightarrow> f i = Greater"
    and "base \<le> k" and "k < base + sz" and "base + sz \<le> n"
  shows "bs_loop f sz base = k"
  using assms(3-5)
proof (induction sz arbitrary: base rule: less_induct)
  case (less sz)
  show ?case
  proof (cases "1 < sz")
    case True
    let ?mid = "base + sz div 2"
    have "f ?mid = Greater \<longleftrightarrow> k < ?mid" using below [of ?mid] above [of ?mid] less.prems True by (cases "k < ?mid") auto
    then show ?thesis
      using less.IH [of "sz - sz div 2" base] less.IH [of "sz - sz div 2" ?mid] less.prems True
      by (simp add: bs_loop_step)
  next
    case False
    then show ?thesis using less.prems by (simp add: bs_loop_small)
  qed
qed

lemma binary_search_spec:
  assumes "reg_ok cs"
  shows "binary_search_by (\<lambda>c. clid_cmp (cl_clid c) clid) cs = Some i \<longleftrightarrow>
    i < length cs \<and> cl_clid (cs ! i) = clid"
proof
  assume "binary_search_by (\<lambda>c. clid_cmp (cl_clid c) clid) cs = Some i"
  then show "i < length cs \<and> cl_clid (cs ! i) = clid"
    using bs_loop_range [of "length cs" 0 "\<lambda>i. clid_cmp (cl_clid (cs ! i)) clid"]
    by (auto simp: binary_search_by_def Let_def clid_cmp_linorder split: if_splits)
next
  let ?f = "\<lambda>i. clid_cmp (cl_clid (cs ! i)) clid"
  assume i: "i < length cs \<and> cl_clid (cs ! i) = clid"
  have "bs_loop ?f (length cs) 0 = i"
  proof (rule bs_loop_finds [where n = "length cs"])
    show "?f j \<noteq> Greater" if "j \<le> i" for j
      using reg_ok_nth [OF assms, of j i] that i by (cases "j = i") (auto simp: clid_cmp_linorder)
    show "?f j = Greater" if "i < j" "j < length cs" for j
      using reg_ok_nth [OF assms that] i by (simp add: clid_cmp_linorder)
  qed (use i in auto)
  moreover have "cs \<noteq> []" using i by auto
  ultimately show "binary_search_by (\<lambda>c. clid_cmp (cl_clid c) clid) cs = Some i"
    using i by (simp add: binary_search_by_def Let_def clid_cmp_linorder)
qed

lemma binary_search_entry:
  assumes "reg_ok cs"
  shows "case binary_search_by (\<lambda>c. clid_cmp (cl_clid c) clid) cs of
      None \<Rightarrow> entry cs clid = None
    | Some i \<Rightarrow> i < length cs \<and> cl_clid (cs ! i) = clid \<and> entry cs clid = Some (cs ! i)"
proof (cases "binary_search_by (\<lambda>c. clid_cmp (cl_clid c) clid) cs")
  case None
  then have "cl_clid (cs ! i) \<noteq> clid" if "i < length cs" for i
    using binary_search_spec [OF assms] that by (metis option.distinct(1))
  then have "entry cs clid = None" by (rule entry_None)
  then show ?thesis using None by simp
next
  case (Some i)
  then have "i < length cs \<and> cl_clid (cs ! i) = clid" by (simp add: binary_search_spec [OF assms])
  then show ?thesis using Some entry_nth [OF assms, of i] by auto
qed

lemma search_mut_client_spec:
  assumes "reg_ok cs" and "\<And>c. cl_clid (snd (f c)) = cl_clid c"
  shows "case entry cs clid of
      None \<Rightarrow> search_mut_client clid f cs = (None, cs)
    | Some c \<Rightarrow> \<exists>cs'. search_mut_client clid f cs = (Some (fst (f c)), cs') \<and> reg_ok cs' \<and>
        (\<forall>j. entry cs' j = (if j = clid then Some (snd (f c)) else entry cs j))"
proof (cases "binary_search_by (\<lambda>c. clid_cmp (cl_clid c) clid) cs")
  case None
  then show ?thesis using binary_search_entry [OF assms(1), of clid] by (simp add: search_mut_client_def)
next
  case (Some i)
  then have i: "i < length cs" "cl_clid (cs ! i) = clid" "entry cs clid = Some (cs ! i)"
    using binary_search_entry [OF assms(1), of clid] by auto
  have "cl_clid (snd (f (cs ! i))) = cl_clid (cs ! i)" by (rule assms(2))
  from entry_update [OF assms(1) i(1) this] show ?thesis
    using i Some by (auto simp: search_mut_client_def assms(2) split: prod.splits)
qed

lemma get_client_entry: "reg_ok cs \<Longrightarrow> get_client clid cs = entry cs clid"
  using binary_search_entry [of cs clid] by (auto simp: get_client_def split: option.splits)

section \<open>Sending packets\<close>

text \<open>
  \<open>pubish\<close> (the name is the source's) and the three strategies, over the way to visit a client:
  the registry's \<open>search_mut_client\<close>.
\<close>

definition pubish ::
    "(client_id \<Rightarrow> ('k client \<Rightarrow> (io_error + unit) \<times> 'k client) \<Rightarrow> 's \<Rightarrow> (io_error + unit) option \<times> 's) \<Rightarrow>
     ('k \<Rightarrow> bytes \<Rightarrow> (io_error + unit) \<times> 'k) \<Rightarrow> 's \<Rightarrow> client_id \<Rightarrow> bytes \<Rightarrow> (io_error + unit) \<times> 's" where
  "pubish visit W s con_id packet =
     (case visit con_id (\<lambda>client. let (r, k) = W (cl_socket client) packet
                                 in (r, client\<lparr>cl_socket := k\<rparr>)) s of
        (None, s) \<Rightarrow> (Inl (IoError IoNotFound (lit ''client '' @ clid_id con_id @ lit '' not found'')), s)
      | (Some res, s) \<Rightarrow> (res, s))"

definition qos0 ::
    "(client_id \<Rightarrow> ('k client \<Rightarrow> (io_error + unit) \<times> 'k client) \<Rightarrow> 's \<Rightarrow> (io_error + unit) option \<times> 's) \<Rightarrow>
     ('k \<Rightarrow> bytes \<Rightarrow> (io_error + unit) \<times> 'k) \<Rightarrow> 's \<Rightarrow> client_id \<Rightarrow> bytes \<Rightarrow> 's" where
  "qos0 visit W s subscriber buffer = snd (pubish visit W s subscriber buffer)"

text \<open>A call with the state threaded through: \<open>?\<close> on the result of an input or output.\<close>

definition andAwait :: "(io_error + unit) \<times> 's \<Rightarrow> ('s \<Rightarrow> (io_error, unit) run \<times> 's) \<Rightarrow>
    (io_error, unit) run \<times> 's" where
  "andAwait m f = (case m of (Inl e, s) \<Rightarrow> (err e, s) | (Inr _, s) \<Rightarrow> f s)"

text \<open>\<open>ack.encode().unwrap()\<close>.\<close>

definition withAck :: "bytes_crate \<Rightarrow> puback_packet \<Rightarrow> 's \<Rightarrow> (bytes \<Rightarrow> (io_error, unit) run \<times> 's) \<Rightarrow>
    (io_error, unit) run \<times> 's" where
  "withAck B ack s f =
     (case puback_encode B ack of None \<Rightarrow> (None, s) | Some (Ok buffer) \<Rightarrow> f buffer | _ \<Rightarrow> (panic, s))"

definition qos1 ::
    "bytes_crate \<Rightarrow>
     (client_id \<Rightarrow> ('k client \<Rightarrow> (io_error + unit) \<times> 'k client) \<Rightarrow> 's \<Rightarrow> (io_error + unit) option \<times> 's) \<Rightarrow>
     ('k \<Rightarrow> bytes \<Rightarrow> (io_error + unit) \<times> 'k) \<Rightarrow>
     's \<Rightarrow> client_id \<Rightarrow> client_id \<Rightarrow> u16 \<Rightarrow> bytes \<Rightarrow> (io_error, unit) run \<times> 's" where
  "qos1 B visit W s publisher subscriber packet_id buffer =
     andAwait (pubish visit W s subscriber buffer) (\<lambda>s.
     let puback = \<lparr>pa_packet_type = PubAck, pa_packet_id = packet_id, pa_reason_code = 0,
                   pa_properties = None\<rparr> in
     withAck B puback s (\<lambda>buffer.
     andAwait (pubish visit W s publisher buffer) (\<lambda>s. (ok (), s))))"

definition qos2 ::
    "bytes_crate \<Rightarrow>
     (client_id \<Rightarrow> ('k client \<Rightarrow> (io_error + unit) \<times> 'k client) \<Rightarrow> 's \<Rightarrow> (io_error + unit) option \<times> 's) \<Rightarrow>
     ('k \<Rightarrow> bytes \<Rightarrow> (io_error + unit) \<times> 'k) \<Rightarrow>
     's \<Rightarrow> client_id \<Rightarrow> client_id \<Rightarrow> u16 \<Rightarrow> bytes \<Rightarrow> (io_error, unit) run \<times> 's" where
  "qos2 B visit W s publisher subscriber packet_id msg_buffer =
     (let ack = \<lparr>pa_packet_type = PubRec, pa_packet_id = packet_id, pa_reason_code = 0x00,
                 pa_properties = None\<rparr> in
     withAck B ack s (\<lambda>buffer.
     andAwait (pubish visit W s publisher buffer) (\<lambda>s.
     andAwait (pubish visit W s subscriber msg_buffer) (\<lambda>s.
     withAck B (ack\<lparr>pa_packet_type := PubRel\<rparr>) s (\<lambda>buffer.
     andAwait (pubish visit W s publisher buffer) (\<lambda>s. (ok (), s)))))))"

text \<open>What sending needs of the registry: visiting a client changes that client only.\<close>

locale client_directory =
  fixes dir_ok :: "'s \<Rightarrow> bool"
    and client_at :: "'s \<Rightarrow> client_id \<Rightarrow> 'k client option"
    and visit :: "client_id \<Rightarrow> ('k client \<Rightarrow> (io_error + unit) \<times> 'k client) \<Rightarrow> 's \<Rightarrow>
      (io_error + unit) option \<times> 's"
  assumes visit_law: "dir_ok s \<Longrightarrow> (\<And>c. cl_clid (snd (f c)) = cl_clid c) \<Longrightarrow>
      (case client_at s clid of
         None \<Rightarrow> visit clid f s = (None, s)
       | Some c \<Rightarrow> \<exists>s'. visit clid f s = (Some (fst (f c)), s') \<and> dir_ok s' \<and>
           (\<forall>j. client_at s' j = (if j = clid then Some (snd (f c)) else client_at s j)))"
begin

lemma pubish_missing:
  assumes "dir_ok s" and "client_at s clid = None"
  shows "pubish visit W s clid p =
    (Inl (IoError IoNotFound (lit ''client '' @ clid_id clid @ lit '' not found'')), s)"
  using visit_law [OF assms(1), of "\<lambda>client. let (r, k) = W (cl_socket client) p
      in (r, client\<lparr>cl_socket := k\<rparr>)" clid] assms(2)
  by (simp add: pubish_def split: prod.splits)

lemma pubish_found:
  assumes "dir_ok s" and "client_at s clid = Some c" and "W (cl_socket c) p = (r, k)"
  shows "\<exists>s'. pubish visit W s clid p = (r, s') \<and> dir_ok s' \<and>
    (\<forall>j. client_at s' j = (if j = clid then Some (c\<lparr>cl_socket := k\<rparr>) else client_at s j))"
  using visit_law [OF assms(1), of "\<lambda>client. let (r, k) = W (cl_socket client) p
      in (r, client\<lparr>cl_socket := k\<rparr>)" clid] assms(2,3)
  by (auto simp: pubish_def split: prod.splits)

lemma qos1_missing:
  assumes "dir_ok s" and "client_at s sub = None"
  shows "qos1 B visit W s pub sub packet_id p =
    (err (IoError IoNotFound (lit ''client '' @ clid_id sub @ lit '' not found'')), s)"
  using pubish_missing [OF assms] by (simp add: qos1_def andAwait_def)

lemma qos1_found:
  assumes doc: "bytes_doc B" and ok: "dir_ok s" and ne: "pub \<noteq> sub"
    and c: "client_at s sub = Some c" "W (cl_socket c) p = (Inr (), k)"
    and d: "client_at s pub = Some d"
      "W (cl_socket d) (0x40 # 3 # enc16 packet_id @ [0]) = (Inr (), l)"
  shows "\<exists>s'. qos1 B visit W s pub sub packet_id p = (ok (), s') \<and> dir_ok s' \<and>
    (\<forall>j. client_at s' j = (if j = pub then Some (d\<lparr>cl_socket := l\<rparr>)
       else if j = sub then Some (c\<lparr>cl_socket := k\<rparr>) else client_at s j))"
proof -
  obtain s1 where s1: "pubish visit W s sub p = (Inr (), s1)" "dir_ok s1"
    "\<And>j. client_at s1 j = (if j = sub then Some (c\<lparr>cl_socket := k\<rparr>) else client_at s j)"
    using pubish_found [OF ok c(1), of W p] c(2) by blast
  then have "client_at s1 pub = Some d" using ne d(1) by simp
  from pubish_found [where W = W, OF s1(2) this d(2)] obtain s2 where
    "pubish visit W s1 pub (0x40 # 3 # enc16 packet_id @ [0]) = (Inr (), s2)" "dir_ok s2"
    "\<And>j. client_at s2 j = (if j = pub then Some (d\<lparr>cl_socket := l\<rparr>) else client_at s1 j)" by blast
  then show ?thesis
    using s1 doc by (simp add: qos1_def andAwait_def withAck_def puback_encode_plain)
qed

lemma qos2_found:
  assumes doc: "bytes_doc B" and ok: "dir_ok s" and ne: "pub \<noteq> sub"
    and d: "client_at s pub = Some d"
      "W (cl_socket d) (0x50 # 3 # enc16 packet_id @ [0]) = (Inr (), l)"
    and c: "client_at s sub = Some c" "W (cl_socket c) p = (Inr (), k)"
    and l: "W l (0x60 # 3 # enc16 packet_id @ [0]) = (Inr (), l')"
  shows "\<exists>s'. qos2 B visit W s pub sub packet_id p = (ok (), s') \<and> dir_ok s' \<and>
    (\<forall>j. client_at s' j = (if j = pub then Some (d\<lparr>cl_socket := l'\<rparr>)
       else if j = sub then Some (c\<lparr>cl_socket := k\<rparr>) else client_at s j))"
proof -
  obtain s1 where s1: "pubish visit W s pub (0x50 # 3 # enc16 packet_id @ [0]) = (Inr (), s1)" "dir_ok s1"
    "\<And>j. client_at s1 j = (if j = pub then Some (d\<lparr>cl_socket := l\<rparr>) else client_at s j)"
    using pubish_found [OF ok d(1), of W] d(2) by blast
  then have "client_at s1 sub = Some c" using ne c(1) by simp
  from pubish_found [where W = W, OF s1(2) this c(2)] obtain s2 where
    s2: "pubish visit W s1 sub p = (Inr (), s2)" "dir_ok s2"
    "\<And>j. client_at s2 j = (if j = sub then Some (c\<lparr>cl_socket := k\<rparr>) else client_at s1 j)" by blast
  then have "client_at s2 pub = Some (d\<lparr>cl_socket := l\<rparr>)" using ne s1(3) by simp
  moreover have "W (cl_socket (d\<lparr>cl_socket := l\<rparr>)) (0x60 # 3 # enc16 packet_id @ [0]) = (Inr (), l')"
    using l by simp
  ultimately obtain s3 where
    "pubish visit W s2 pub (0x60 # 3 # enc16 packet_id @ [0]) = (Inr (), s3)" "dir_ok s3"
    "\<And>j. client_at s3 j = (if j = pub then Some (d\<lparr>cl_socket := l'\<rparr>) else client_at s2 j)"
    using pubish_found [OF s2(2), of pub _ W] by fastforce
  then show ?thesis
    using s1 s2 doc by (simp add: qos2_def andAwait_def withAck_def puback_encode_plain)
qed

end

interpretation reg: client_directory reg_ok entry search_mut_client
  by unfold_locales (rule search_mut_client_spec)

section \<open>Properties\<close>

text \<open>C12: Inserting into a sorted registry is refused exactly when the client's own entry is still
  alive; otherwise it puts the client in the place of its old entry or at its place in the order,
  keeps the registry strictly sorted, and changes no other client's entry.\<close>

theorem registry_insert:
  assumes "reg_ok cs"
  shows "if \<exists>c. entry cs (cl_clid new) = Some c \<and> is_alive (cl_session c) now
    then clients_insert now cs new = Inl ''duplicate client id''
    else \<exists>cs'. clients_insert now cs new = Inr cs' \<and> reg_ok cs' \<and>
      (\<forall>clid. entry cs' clid = (if clid = cl_clid new then Some new else entry cs clid))"
  using assms by (rule clients_insert_spec)

definition sample_client :: "string \<Rightarrow> u64 \<Rightarrow> bytes list client" where
  "sample_client name ttl = \<lparr>cl_conid = 1, cl_clid = clid_new (lit name), cl_socket = [],
     cl_protocol_level = 5, cl_session = \<lparr>s_ttl = ttl, s_expr_interval = 0, s_keep_alive = 60\<rparr>,
     cl_limit = limiter_default, cl_storage = []\<rparr>"

lemma sample_client_clid [simp]: "cl_clid (sample_client name ttl) = clid_new (lit name)"
  by (simp add: sample_client_def)

lemma clid_new_less [simp]: "clid_new a < clid_new b \<longleftrightarrow> a < b"
  by (auto simp: less_client_id_def)

definition sample_registry :: "bytes list clients" where
  "sample_registry = [sample_client ''a'' 100, sample_client ''c'' 5]"

lemma sample_registry_ok [simp]: "reg_ok sample_registry"
  by (simp add: reg_ok_def sample_registry_def lit_def)

theorem registry_insert_witness:
  "if \<exists>c. entry sample_registry (cl_clid (sample_client ''c'' 90)) = Some c \<and> is_alive (cl_session c) 50
    then clients_insert 50 sample_registry (sample_client ''c'' 90) = Inl ''duplicate client id''
    else \<exists>cs'. clients_insert 50 sample_registry (sample_client ''c'' 90) = Inr cs' \<and> reg_ok cs' \<and>
      (\<forall>clid. entry cs' clid = (if clid = cl_clid (sample_client ''c'' 90) then Some (sample_client ''c'' 90)
         else entry sample_registry clid))"
  by (rule registry_insert) simp

text \<open>The binary search over a sorted registry visits a client exactly when there is one with that
  identifier, hands its entry to the function given and stores the entry it gives back, leaving all
  others as they are; \<open>get_client\<close> gives the same entry.\<close>

theorem registry_search:
  assumes "reg_ok cs" and "\<And>c. cl_clid (snd (f c)) = cl_clid c"
  shows "get_client clid cs = entry cs clid \<and>
    (case entry cs clid of
      None \<Rightarrow> search_mut_client clid f cs = (None, cs)
    | Some c \<Rightarrow> \<exists>cs'. search_mut_client clid f cs = (Some (fst (f c)), cs') \<and> reg_ok cs' \<and>
        (\<forall>j. entry cs' j = (if j = clid then Some (snd (f c)) else entry cs j)))"
  using search_mut_client_spec [of cs f clid, OF assms] get_client_entry [OF assms(1)] by simp

theorem registry_search_witness:
  "get_client (clid_new (lit ''c'')) sample_registry = entry sample_registry (clid_new (lit ''c'')) \<and>
    (case entry sample_registry (clid_new (lit ''c'')) of
      None \<Rightarrow> search_mut_client (clid_new (lit ''c'')) (\<lambda>c. (cl_conid c, c)) sample_registry = (None, sample_registry)
    | Some c \<Rightarrow> \<exists>cs'. search_mut_client (clid_new (lit ''c'')) (\<lambda>c. (cl_conid c, c)) sample_registry =
          (Some (fst (cl_conid c, c)), cs') \<and> reg_ok cs' \<and>
        (\<forall>j. entry cs' j = (if j = clid_new (lit ''c'') then Some (snd (cl_conid c, c))
           else entry sample_registry j)))"
  by (rule registry_search) simp_all

text \<open>At quality of service 1, when both clients are connected and writing succeeds, the subscriber's
  socket is written the message, the publisher's then a PUBACK with the packet identifier, and no
  other client's entry changes.\<close>

theorem qos1_delivers:
  assumes "bytes_doc B" and "reg_ok cs" and "pub \<noteq> sub"
    and "entry cs sub = Some c" and "W (cl_socket c) p = (Inr (), k)"
    and "entry cs pub = Some d" and "W (cl_socket d) (0x40 # 3 # enc16 packet_id @ [0]) = (Inr (), l)"
  shows "\<exists>cs'. qos1 B search_mut_client W cs pub sub packet_id p = (ok (), cs') \<and> reg_ok cs' \<and>
    (\<forall>j. entry cs' j = (if j = pub then Some (d\<lparr>cl_socket := l\<rparr>)
       else if j = sub then Some (c\<lparr>cl_socket := k\<rparr>) else entry cs j))"
  using assms by (rule reg.qos1_found)

definition log_write :: "bytes list \<Rightarrow> bytes \<Rightarrow> (io_error + unit) \<times> bytes list" where
  "log_write k p = (Inr (), k @ [p])"

theorem qos1_delivers_witness:
  "\<exists>cs'. qos1 list_bytes search_mut_client log_write sample_registry
      (clid_new (lit ''a'')) (clid_new (lit ''c'')) 7 [0x30] = (ok (), cs') \<and> reg_ok cs' \<and>
    (\<forall>j. entry cs' j = (if j = clid_new (lit ''a'')
       then Some (sample_client ''a'' 100\<lparr>cl_socket := [0x40 # 3 # enc16 7 @ [0]]\<rparr>)
       else if j = clid_new (lit ''c'') then Some (sample_client ''c'' 5\<lparr>cl_socket := [[0x30]]\<rparr>)
       else entry sample_registry j))"
  by (rule qos1_delivers [OF list_bytes_doc sample_registry_ok])
    (simp_all add: entry_def sample_registry_def log_write_def sample_client_def lit_def)

text \<open>When the subscriber of a message at quality of service 1 is not connected, nothing is written
  to anybody and the publisher gets no acknowledgement.\<close>

theorem qos1_subscriber_away:
  assumes "reg_ok cs" and "entry cs sub = None"
  shows "qos1 B search_mut_client W cs pub sub packet_id p =
    (err (IoError IoNotFound (lit ''client '' @ clid_id sub @ lit '' not found'')), cs)"
  using assms by (rule reg.qos1_missing)

theorem qos1_subscriber_away_witness:
  "qos1 list_bytes search_mut_client log_write sample_registry
     (clid_new (lit ''a'')) (clid_new (lit ''b'')) 7 [0x30] =
   (err (IoError IoNotFound (lit ''client '' @ clid_id (clid_new (lit ''b'')) @ lit '' not found'')),
     sample_registry)"
  by (rule qos1_subscriber_away [OF sample_registry_ok]) (simp_all add: entry_def sample_registry_def lit_def)

text \<open>At quality of service 2, when both clients are connected and writing succeeds, the publisher's
  socket is written a PUBREC and, once the subscriber's is written the message, a PUBREL: no PUBREL
  of the publisher is waited for and the PUBCOMP that ends the exchange is never sent.\<close>

theorem qos2_delivers:
  assumes "bytes_doc B" and "reg_ok cs" and "pub \<noteq> sub"
    and "entry cs pub = Some d" and "W (cl_socket d) (0x50 # 3 # enc16 packet_id @ [0]) = (Inr (), l)"
    and "entry cs sub = Some c" and "W (cl_socket c) p = (Inr (), k)"
    and "W l (0x60 # 3 # enc16 packet_id @ [0]) = (Inr (), l')"
  shows "\<exists>cs'. qos2 B search_mut_client W cs pub sub packet_id p = (ok (), cs') \<and> reg_ok cs' \<and>
    (\<forall>j. entry cs' j = (if j = pub then Some (d\<lparr>cl_socket := l'\<rparr>)
       else if j = sub then Some (c\<lparr>cl_socket := k\<rparr>) else entry cs j))"
  using assms by (rule reg.qos2_found)

theorem qos2_delivers_witness:
  "\<exists>cs'. qos2 list_bytes search_mut_client log_write sample_registry
      (clid_new (lit ''a'')) (clid_new (lit ''c'')) 7 [0x30] = (ok (), cs') \<and> reg_ok cs' \<and>
    (\<forall>j. entry cs' j = (if j = clid_new (lit ''a'')
       then Some (sample_client ''a'' 100\<lparr>cl_socket :=
         [0x50 # 3 # enc16 7 @ [0], 0x60 # 3 # enc16 7 @ [0]]\<rparr>)
       else if j = clid_new (lit ''c'') then Some (sample_client ''c'' 5\<lparr>cl_socket := [[0x30]]\<rparr>)
       else entry sample_registry j))"
  by (rule qos2_delivers [OF list_bytes_doc sample_registry_ok])
    (simp_all add: entry_def sample_registry_def log_write_def sample_client_def lit_def)

end
