(* ===== verification/Subscribe.thy ===== *)
theory Subscribe
  imports Wire
begin

text \<open>
  \<open>protocol/v5/subscribe.rs\<close> and \<open>protocol/v5/subsack.rs\<close>: the SUBSCRIBE packet and its
  decoder, the SUBACK packet and its encoder.
\<close>

unbundle bit_operations_syntax

section \<open>SUBSCRIBE\<close>

record subscribe =
  sub_topic :: rstring
  sub_max_qos :: service_level

record subscribe_packet =
  sp_id :: u16
  sp_list :: "subscribe list"

text \<open>\<open>while buffer.len() != 0\<close>: one topic filter and its options byte per turn.\<close>

partial_function (option) subscriptions_loop ::
    "bytes_crate \<Rightarrow> subscribe list \<Rightarrow> bytes \<Rightarrow> (malformed, subscribe list) run" where
  "subscriptions_loop B subscriptions buffer =
     (if length buffer \<noteq> 0 then
        need (get_u16 B buffer) (\<lambda>(topic_filter_len, buffer).
        need (split_to B (unat topic_filter_len) buffer) (\<lambda>(topic_filter_bytes, buffer).
        if utf8_valid topic_filter_bytes then
          need (get_u8 B buffer) (\<lambda>(options, buffer).
          andThen (qos_try_from (options AND 3)) (\<lambda>qos.
            subscriptions_loop B
              (subscriptions @ [\<lparr>sub_topic = topic_filter_bytes, sub_max_qos = qos\<rparr>]) buffer))
        else err MalformedPacket))
      else ok subscriptions)"

declare subscriptions_loop.simps [code]

definition subscribe_skip_header :: "bytes_crate \<Rightarrow> bytes \<Rightarrow> (malformed, subscribe_packet) run" where
  "subscribe_skip_header B buffer =
     andThen (mapErr (\<lambda>_. ProtocolError) (rl_decode B buffer)) (\<lambda>(remaining_length, buffer).
     need (split_to B (unat remaining_length) buffer) (\<lambda>(buffer, _).
     need (get_u16 B buffer) (\<lambda>(packet_identifier, buffer).
     need (get_u8 B buffer) (\<lambda>(prop_leng, buffer).
     andThen (subscriptions_loop B [] buffer) (\<lambda>subscriptions.
       ok \<lparr>sp_id = packet_identifier, sp_list = subscriptions\<rparr>)))))"

definition subscribe_decode :: "bytes_crate \<Rightarrow> bytes \<Rightarrow> (malformed, subscribe_packet) run" where
  "subscribe_decode B buffer =
     need (get_u8 B buffer) (\<lambda>(header, buffer).
       if drop_bit 4 header \<noteq> 0x08 then err ProtocolError
       else subscribe_skip_header B buffer)"

subsection \<open>The image of a packet\<close>

definition sub_image :: "subscribe \<Rightarrow> bytes" where
  "sub_image s = len_image (sub_topic s) @ [qos_code (sub_max_qos s)]"

definition sub_body :: "bytes \<Rightarrow> subscribe_packet \<Rightarrow> bytes" where
  "sub_body props p =
     enc16 (sp_id p) @ word_of_nat (length props) # props @ concat (map sub_image (sp_list p))"

definition subscribe_image :: "bytes \<Rightarrow> subscribe_packet \<Rightarrow> bytes" where
  "subscribe_image props p = 0x82 # varint (length (sub_body props p)) @ sub_body props p"

definition subs_ok :: "subscribe list \<Rightarrow> bool" where
  "subs_ok ss \<longleftrightarrow> list_all (\<lambda>s. str_ok (sub_topic s)) ss"

lemma qos_code_and_3 [simp]: "qos_code q AND 3 = qos_code q"
  by (cases q) simp_all

lemma subscriptions_loop_step:
  assumes "bytes_doc B" and "str_ok (sub_topic s)"
  shows "subscriptions_loop B acc (sub_image s @ r) = subscriptions_loop B (acc @ [s]) r"
proof (cases s)
  case (fields t q)
  have "sub_image s @ r = enc16 (word_of_nat (length t)) @ t @ qos_code q # r"
    by (simp add: sub_image_def len_image_def fields)
  then show ?thesis
    using assms fields
    by (subst subscriptions_loop.simps)
      (simp add: bytes_simps str_ok_def unat_length16 del: unat_of_nat)
qed

lemma subscriptions_loop_image:
  assumes "bytes_doc B" and "subs_ok ss"
  shows "subscriptions_loop B acc (concat (map sub_image ss)) = ok (acc @ ss)"
  using assms(2)
proof (induction ss arbitrary: acc)
  case Nil
  then show ?case by (simp add: subscriptions_loop.simps)
next
  case (Cons s ss)
  then show ?case using assms(1) by (simp add: subscriptions_loop_step subs_ok_def)
qed

lemma returns_subscriptions_loop:
  assumes "bytes_doc B"
  shows "\<exists>y. subscriptions_loop B acc b = Some y"
proof (induction b arbitrary: acc rule: length_induct)
  case (1 b)
  show ?case
    using 1 assms
    by (subst subscriptions_loop.simps)
      (auto intro!: returns_intros dest!: get_u16_shrinks [OF assms] get_u8_shrinks [OF assms]
        simp: split_to_doc split: if_splits)
qed

lemma sub_body_length: "3 \<le> length (sub_body props p)"
  by (simp add: sub_body_def)

lemma subscribe_decode_body:
  assumes "bytes_doc B" and "length (sub_body props p) < 128 ^ 4"
  shows "subscribe_decode B (subscribe_image props p @ rest) =
    andThen (subscriptions_loop B [] (props @ concat (map sub_image (sp_list p))))
      (\<lambda>ss. ok \<lparr>sp_id = sp_id p, sp_list = ss\<rparr>)"
proof -
  have "unat (word_of_nat (length (sub_body props p)) :: u32) = length (sub_body props p)"
    using assms(2) by (simp add: unat_of_nat)
  moreover have "rl_decode B (varint (length (sub_body props p)) @ sub_body props p @ rest) =
      ok (word_of_nat (length (sub_body props p)), sub_body props p @ rest)"
    using assms sub_body_length [of props p] by (intro rl_decode_image) auto
  ultimately show ?thesis
    using assms(1)
    by (simp add: subscribe_decode_def subscribe_skip_header_def subscribe_image_def bytes_simps
        del: unat_of_nat) (simp add: sub_body_def bytes_simps)
qed


lemma returns_subscribe_decode:
  assumes "bytes_doc B"
  shows "\<exists>y. subscribe_decode B b = Some y"
  unfolding subscribe_decode_def subscribe_skip_header_def
  by (intro returns_intros returns_rl_decode assms returns_subscriptions_loop)

subsection \<open>Properties of the decoder\<close>

text \<open>C19: A SUBSCRIBE packet without properties is decoded to exactly its packet identifier and
  its list of filters, in order, whatever bytes follow it in the buffer.\<close>

theorem subscribe_roundtrip:
  assumes "bytes_doc B" and "subs_ok (sp_list p)" and "length (sub_body [] p) < 128 ^ 4"
  shows "subscribe_decode B (subscribe_image [] p @ rest) = ok p"
  using assms by (simp add: subscribe_decode_body subscriptions_loop_image)

theorem subscribe_roundtrip_witness:
  "let p = \<lparr>sp_id = 7, sp_list = [\<lparr>sub_topic = lit ''a/b'', sub_max_qos = QoS1\<rparr>]\<rparr> in
   subscribe_decode list_bytes (subscribe_image [] p @ [0xC0]) = ok p"
  unfolding Let_def
  by (rule subscribe_roundtrip)
    (simp_all add: subs_ok_def str_ok_def lit_def sub_body_def sub_image_def)

text \<open>The property bytes of a SUBSCRIBE packet are not skipped: the decoder reads the property
  length and then parses the properties as if they were topic filters.  A packet with a
  subscription identifier property (0x0B, one byte) makes it panic unless at least 2816 bytes
  follow.\<close>

theorem subscribe_properties_panic:
  assumes "bytes_doc B" and "length (concat (map sub_image (sp_list p))) < 2816"
  shows "subscribe_decode B (subscribe_image [0x0B, v] p @ rest) = panic"
proof -
  let ?fs = "concat (map sub_image (sp_list p))"
  have "length (sub_body [0x0B, v] p) < 128 ^ 4" using assms(2) by (simp add: sub_body_def)
  then have "subscribe_decode B (subscribe_image [0x0B, v] p @ rest) =
      andThen (subscriptions_loop B [] ([0x0B, v] @ ?fs)) (\<lambda>ss. ok \<lparr>sp_id = sp_id p, sp_list = ss\<rparr>)"
    by (rule subscribe_decode_body [OF assms(1)])
  also have "subscriptions_loop B [] ([0x0B, v] @ ?fs) = panic"
    using assms by (subst subscriptions_loop.simps) (simp add: bytes_simps unat_dec16)
  finally show ?thesis by simp
qed

theorem subscribe_properties_panic_witness:
  "let p = \<lparr>sp_id = 7, sp_list = [\<lparr>sub_topic = lit ''a/b'', sub_max_qos = QoS1\<rparr>]\<rparr> in
   subscribe_decode list_bytes (subscribe_image [0x0B, 1] p @ []) = panic"
  unfolding Let_def
  by (rule subscribe_properties_panic) (simp_all add: lit_def sub_image_def)

section \<open>SUBACK\<close>

datatype sub_ack_invalid =
    UnspecifiedError | ImplSpecificError | NotAuthorized | TopicFilterInvalid
  | PacketIdentifierInUse | QuotaExceeded | SharedSubsUnsupported | AckSubsIdUnSupported
  | AckWildcardSubsUnSupported

fun reason_code :: "sub_ack_invalid \<Rightarrow> u8" where
  "reason_code UnspecifiedError = 0x80"
| "reason_code ImplSpecificError = 0x83"
| "reason_code NotAuthorized = 0x87"
| "reason_code TopicFilterInvalid = 0x8F"
| "reason_code PacketIdentifierInUse = 0x91"
| "reason_code QuotaExceeded = 0x97"
| "reason_code SharedSubsUnsupported = 0x9E"
| "reason_code AckSubsIdUnSupported = 0xA1"
| "reason_code AckWildcardSubsUnSupported = 0xA2"

text \<open>\<open>Result<ServiceLevel, SubAckInvalid>\<close>.\<close>

type_synonym sub_ack_result = "sub_ack_invalid + service_level"

record sub_ack_properties =
  sa_reason_string :: "rstring option"
  sa_user_properties :: "(rstring \<times> rstring) list option"

record subs_ack =
  sa_id :: u16
  sa_properties :: "sub_ack_properties option"
  sa_return_codes :: "sub_ack_result list"

definition sub_ack_prop_len :: "sub_ack_properties \<Rightarrow> nat" where
  "sub_ack_prop_len p =
     (case sa_reason_string p of None \<Rightarrow> 0 | Some reason \<Rightarrow> length reason + 3) +
     (case sa_user_properties p of None \<Rightarrow> 0
      | Some uprop \<Rightarrow> (\<Sum>(k, v) \<leftarrow> uprop. length k + length v + 5))"

definition sub_ack_prop_encode ::
    "bytes_crate \<Rightarrow> sub_ack_properties \<Rightarrow> (string, bytes) run" where
  "sub_ack_prop_encode B p =
     andThen (case sa_reason_string p of
        None \<Rightarrow> ok []
      | Some reason \<Rightarrow> encode_utf8_string B (put_u8 B [] 0x1F) reason) (\<lambda>buf.
     (case sa_user_properties p of
        None \<Rightarrow> ok buf
      | Some ups \<Rightarrow> encode_pairs B buf ups))"

definition ack_code :: "sub_ack_result \<Rightarrow> u8" where
  "ack_code r = (case r of Inr v \<Rightarrow> qos_code v | Inl e \<Rightarrow> reason_code e)"

definition subs_ack_encode :: "bytes_crate \<Rightarrow> subs_ack \<Rightarrow> (string, bytes) run" where
  "subs_ack_encode B p =
     andThen (case sa_properties p of None \<Rightarrow> ok [] | Some q \<Rightarrow> sub_ack_prop_encode B q) (\<lambda>prop.
     andThen (rl_bytes (length prop)) (\<lambda>prop_len.
     let rml_num = length prop + length prop_len + length (sa_return_codes p) + 2 in
     andThen (rl_bytes rml_num) (\<lambda>remaining_leng.
       let buf = put_u8 B [] 0x90;
           buf = put_slice B buf remaining_leng;
           buf = put_u16 B buf (sa_id p);
           buf = put_slice B buf prop_len;
           buf = put_slice B buf prop
       in ok (fold (\<lambda>ack buf. put_u8 B buf (ack_code ack)) (sa_return_codes p) buf))))"

subsection \<open>The image of a SUBACK\<close>

definition reason_image :: "rstring option \<Rightarrow> bytes" where
  "reason_image r = (case r of None \<Rightarrow> [] | Some s \<Rightarrow> 0x1F # len_image s)"

definition pairs_opt_image :: "(rstring \<times> rstring) list option \<Rightarrow> bytes" where
  "pairs_opt_image u = (case u of None \<Rightarrow> [] | Some ps \<Rightarrow> pairs_image ps)"

definition sub_ack_prop_image :: "sub_ack_properties \<Rightarrow> bytes" where
  "sub_ack_prop_image p =
     reason_image (sa_reason_string p) @ pairs_opt_image (sa_user_properties p)"

definition sub_ack_prop_ok :: "sub_ack_properties \<Rightarrow> bool" where
  "sub_ack_prop_ok p \<longleftrightarrow>
     pred_option str_ok (sa_reason_string p) \<and> pred_option pairs_ok (sa_user_properties p)"

definition sub_ack_props :: "subs_ack \<Rightarrow> bytes" where
  "sub_ack_props p = (case sa_properties p of None \<Rightarrow> [] | Some q \<Rightarrow> sub_ack_prop_image q)"

definition sub_ack_body :: "subs_ack \<Rightarrow> bytes" where
  "sub_ack_body p =
     enc16 (sa_id p) @ varint (length (sub_ack_props p)) @ sub_ack_props p
       @ map ack_code (sa_return_codes p)"

lemma sub_ack_prop_encode_image:
  assumes "bytes_doc B" and "sub_ack_prop_ok p"
  shows "sub_ack_prop_encode B p = ok (sub_ack_prop_image p)"
  using assms
  by (auto simp: sub_ack_prop_encode_def sub_ack_prop_image_def sub_ack_prop_ok_def wire_simps
      reason_image_def pairs_opt_image_def str_ok_def split: option.splits)

lemma fold_put_codes:
  "fold (\<lambda>ack buf. buf @ [ack_code ack]) codes b = b @ map ack_code codes"
  by (induction codes arbitrary: b) simp_all

lemma subs_ack_encode_image:
  assumes B: "bytes_doc B" and props: "pred_option sub_ack_prop_ok (sa_properties p)"
    and len: "length (sub_ack_body p) < 128 ^ 4"
  shows "subs_ack_encode B p = ok (0x90 # varint (length (sub_ack_body p)) @ sub_ack_body p)"
proof -
  have "(case sa_properties p of None \<Rightarrow> ok [] | Some q \<Rightarrow> sub_ack_prop_encode B q)
      = ok (sub_ack_props p)"
    using props B
    by (auto simp: sub_ack_props_def sub_ack_prop_encode_image split: option.splits)
  moreover have "length (sub_ack_props p) < 128 ^ 4"
    using len by (simp add: sub_ack_body_def)
  moreover have "length (sub_ack_props p) + length (varint (length (sub_ack_props p)))
      + length (sa_return_codes p) + 2 = length (sub_ack_body p)"
    by (simp add: sub_ack_body_def)
  ultimately show ?thesis
    using B len
    by (simp add: subs_ack_encode_def rl_bytes_image fold_put_codes bytes_simps Let_def
        add.assoc) (simp add: sub_ack_body_def)
qed

subsection \<open>Properties of the encoder\<close>

lemma length_pairs_opt_image:
  "length (pairs_opt_image u) =
     (case u of None \<Rightarrow> 0 | Some ps \<Rightarrow> \<Sum>(k, v) \<leftarrow> ps. length k + length v + 5)"
  by (auto simp: pairs_opt_image_def length_pairs_image add.commute add.left_commute
      split: option.splits)

lemma length_sub_ack_prop_image: "length (sub_ack_prop_image p) = sub_ack_prop_len p"
  by (simp add: sub_ack_prop_image_def sub_ack_prop_len_def length_pairs_opt_image reason_image_def
      split: option.splits)

lemma sub_ack_body_pos: "0 < length (sub_ack_body p)"
  by (simp add: sub_ack_body_def)

text \<open>The encoder of a SUBACK writes the packet type, a remaining length that the decoder of
  remaining lengths reads back as the exact number of bytes after it, the packet identifier,
  and one reason code per filter at the end, in order.\<close>

theorem suback_frame:
  assumes "bytes_doc B" and "pred_option sub_ack_prop_ok (sa_properties p)"
    and "length (sub_ack_body p) < 128 ^ 4"
  shows "\<exists>frame n rest. subs_ack_encode B p = ok (0x90 # frame) \<and>
     rl_decode B frame = ok (n, rest) \<and> unat n = length rest \<and>
     take 2 rest = enc16 (sa_id p) \<and>
     drop (length rest - length (sa_return_codes p)) rest = map ack_code (sa_return_codes p)"
proof -
  let ?b = "sub_ack_body p"
  have "rl_decode B (varint (length ?b) @ ?b) = ok (word_of_nat (length ?b), ?b)"
    using assms sub_ack_body_pos by (intro rl_decode_image) auto
  moreover have "unat (word_of_nat (length ?b) :: u32) = length ?b"
    using assms(3) by (simp add: unat_of_nat)
  moreover have "take 2 ?b = enc16 (sa_id p)"
    and "drop (length ?b - length (sa_return_codes p)) ?b = map ack_code (sa_return_codes p)"
    by (simp_all add: sub_ack_body_def)
  ultimately show ?thesis using subs_ack_encode_image [OF assms] by blast
qed

theorem suback_frame_witness:
  "let p = \<lparr>sa_id = 1234,
             sa_properties = Some \<lparr>sa_reason_string = Some (lit ''Success''),
                                   sa_user_properties = Some [(lit ''key1'', lit ''value1'')]\<rparr>,
             sa_return_codes = [Inr QoS0, Inr QoS1, Inl UnspecifiedError]\<rparr> in
   \<exists>frame n rest. subs_ack_encode list_bytes p = ok (0x90 # frame) \<and>
     rl_decode list_bytes frame = ok (n, rest) \<and> unat n = length rest \<and>
     take 2 rest = enc16 (sa_id p) \<and>
     drop (length rest - length (sa_return_codes p)) rest = map ack_code (sa_return_codes p)"
  unfolding Let_def
  by (rule suback_frame)
    (simp_all add: sub_ack_prop_ok_def str_ok_def lit_def sub_ack_body_def sub_ack_props_def
      sub_ack_prop_image_def reason_image_def pairs_opt_image_def varint_cases)

lemma suback_plain:
  assumes "bytes_doc B" and "length (sa_return_codes p) + 2 < 128"
    and "sa_properties p = None"
  shows "subs_ack_encode B p =
    ok (0x90 # word_of_nat (length (sa_return_codes p) + 2)
          # enc16 (sa_id p) @ map ack_code (sa_return_codes p))"
proof -
  have body: "sub_ack_body p = enc16 (sa_id p) @ map ack_code (sa_return_codes p)"
    using assms(3) by (simp add: sub_ack_body_def sub_ack_props_def)
  have "varint (length (sub_ack_body p)) = [word_of_nat (length (sa_return_codes p) + 2)]"
    using assms(2) by (simp add: body varint_cases add.commute)
  then show ?thesis
    using assms subs_ack_encode_image [of B p] by (simp add: body)
qed

text \<open>A SUBACK without properties, the one the broker sends, has no property length byte: the
  reason codes follow the packet identifier directly, where the protocol has a zero.\<close>

theorem suback_no_property_length:
  assumes "bytes_doc B" and "length (sa_return_codes p) + 2 < 128"
    and "sa_properties p = None"
  shows "subs_ack_encode B p =
    ok (0x90 # word_of_nat (length (sa_return_codes p) + 2)
          # enc16 (sa_id p) @ map ack_code (sa_return_codes p))"
  using assms by (rule suback_plain)

theorem suback_no_property_length_witness:
  "subs_ack_encode list_bytes \<lparr>sa_id = 1, sa_properties = None, sa_return_codes = [Inr QoS1]\<rparr> =
     ok [0x90, 3, 0, 1, 1]"
proof -
  have "subs_ack_encode list_bytes \<lparr>sa_id = 1, sa_properties = None, sa_return_codes = [Inr QoS1]\<rparr> =
     ok (0x90 # word_of_nat (length [Inr QoS1 :: sub_ack_result] + 2) # enc16 1
           @ map ack_code [Inr QoS1])"
    using suback_no_property_length
      [of list_bytes "\<lparr>sa_id = 1, sa_properties = None, sa_return_codes = [Inr QoS1]\<rparr>"]
    by simp
  then show ?thesis by (simp add: enc16_def ack_code_def)
qed

text \<open>The length estimate of SUBACK properties is the exact length of their encoding.\<close>

theorem sub_ack_prop_len_exact:
  assumes "bytes_doc B" and "sub_ack_prop_ok p"
  shows "\<exists>buf. sub_ack_prop_encode B p = ok buf \<and> length buf = sub_ack_prop_len p"
  using sub_ack_prop_encode_image [OF assms] by (simp add: length_sub_ack_prop_image)

end
