(* ===== verification/Storage.thy ===== *)
theory Storage
  imports Subscribe ClientId "HOL-Library.AList"
begin

text \<open>
  The persistent state of a client, \<open>message_broker/client/storage.rs\<close>: the metadata record,
  the session log (\<open>WALL\<close>), the subscriptions file, and restoring a session from them.

  Files are code of \<open>tokio\<close>: what the functions do to an open file are the fields of a record
  \<open>file_ops\<close> given as the argument \<open>F\<close>, on a state of the file of any type.
\<close>

section \<open>Numbers and words of the log, from the standard library\<close>

text \<open>\<open>format!("{}", n)\<close> on an unsigned number.\<close>

fun decimal :: "nat \<Rightarrow> rstring" where
  "decimal n = (if n < 10 then [0x30 + word_of_nat n]
     else decimal (n div 10) @ [0x30 + word_of_nat (n mod 10)])"

declare decimal.simps [simp del]

text \<open>\<open>str::parse::<u64>()\<close>: digits, with at most one plus sign before them, in range.\<close>

fun parse_digits :: "nat \<Rightarrow> rstring \<Rightarrow> nat option" where
  "parse_digits acc [] = Some acc"
| "parse_digits acc (c # cs) =
     (if 0x30 \<le> c \<and> c \<le> 0x39 then
        let acc = acc * 10 + unat (c - 0x30) in
        if acc < 2 ^ 64 then parse_digits acc cs else None
      else None)"

definition parse_u64 :: "rstring \<Rightarrow> u64 option" where
  "parse_u64 s =
     (case s of
        [] \<Rightarrow> None
      | c # cs \<Rightarrow>
          if c = 0x2B then (if cs = [] then None else map_option word_of_nat (parse_digits 0 cs))
          else map_option word_of_nat (parse_digits 0 s))"

text \<open>\<open>str::trim\<close>: the Unicode white space, as the byte sequences of its characters.\<close>

definition unicode_ws :: "rstring list" where
  "unicode_ws = [[0x09], [0x0A], [0x0B], [0x0C], [0x0D], [0x20], [0xC2, 0x85], [0xC2, 0xA0],
     [0xE1, 0x9A, 0x80], [0xE2, 0x80, 0x80], [0xE2, 0x80, 0x81], [0xE2, 0x80, 0x82],
     [0xE2, 0x80, 0x83], [0xE2, 0x80, 0x84], [0xE2, 0x80, 0x85], [0xE2, 0x80, 0x86],
     [0xE2, 0x80, 0x87], [0xE2, 0x80, 0x88], [0xE2, 0x80, 0x89], [0xE2, 0x80, 0x8A],
     [0xE2, 0x80, 0xA8], [0xE2, 0x80, 0xA9], [0xE2, 0x80, 0xAF], [0xE2, 0x81, 0x9F],
     [0xE3, 0x80, 0x80]]"

definition starts_with :: "'a list \<Rightarrow> 'a list \<Rightarrow> bool" where
  "starts_with p s \<longleftrightarrow> take (length p) s = p"

lemma starts_with_shorter: "starts_with w s \<Longrightarrow> w \<noteq> [] \<Longrightarrow> length s - length w < length s"
  by (cases w; cases s) (auto simp: starts_with_def)

function trim_front :: "rstring list \<Rightarrow> rstring \<Rightarrow> rstring" where
  "trim_front ws s =
     (case find (\<lambda>w. w \<noteq> [] \<and> starts_with w s) ws of
        None \<Rightarrow> s
      | Some w \<Rightarrow> trim_front ws (drop (length w) s))"
  by auto
termination
  by (relation "measure (\<lambda>(_, s). length s)") (auto simp: find_Some_iff intro: starts_with_shorter)

declare trim_front.simps [simp del]

definition trim :: "rstring \<Rightarrow> rstring" where
  "trim s = rev (trim_front (map rev unicode_ws) (rev (trim_front unicode_ws s)))"

text \<open>\<open>str::split_ascii_whitespace\<close>.\<close>

definition ascii_ws :: "u8 \<Rightarrow> bool" where
  "ascii_ws c \<longleftrightarrow> c = 0x20 \<or> c = 0x09 \<or> c = 0x0A \<or> c = 0x0C \<or> c = 0x0D"

fun split_ws :: "rstring \<Rightarrow> rstring \<Rightarrow> rstring list" where
  "split_ws w [] = (if w = [] then [] else [w])"
| "split_ws w (c # cs) =
     (if ascii_ws c then (if w = [] then [] else [w]) @ split_ws [] cs else split_ws (w @ [c]) cs)"

definition split_ascii_whitespace :: "rstring \<Rightarrow> rstring list" where
  "split_ascii_whitespace s = split_ws [] s"

section \<open>Printing and parsing numbers\<close>

lemma parse_digits_append:
  "parse_digits acc (xs @ ys) = Option.bind (parse_digits acc xs) (\<lambda>acc. parse_digits acc ys)"
  by (induction acc xs rule: parse_digits.induct) (auto simp: Let_def)

lemma digit_word:
  assumes "d < 10"
  shows "0x30 \<le> (0x30 + word_of_nat d :: u8)" and "(0x30 + word_of_nat d :: u8) \<le> 0x39"
    and "unat (0x30 + word_of_nat d - 0x30 :: u8) = d"
proof -
  have d: "unat (word_of_nat d :: u8) = d" using assms by (simp add: unat_of_nat)
  then have "unat (0x30 + word_of_nat d :: u8) = 48 + d" using assms by (simp add: unat_word_ariths)
  then show "0x30 \<le> (0x30 + word_of_nat d :: u8)" and "(0x30 + word_of_nat d :: u8) \<le> 0x39"
    using assms by (simp_all add: word_le_nat_alt)
  show "unat (0x30 + word_of_nat d - 0x30 :: u8) = d" using d by simp
qed

lemma decimal_digits: "c \<in> set (decimal n) \<Longrightarrow> 0x30 \<le> c \<and> c \<le> 0x39"
proof (induction n rule: decimal.induct)
  case (1 n)
  then show ?case
    using digit_word [of n] digit_word [of "n mod 10"] by (subst (asm) (2) decimal.simps) (auto split: if_splits)
qed

lemma parse_decimal: "n < 2 ^ 64 \<Longrightarrow> parse_digits 0 (decimal n) = Some n"
proof (induction n rule: decimal.induct)
  case (1 n)
  show ?case
  proof (cases "n < 10")
    case True
    then show ?thesis using digit_word [of n] "1.prems" by (subst decimal.simps) (simp add: Let_def)
  next
    case False
    have "parse_digits 0 (decimal (n div 10)) = Some (n div 10)" using "1.IH" False "1.prems" by simp
    then show ?thesis
      using False digit_word [of "n mod 10"] "1.prems"
      by (subst decimal.simps) (simp add: parse_digits_append Let_def)
  qed
qed

lemma decimal_nonempty [simp]: "decimal n \<noteq> []"
  by (subst decimal.simps) simp

lemma parse_u64_decimal: "parse_u64 (decimal (unat t)) = Some t"
proof -
  have n: "unat t < 2 ^ 64" using unsigned_less [of t] by simp
  obtain c cs where c: "decimal (unat t) = c # cs" by (cases "decimal (unat t)") auto
  then have "c \<noteq> 0x2B" using decimal_digits [of c "unat t"] by auto
  then show ?thesis using c parse_decimal [OF n] by (simp add: parse_u64_def)
qed

section \<open>The session log\<close>

datatype event_type =
  ClientCreated | ClientDisconnected u64 | DisconnectByServer u64 | ClientRestored

record wall =
  w_time :: u64
  w_value :: event_type

text \<open>The number after an event's name.\<close>

definition wall_number :: "rstring list \<Rightarrow> (u64 \<Rightarrow> event_type) \<Rightarrow> (io_error, event_type) run" where
  "wall_number parts event =
     (case parts of
        [] \<Rightarrow> err (IoError IoInvalidData (lit ''no value for set expiration''))
      | part2 # _ \<Rightarrow>
          (case parse_u64 part2 of
             None \<Rightarrow> err (IoError IoInvalidData (lit ''invalid expiration number''))
           | Some u \<Rightarrow> ok (event u)))"

definition wall_deserialize :: "bytes \<Rightarrow> (io_error, wall) run" where
  "wall_deserialize b =
     (let parts = split_ascii_whitespace (trim b) in
      case parts of
        [] \<Rightarrow> panic
      | time # parts \<Rightarrow>
          (case parse_u64 time of
             None \<Rightarrow> panic
           | Some time \<Rightarrow>
               (case parts of
                  [] \<Rightarrow> err (IoError IoInvalidData (lit ''not registered eventt''))
                | part1 # parts \<Rightarrow>
                    andThen
                      (if part1 = lit ''ClientCreated'' then ok ClientCreated
                       else if part1 = lit ''ClientDisconnected'' then wall_number parts ClientDisconnected
                       else if part1 = lit ''DisconnectByServer'' then wall_number parts DisconnectByServer
                       else if part1 = lit ''ClientRestored'' then ok ClientRestored
                       else err (IoError IoInvalidData (lit ''not registered eventt'')))
                      (\<lambda>value. ok \<lparr>w_time = time, w_value = value\<rparr>))))"

definition wall_serialize :: "bytes_crate \<Rightarrow> wall \<Rightarrow> bytes \<Rightarrow> bytes" where
  "wall_serialize B w buffer =
     (let buffer = put_slice B buffer (decimal (unat (w_time w)) @ lit '' '');
          val = (case w_value w of
              ClientCreated \<Rightarrow> lit ''ClientCreated''
            | ClientDisconnected u \<Rightarrow> lit ''ClientDisconnected '' @ decimal (unat u)
            | DisconnectByServer u \<Rightarrow> lit ''DisconnectByServer '' @ decimal (unat u)
            | ClientRestored \<Rightarrow> lit ''ClientRestored'')
      in put_u8 B (put_slice B buffer val) 0x0A)"

text \<open>The file as the code sees it: reading at most so many bytes, truncating, writing all.\<close>

record 'f file_ops =
  f_read :: "'f \<Rightarrow> nat \<Rightarrow> (io_error + bytes) \<times> 'f"
  f_set_len :: "'f \<Rightarrow> nat \<Rightarrow> (io_error + unit) \<times> 'f"
  f_write_all :: "'f \<Rightarrow> bytes \<Rightarrow> (io_error + unit) \<times> 'f"

text \<open>The inner loop of \<open>read_wall\<close>, on the bytes of one read and the position in them.\<close>

partial_function (option) read_wall_lines ::
    "bytes_crate \<Rightarrow> nat \<Rightarrow> bytes \<Rightarrow> wall list \<Rightarrow> (io_error, wall list) run" where
  "read_wall_lines B i read wall =
     (if length read > 0 then
        if length read \<le> i then panic
        else if read ! i \<noteq> 0x0A then read_wall_lines B (i + 1) read wall
        else need (split_to B (i + 1) read) (\<lambda>(b, read).
             andThen (wall_deserialize b) (\<lambda>des.
             read_wall_lines B 0 read (wall @ [des])))
      else ok wall)"

declare read_wall_lines.simps [code]

text \<open>\<open>read_wall\<close> with a buffer of \<open>len\<close> bytes, which every round fills up again.\<close>

partial_function (option) read_wall ::
    "bytes_crate \<Rightarrow> 'f file_ops \<Rightarrow> nat \<Rightarrow> 'f \<Rightarrow> wall list \<Rightarrow> (io_error, wall list \<times> 'f) run" where
  "read_wall B F len f wall =
     (case f_read F f len of (r, f) \<Rightarrow>
       (case r of
          Inl e \<Rightarrow> ok (wall, f)
        | Inr read \<Rightarrow>
            if length read = 0 then ok (wall, f)
            else andThen (read_wall_lines B 0 read wall) (\<lambda>wall. read_wall B F len f wall)))"

declare read_wall.simps [code]

text \<open>\<open>write_wall\<close>, and \<open>log_session\<close> on the opened file.\<close>

definition write_wall ::
    "bytes_crate \<Rightarrow> 'f file_ops \<Rightarrow> 'f \<Rightarrow> wall list \<Rightarrow> (io_error, 'f) run" where
  "write_wall B F f walls =
     (case f_write_all F f (fold (wall_serialize B) walls []) of
        (Inl e, f) \<Rightarrow> err e
      | (Inr _, f) \<Rightarrow> ok f)"

definition log_session ::
    "bytes_crate \<Rightarrow> 'f file_ops \<Rightarrow> io_error + 'f \<Rightarrow> wall list \<Rightarrow> (io_error, 'f) run" where
  "log_session B F opened walls =
     (case opened of Inl e \<Rightarrow> err e | Inr f \<Rightarrow> write_wall B F f walls)"

subsection \<open>A line of the log\<close>

definition event_image :: "event_type \<Rightarrow> rstring" where
  "event_image v = (case v of
       ClientCreated \<Rightarrow> lit ''ClientCreated''
     | ClientDisconnected u \<Rightarrow> lit ''ClientDisconnected'' @ 0x20 # decimal (unat u)
     | DisconnectByServer u \<Rightarrow> lit ''DisconnectByServer'' @ 0x20 # decimal (unat u)
     | ClientRestored \<Rightarrow> lit ''ClientRestored'')"

definition wall_line :: "wall \<Rightarrow> bytes" where
  "wall_line w = decimal (unat (w_time w)) @ 0x20 # event_image (w_value w)"

lemma wall_serialize_image:
  "bytes_doc B \<Longrightarrow> wall_serialize B w buffer = buffer @ wall_line w @ [0x0A]"
  by (auto simp: wall_serialize_def wall_line_def event_image_def Let_def bytes_simps lit_def
      split: event_type.splits)

lemma fold_wall_serialize:
  "bytes_doc B \<Longrightarrow> fold (wall_serialize B) ws b = b @ concat (map (\<lambda>w. wall_line w @ [0x0A]) ws)"
  by (induction ws arbitrary: b) (simp_all add: wall_serialize_image)

text \<open>Bytes of a log line: printable ASCII.\<close>

definition graph :: "u8 \<Rightarrow> bool" where
  "graph c \<longleftrightarrow> 0x20 < c \<and> c < 0x80"

lemma graph_decimal: "c \<in> set (decimal n) \<Longrightarrow> graph c"
  using decimal_digits [of c n] by (auto simp: graph_def word_less_nat_alt word_le_nat_alt)

lemma graph_not_ws: "graph c \<Longrightarrow> \<not> ascii_ws c"
  by (auto simp: graph_def ascii_ws_def)

lemma trim_front_graph:
  assumes "\<forall>w \<in> set ws. w \<noteq> [] \<and> (hd w \<le> 0x20 \<or> 0x80 \<le> hd w)" and "graph c"
  shows "trim_front ws (c # cs) = c # cs"
proof -
  have "\<not> (w \<noteq> [] \<and> starts_with w (c # cs))" if "w \<in> set ws" for w
    using assms that by (cases w) (auto simp: starts_with_def graph_def not_less not_le)
  then have "find (\<lambda>w. w \<noteq> [] \<and> starts_with w (c # cs)) ws = None" by (simp add: find_None_iff)
  then show ?thesis by (subst trim_front.simps) simp
qed

lemma unicode_ws_ok:
  "\<forall>w \<in> set unicode_ws. w \<noteq> [] \<and> (hd w \<le> 0x20 \<or> 0x80 \<le> hd w)"
  "\<forall>w \<in> set (map rev unicode_ws). w \<noteq> [] \<and> (hd w \<le> 0x20 \<or> 0x80 \<le> hd w)"
  by (simp_all add: unicode_ws_def)

lemma trim_front_newline:
  "trim_front (map rev unicode_ws) (0x0A # s) = trim_front (map rev unicode_ws) s"
  by (subst trim_front.simps) (simp add: unicode_ws_def starts_with_def)

lemma trim_line:
  assumes "ys \<noteq> []" and "graph (hd ys)" and "graph (last ys)"
  shows "trim (ys @ [0x0A]) = ys"
proof -
  obtain c cs where c: "ys = c # cs" "graph c" using assms(1,2) by (cases ys) auto
  obtain d ds where d: "rev ys = d # ds" "graph d"
    using assms(1,3) by (cases ys rule: rev_cases) auto
  have "trim_front unicode_ws (ys @ [0x0A]) = ys @ [0x0A]"
    using c by (simp add: trim_front_graph unicode_ws_ok)
  moreover have "trim_front (map rev unicode_ws) (rev ys) = rev ys"
    unfolding d(1) using d(2) unicode_ws_ok(2) by (rule trim_front_graph [rotated])
  ultimately show ?thesis by (simp add: trim_def trim_front_newline)
qed

lemma split_ws_word:
  "\<forall>c \<in> set xs. graph c \<Longrightarrow> w @ xs \<noteq> [] \<Longrightarrow> split_ws w (xs @ 0x20 # ys) = (w @ xs) # split_ws [] ys"
  by (induction xs arbitrary: w) (simp_all add: graph_not_ws, simp add: ascii_ws_def)

lemma split_ws_last:
  "\<forall>c \<in> set xs. graph c \<Longrightarrow> w @ xs \<noteq> [] \<Longrightarrow> split_ws w xs = [w @ xs]"
  by (induction xs arbitrary: w) (simp_all add: graph_not_ws)

lemma event_names_graph:
  "\<forall>c \<in> set (lit ''ClientCreated''). graph c" "\<forall>c \<in> set (lit ''ClientDisconnected''). graph c"
  "\<forall>c \<in> set (lit ''DisconnectByServer''). graph c" "\<forall>c \<in> set (lit ''ClientRestored''). graph c"
  by (simp_all add: lit_def graph_def)

lemma event_names_nonempty [simp]: "lit ''ClientCreated'' \<noteq> []" "lit ''ClientDisconnected'' \<noteq> []"
  "lit ''DisconnectByServer'' \<noteq> []" "lit ''ClientRestored'' \<noteq> []"
  by (simp_all add: lit_def)

lemma event_names_distinct [simp]:
  "lit ''ClientDisconnected'' \<noteq> lit ''ClientCreated''" "lit ''DisconnectByServer'' \<noteq> lit ''ClientCreated''"
  "lit ''DisconnectByServer'' \<noteq> lit ''ClientDisconnected''" "lit ''ClientRestored'' \<noteq> lit ''ClientCreated''"
  "lit ''ClientRestored'' \<noteq> lit ''ClientDisconnected''" "lit ''ClientRestored'' \<noteq> lit ''DisconnectByServer''"
  by (simp_all add: lit_def)

lemma last_graph: "xs \<noteq> [] \<Longrightarrow> \<forall>c \<in> set xs. graph c \<Longrightarrow> graph (last xs)"
  by simp

lemma wall_line_trim: "trim (wall_line w @ [0x0A]) = wall_line w"
proof (rule trim_line)
  show "wall_line w \<noteq> []" by (simp add: wall_line_def)
  show "graph (hd (wall_line w))"
    using graph_decimal [OF hd_in_set [OF decimal_nonempty]] by (simp add: wall_line_def)
  have "event_image v \<noteq> [] \<and> graph (last (event_image v))" for v
    using event_names_graph graph_decimal [OF last_in_set [OF decimal_nonempty]]
    by (auto simp: event_image_def split: event_type.splits)
  then show "graph (last (wall_line w))" by (simp add: wall_line_def)
qed

lemma wall_line_split: "split_ascii_whitespace (wall_line w) =
    decimal (unat (w_time w)) # (case w_value w of
        ClientCreated \<Rightarrow> [lit ''ClientCreated'']
      | ClientDisconnected u \<Rightarrow> [lit ''ClientDisconnected'', decimal (unat u)]
      | DisconnectByServer u \<Rightarrow> [lit ''DisconnectByServer'', decimal (unat u)]
      | ClientRestored \<Rightarrow> [lit ''ClientRestored''])"
  using event_names_graph graph_decimal
  by (simp add: split_ascii_whitespace_def wall_line_def event_image_def split_ws_word split_ws_last
      split: event_type.splits)

lemma wall_deserialize_line: "wall_deserialize (wall_line w @ [0x0A]) = ok w"
  by (cases w)
    (simp add: wall_deserialize_def wall_line_trim wall_line_split parse_u64_decimal wall_number_def
      Let_def split: event_type.splits)

subsection \<open>A whole log\<close>

lemma wall_line_no_newline: "0x0A \<notin> set (wall_line w)"
proof -
  have "\<not> graph 0x0A" by (simp add: graph_def)
  then show ?thesis
    using event_names_graph graph_decimal
    by (auto simp: wall_line_def event_image_def split: event_type.splits)
qed

text \<open>The inner loop runs over a line without a newline.\<close>

lemma read_wall_lines_skip:
  assumes "\<forall>j < k. read ! (i + j) \<noteq> 0x0A" and "i + k < length read"
  shows "read_wall_lines B i read wall = read_wall_lines B (i + k) read wall"
  using assms
proof (induction k)
  case (Suc k)
  then have "read_wall_lines B i read wall = read_wall_lines B (i + k) read wall" by simp
  also have "\<dots> = read_wall_lines B (i + k + 1) read wall"
    using Suc.prems by (subst read_wall_lines.simps) auto
  finally show ?case by simp
qed simp

lemma read_wall_lines_line:
  assumes "bytes_doc B" and "0x0A \<notin> set l"
  shows "read_wall_lines B 0 (l @ 0x0A # rest) wall =
    andThen (wall_deserialize (l @ [0x0A])) (\<lambda>des. read_wall_lines B 0 rest (wall @ [des]))"
proof -
  let ?r = "l @ 0x0A # rest"
  have "\<forall>j < length l. ?r ! (0 + j) \<noteq> 0x0A"
    using assms(2) by (auto simp: nth_append in_set_conv_nth)
  then have "read_wall_lines B 0 ?r wall = read_wall_lines B (0 + length l) ?r wall"
    by (rule read_wall_lines_skip) simp
  also have "\<dots> = andThen (wall_deserialize (l @ [0x0A]))
      (\<lambda>des. read_wall_lines B 0 rest (wall @ [des]))"
    using assms(1) by (subst read_wall_lines.simps) (simp add: bytes_simps)
  finally show ?thesis .
qed

lemma read_wall_lines_log:
  assumes "bytes_doc B"
  shows "read_wall_lines B 0 (concat (map (\<lambda>w. wall_line w @ [0x0A]) ws)) wall = ok (wall @ ws)"
proof (induction ws arbitrary: wall)
  case Nil
  then show ?case by (subst read_wall_lines.simps) simp
next
  case (Cons w ws)
  then show ?case
    using read_wall_lines_line [OF assms wall_line_no_newline]
    by (simp add: wall_deserialize_line)
qed

text \<open>A last line without its newline makes the index run past the end.\<close>

lemma read_wall_lines_cut:
  assumes "l \<noteq> []" and "0x0A \<notin> set l"
  shows "read_wall_lines B 0 l wall = panic"
proof -
  have "read_wall_lines B 0 l wall = read_wall_lines B (0 + (length l - 1)) l wall"
    using assms by (intro read_wall_lines_skip) (auto simp: in_set_conv_nth)
  also have "\<dots> = read_wall_lines B (length l) l wall"
  proof -
    obtain n where "length l = Suc n" using assms(1) by (cases l) auto
    then have "l ! (length l - 1) \<in> set l" and "\<not> length l \<le> length l - 1" and "length l - 1 + 1 = length l"
      by simp_all
    moreover from this(1) have "l ! (length l - 1) \<noteq> 0x0A" using assms(2) by metis
    moreover note assms(1)
    ultimately show ?thesis by (subst read_wall_lines.simps) simp
  qed
  also have "\<dots> = panic" using assms(1) by (subst read_wall_lines.simps) simp
  finally show ?thesis .
qed

lemma read_wall_lines_prefix:
  assumes "bytes_doc B"
  shows "read_wall_lines B 0 (concat (map (\<lambda>w. wall_line w @ [0x0A]) ws) @ rest) wall =
    read_wall_lines B 0 rest (wall @ ws)"
proof (induction ws arbitrary: wall)
  case (Cons w ws)
  then show ?case
    using read_wall_lines_line [OF assms wall_line_no_newline]
    by (simp add: wall_deserialize_line)
qed simp

lemma read_wall_whole:
  assumes "bytes_doc B" and "f_read F f n = (Inr (concat (map (\<lambda>w. wall_line w @ [0x0A]) ws)), f')"
    and "f_read F f' n = (Inr [], f'')" and "ws \<noteq> []"
  shows "read_wall B F n f wall = ok (wall @ ws, f'')"
proof -
  have "concat (map (\<lambda>w. wall_line w @ [0x0A]) ws) \<noteq> []" using assms(4) by (cases ws) simp_all
  then have "read_wall B F n f wall = read_wall B F n f' (wall @ ws)"
    using assms(2) read_wall_lines_log [OF assms(1)] by (subst read_wall.simps) simp
  also have "\<dots> = ok (wall @ ws, f'')" using assms(3) by (subst read_wall.simps) simp
  finally show ?thesis .
qed

section \<open>Strings, metadata and wills\<close>

definition serialize_string :: "bytes_crate \<Rightarrow> bytes \<Rightarrow> rstring \<Rightarrow> bytes" where
  "serialize_string B buffer v = put_slice B (put_u16 B buffer (word_of_nat (length v))) v"

definition deserialize_string :: "bytes_crate \<Rightarrow> bytes \<Rightarrow> (io_error, rstring \<times> bytes) run" where
  "deserialize_string B buffer =
     need (get_u16 B buffer) (\<lambda>(len, buffer).
     need (split_to B (unat len) buffer) (\<lambda>(b, buffer).
     if utf8_valid b then ok (b, buffer) else panic))"

record metadata =
  md_protocol_level :: u8
  md_keep_alive_interval :: u16
  md_expr_interval :: u32
  md_receive_maximum :: u16
  md_maximum_packet_size :: u16
  md_topic_alias_maximum :: u16
  md_user_properties :: "(rstring \<times> rstring) list"

definition est_user_prop :: "metadata \<Rightarrow> nat" where
  "est_user_prop m = (\<Sum>(k, v) \<leftarrow> md_user_properties m. 2 + length k + 2 + length v + 1)"

definition metadata_est_len :: "metadata \<Rightarrow> nat" where
  "metadata_est_len m = 13 + 4 + est_user_prop m"

definition metadata_serialize :: "bytes_crate \<Rightarrow> metadata \<Rightarrow> bytes \<Rightarrow> bytes" where
  "metadata_serialize B m buffer =
     (let buffer = put_u8 B buffer (md_protocol_level m);
          buffer = put_u16 B buffer (md_keep_alive_interval m);
          buffer = put_u32 B buffer (md_expr_interval m);
          buffer = put_u16 B buffer (md_receive_maximum m);
          buffer = put_u16 B buffer (md_maximum_packet_size m);
          buffer = put_u16 B buffer (md_topic_alias_maximum m);
          prop_len = est_user_prop m;
          buffer = put_u32 B buffer (word_of_nat prop_len)
      in if prop_len > 1 then
           fold (\<lambda>up buffer. put_u8 B (serialize_string B (serialize_string B buffer (fst up)) (snd up)) 0x0A)
             (md_user_properties m) buffer
         else buffer)"

text \<open>
  The loop over the user properties: its condition looks at \<open>uprop_buf\<close>, its body reads from
  \<open>buffer\<close>.
\<close>

partial_function (option) user_properties_loop ::
    "bytes_crate \<Rightarrow> bytes \<Rightarrow> (rstring \<times> rstring) list \<Rightarrow> bytes \<Rightarrow>
       (io_error, (rstring \<times> rstring) list) run" where
  "user_properties_loop B uprop_buf prop buffer =
     (if length uprop_buf \<noteq> 0 then
        andThen (deserialize_string B buffer) (\<lambda>(k, buffer).
        andThen (deserialize_string B buffer) (\<lambda>(v, buffer).
        need (get_u8 B buffer) (\<lambda>(lf, buffer).
        user_properties_loop B uprop_buf (prop @ [(k, v)]) buffer)))
      else ok prop)"

declare user_properties_loop.simps [code]

definition metadata_deserialize :: "bytes_crate \<Rightarrow> bytes \<Rightarrow> (io_error, metadata) run" where
  "metadata_deserialize B buffer =
     need (get_u8 B buffer) (\<lambda>(protocol_level, buffer).
     need (get_u16 B buffer) (\<lambda>(keep_alive_interval, buffer).
     need (get_u32 B buffer) (\<lambda>(expr_interval, buffer).
     need (get_u16 B buffer) (\<lambda>(receive_maximum, buffer).
     need (get_u16 B buffer) (\<lambda>(maximum_packet_size, buffer).
     need (get_u16 B buffer) (\<lambda>(topic_alias_maximum, buffer).
     let new = \<lparr>md_protocol_level = protocol_level, md_keep_alive_interval = keep_alive_interval,
               md_expr_interval = expr_interval, md_receive_maximum = receive_maximum,
               md_maximum_packet_size = maximum_packet_size,
               md_topic_alias_maximum = topic_alias_maximum, md_user_properties = []\<rparr> in
     if length buffer < 2 then ok new
     else need (get_u32 B buffer) (\<lambda>(uprop_len, buffer).
       if length buffer < unat uprop_len then ok new
       else need (split_to B (unat uprop_len) buffer) (\<lambda>(uprop_buf, buffer).
         andThen (user_properties_loop B uprop_buf [] buffer) (\<lambda>prop.
         ok (new\<lparr>md_user_properties := prop\<rparr>))))))))))"

record will =
  wl_topic :: rstring
  wl_payload :: bytes

definition will_serialize :: "bytes_crate \<Rightarrow> will \<Rightarrow> bytes \<Rightarrow> bytes" where
  "will_serialize B w buffer = put_slice B (serialize_string B buffer (wl_topic w)) (wl_payload w)"

definition will_est_len :: "will \<Rightarrow> nat" where
  "will_est_len w = 2 + length (wl_topic w) + length (wl_payload w)"

definition will_deserialize :: "bytes_crate \<Rightarrow> bytes \<Rightarrow> (io_error, will) run" where
  "will_deserialize B buffer =
     andThen (deserialize_string B buffer) (\<lambda>(topic, buffer). ok \<lparr>wl_topic = topic, wl_payload = buffer\<rparr>)"

lemma serialize_string_image:
  "bytes_doc B \<Longrightarrow> serialize_string B buffer v = buffer @ len_image v"
  by (simp add: serialize_string_def len_image_def bytes_simps)

lemma deserialize_string_image:
  assumes "bytes_doc B" and "str_ok v"
  shows "deserialize_string B (len_image v @ r) = ok (v, r)"
proof -
  have "unat (word_of_nat (length v) :: u16) = length v"
    using assms(2) by (simp add: str_ok_def unat_of_nat)
  then show ?thesis using assms by (simp add: deserialize_string_def len_image_def bytes_simps str_ok_def)
qed

lemma deserialize_string_shrinks:
  assumes "bytes_doc B" and "deserialize_string B b = ok (v, r)"
  shows "length r < length b"
  using assms(2) get_u16_shrinks [OF assms(1)]
  by (auto simp: deserialize_string_def need_eq_ok split_to_doc [OF assms(1)]
      split: prod.splits if_splits) fastforce

text \<open>Once the loop over the user properties is entered it ends in a panic.\<close>

lemma deserialize_string_cases:
  obtains "deserialize_string B b = panic" | v r where "deserialize_string B b = ok (v, r)"
proof (cases "get_u16 B b")
  case None
  then show ?thesis using that by (simp add: deserialize_string_def)
next
  case (Some p)
  show ?thesis
  proof (cases "split_to B (unat (fst p)) (snd p)")
    case None
    then show ?thesis using that Some by (cases p) (simp add: deserialize_string_def)
  next
    case (Some q)
    then show ?thesis using that \<open>get_u16 B b = Some p\<close>
      by (cases p; cases q; cases "utf8_valid (fst q)") (simp_all add: deserialize_string_def)
  qed
qed

lemma user_properties_loop_panics:
  assumes "bytes_doc B" and "uprop_buf \<noteq> []"
  shows "user_properties_loop B uprop_buf acc buffer = panic"
proof (induction "length buffer" arbitrary: buffer acc rule: less_induct)
  case less
  note unfold = user_properties_loop.simps [of B uprop_buf acc buffer]
  show ?case
  proof (cases rule: deserialize_string_cases [of B buffer])
    case 1
    then show ?thesis using assms(2) by (simp add: unfold)
  next
    case (2 k b1)
    show ?thesis
    proof (cases rule: deserialize_string_cases [of B b1])
      case 1
      then show ?thesis using assms(2) 2 by (simp add: unfold)
    next
      case v: (2 v b2)
      show ?thesis
      proof (cases "get_u8 B b2")
        case None
        then show ?thesis using assms(2) 2 v by (simp add: unfold)
      next
        case (Some p)
        then obtain lf b3 where p: "get_u8 B b2 = Some (lf, b3)" by (cases p) auto
        have "length b1 < length buffer" "length b2 < length b1" "length b3 < length b2"
          using deserialize_string_shrinks [OF assms(1)] 2 v get_u8_shrinks [OF assms(1) p] by auto
        then have "user_properties_loop B uprop_buf (acc @ [(k, v)]) b3 = panic" using less by simp
        then show ?thesis using assms(2) 2 v p by (simp add: unfold)
      qed
    qed
  qed
qed

section \<open>The subscriptions file\<close>

text \<open>The hash map of subscriptions; the order of the list is the order it is iterated in.\<close>

type_synonym submap = "(rstring \<times> service_level) list"

text \<open>\<open>for i in 0..n\<close>: the rounds left, and the start \<open>c\<close> of the current line.\<close>

fun subscribed_lines :: "bytes \<Rightarrow> nat \<Rightarrow> nat list \<Rightarrow> submap \<Rightarrow> (io_error, submap) run" where
  "subscribed_lines r_buf c [] m = ok m"
| "subscribed_lines r_buf c (i # is) m =
     (if r_buf ! i \<noteq> 0xA then subscribed_lines r_buf c is m
      else if i < c + 1 then panic
      else let k = take (i - (c + 1)) (drop (c + 1) r_buf) in
        if \<not> utf8_valid k then err (IoError IoInvalidData (lit ''invalid utf-8''))
        else andThen (mapErr (\<lambda>_. IoError IoInvalidData (lit ''Invalid QoS'')) (qos_try_from (r_buf ! c)))
          (\<lambda>v. subscribed_lines r_buf (i + 1) is (AList.update k v m)))"

text \<open>
  The reading loop: \<open>len\<close> is the length of the buffer, of which \<open>split_to\<close> takes away what
  was read and \<open>reserve\<close> gives nothing back.
\<close>

partial_function (option) get_subscribed_loop ::
    "'f file_ops \<Rightarrow> nat \<Rightarrow> nat \<Rightarrow> submap \<Rightarrow> 'f \<Rightarrow> (io_error, nat \<times> submap \<times> 'f) run" where
  "get_subscribed_loop F len readed m f =
     (case f_read F f len of (r, f) \<Rightarrow>
       (case r of
          Inl e \<Rightarrow> ok (readed, m, f)
        | Inr r_buf \<Rightarrow>
            let n = length r_buf in
            if n = 0 then ok (readed, m, f)
            else andThen (subscribed_lines r_buf 0 [0..<n] m) (\<lambda>m.
              if n \<noteq> 1024 then ok (readed + n, m, f)
              else get_subscribed_loop F (len - n) (readed + n) m f)))"

declare get_subscribed_loop.simps [code]

definition get_subscribed ::
    "'f file_ops \<Rightarrow> submap \<Rightarrow> 'f \<Rightarrow> (io_error, nat \<times> submap \<times> 'f) run" where
  "get_subscribed F m f = get_subscribed_loop F 1024 0 m f"

definition subscribed_bytes :: "bytes_crate \<Rightarrow> submap \<Rightarrow> bytes" where
  "subscribed_bytes B m =
     fold (\<lambda>(each, slvl) buf. put_u8 B (put_slice B (put_u8 B buf (qos_code slvl)) each) 0x0A) m []"

definition write_subscribed ::
    "bytes_crate \<Rightarrow> 'f file_ops \<Rightarrow> submap \<Rightarrow> 'f \<Rightarrow> (io_error + nat) \<times> 'f" where
  "write_subscribed B F m f =
     (let est_leng = (\<Sum>(each, _) \<leftarrow> m. 2 + length each) in
      case f_write_all F f (subscribed_bytes B m) of
        (Inl e, f) \<Rightarrow> (Inl e, f)
      | (Inr _, f) \<Rightarrow> (Inr est_leng, f))"

text \<open>What \<open>subscribe\<close> and \<open>unsubscribe\<close> do with the opened file and the change of the map.\<close>

definition rewrite_subscribed ::
    "bytes_crate \<Rightarrow> 'f file_ops \<Rightarrow> io_error + 'f \<Rightarrow> (submap \<Rightarrow> submap) \<Rightarrow> (io_error, 'f) run" where
  "rewrite_subscribed B F opened change =
     (case opened of Inl e \<Rightarrow> err e | Inr f \<Rightarrow>
     andThen (get_subscribed F [] f) (\<lambda>(readed, m, f).
     let m = change m in
     case f_set_len F f 0 of
       (Inl e, f) \<Rightarrow> err e
     | (Inr _, f) \<Rightarrow>
         (case write_subscribed B F m f of (Inl e, f) \<Rightarrow> panic | (Inr _, f) \<Rightarrow> ok f)))"

text \<open>The loop over the topics; a known topic gets its new quality of service when it differs.\<close>

definition update_sub :: "subscribe \<Rightarrow> submap \<Rightarrow> submap" where
  "update_sub sub m =
     (case map_of m (sub_topic sub) of
        Some v \<Rightarrow> if sub_max_qos sub \<noteq> v then AList.update (sub_topic sub) (sub_max_qos sub) m else m
      | None \<Rightarrow> AList.update (sub_topic sub) (sub_max_qos sub) m)"

definition store_subscribe ::
    "bytes_crate \<Rightarrow> 'f file_ops \<Rightarrow> io_error + 'f \<Rightarrow> subscribe list \<Rightarrow> (io_error, 'f) run" where
  "store_subscribe B F opened topics = rewrite_subscribed B F opened (fold update_sub topics)"

definition store_unsubscribe ::
    "bytes_crate \<Rightarrow> 'f file_ops \<Rightarrow> io_error + 'f \<Rightarrow> rstring list \<Rightarrow> (io_error, 'f) run" where
  "store_unsubscribe B F opened topics = rewrite_subscribed B F opened (fold AList.delete topics)"

section \<open>Restoring a session\<close>

record restored =
  rs_mdata :: metadata
  rs_subs :: "subscribe list"

text \<open>
  The gate of \<open>restore\<close>: the last event of the log has to be a disconnection that has not
  expired; an empty log makes the index \<open>wall.len() - 1\<close> panic.
\<close>

definition restore_gate :: "u64 \<Rightarrow> wall list \<Rightarrow> (io_error, u64) run" where
  "restore_gate now wall =
     (if wall = [] then panic
      else andThen
        (case w_value (wall ! (length wall - 1)) of
           ClientRestored \<Rightarrow> err (IoError IoAddrInUse (lit ''session already restored''))
         | ClientDisconnected u \<Rightarrow> ok u
         | DisconnectByServer u \<Rightarrow> ok u
         | ClientCreated \<Rightarrow> err (IoError IoOther (lit ''session maybe still online'')))
        (\<lambda>u. if u \<le> now then err (IoError IoTimedOut (lit ''session expired'')) else ok u))"

text \<open>
  \<open>restore\<close>: \<open>dir_exists\<close> and \<open>session_exists\<close> are what the file system answers,
  \<open>opened\<close> gives the files of the client's directory by name, \<open>now\<close> and \<open>now'\<close> are the
  times of the check and of the entry written to the log.  The result has the log file as it is
  left.
\<close>

definition store_restore ::
    "bytes_crate \<Rightarrow> 'f file_ops \<Rightarrow> u64 \<Rightarrow> u64 \<Rightarrow> bool \<Rightarrow> bool \<Rightarrow> (rstring \<Rightarrow> io_error + 'f) \<Rightarrow>
       client_id \<Rightarrow> (io_error, restored \<times> 'f) run" where
  "store_restore B F now now' dir_exists session_exists opened clid =
     (if \<not> dir_exists then
        err (IoError IoNotFound (lit ''no session for client id '' @ clid_id clid))
      else if \<not> session_exists then err (IoError IoNotFound (lit ''no session''))
      else case opened (lit ''session'') of Inl e \<Rightarrow> err e | Inr f \<Rightarrow>
      andThen (read_wall B F 512 f []) (\<lambda>(wall, f).
      andThen (restore_gate now wall) (\<lambda>u.
      andThen (write_wall B F f [\<lparr>w_time = now', w_value = ClientRestored\<rparr>]) (\<lambda>session.
      case opened (lit ''metadata'') of Inl e \<Rightarrow> err e | Inr f \<Rightarrow>
      case f_read F f 512 of
        (Inl e, f) \<Rightarrow> err e
      | (Inr b, f) \<Rightarrow>
          if length b < 13 then err (IoError IoInvalidData (lit ''metadata structure is invalid''))
          else andThen (metadata_deserialize B b) (\<lambda>mdata.
          case opened (lit ''subscribed'') of Inl e \<Rightarrow> err e | Inr f \<Rightarrow>
          andThen (get_subscribed F [] f) (\<lambda>(readed, maps, f).
          ok (\<lparr>rs_mdata = mdata,
               rs_subs = map (\<lambda>(k, v). \<lparr>sub_topic = k, sub_max_qos = v\<rparr>) maps\<rparr>, session)))))))"

text \<open>
  The files \<open>ClientStore::new\<close> writes into the client's directory, each truncated first: the
  log with the creation, no subscriptions, the metadata.
\<close>

definition write_new ::
    "'f file_ops \<Rightarrow> io_error + 'f \<Rightarrow> bytes \<Rightarrow> (io_error, 'f) run" where
  "write_new F opened content =
     (case opened of Inl e \<Rightarrow> err e | Inr f \<Rightarrow>
      case f_set_len F f 0 of
        (Inl e, f) \<Rightarrow> err e
      | (Inr _, f) \<Rightarrow> if content = [] then ok f else
          (case f_write_all F f content of (Inl e, f) \<Rightarrow> err e | (Inr _, f) \<Rightarrow> ok f))"

definition store_new ::
    "bytes_crate \<Rightarrow> 'f file_ops \<Rightarrow> u64 \<Rightarrow> (rstring \<Rightarrow> io_error + 'f) \<Rightarrow> metadata \<Rightarrow>
       (io_error, 'f \<times> 'f \<times> 'f) run" where
  "store_new B F now opened mdata =
     andThen (write_new F (opened (lit ''session''))
       (wall_serialize B \<lparr>w_time = now, w_value = ClientCreated\<rparr> [])) (\<lambda>session.
     andThen (write_new F (opened (lit ''subscribed'')) []) (\<lambda>subscribed.
     andThen (write_new F (opened (lit ''metadata'')) (metadata_serialize B mdata [])) (\<lambda>metadata.
     ok (session, subscribed, metadata))))"

section \<open>The files and what is read back from them\<close>

definition sub_line :: "rstring \<times> service_level \<Rightarrow> bytes" where
  "sub_line s = qos_code (snd s) # fst s @ [0x0A]"

definition topics_ok :: "submap \<Rightarrow> bool" where
  "topics_ok m \<longleftrightarrow> (\<forall>(k, q) \<in> set m. 0x0A \<notin> set k \<and> utf8_valid k)"

lemma subscribed_bytes_image: "bytes_doc B \<Longrightarrow> subscribed_bytes B m = concat (map sub_line m)"
proof -
  assume B: "bytes_doc B"
  have "fold (\<lambda>(each, slvl) buf. put_u8 B (put_slice B (put_u8 B buf (qos_code slvl)) each) 0x0A) m b =
      b @ concat (map sub_line m)" for b
    using B by (induction m arbitrary: b) (auto simp: bytes_simps sub_line_def)
  then show ?thesis by (simp add: subscribed_bytes_def)
qed

lemma sub_line_nonempty [simp]: "sub_line s \<noteq> []"
  by (simp add: sub_line_def)

lemma subscribed_lines_skip:
  "\<forall>j \<in> set js. r_buf ! j \<noteq> 0xA \<Longrightarrow> subscribed_lines r_buf c (js @ is) m = subscribed_lines r_buf c is m"
  by (induction js) simp_all

lemma qos_code_not_newline [simp]: "qos_code q \<noteq> 0xA"
  by (cases q) simp_all

lemma subscribed_lines_line:
  fixes "done" :: bytes
  assumes "0x0A \<notin> set k" and "utf8_valid k"
    and r: "r_buf = pre @ sub_line (k, q) @ rest" and c: "c = length pre"
    and i: "i = c + length k + 1"
  shows "subscribed_lines r_buf c [c..<length r_buf] m =
    subscribed_lines r_buf (i + 1) [i + 1..<length r_buf] (AList.update k q m)"
proof -
  have len: "i < length r_buf" by (simp add: r i c sub_line_def)
  have c_le: "c \<le> i" by (simp add: i)
  have at: "r_buf ! j = (sub_line (k, q) @ rest) ! (j - c)" if "c \<le> j" for j
    using that by (simp add: r c nth_append)
  have "[c..<length r_buf] = [c..<i] @ [i..<length r_buf]"
    using upt_add_eq_append [of c i "length r_buf - i"] len c_le by (simp del: upt_Suc)
  also have "[i..<length r_buf] = i # [i + 1..<length r_buf]"
    using upt_conv_Cons [OF len] by simp
  finally have split: "[c..<length r_buf] = [c..<i] @ i # [i + 1..<length r_buf]" .
  have "\<forall>j \<in> set [c..<i]. r_buf ! j \<noteq> 0xA"
  proof
    fix j assume j: "j \<in> set [c..<i]"
    then have "(qos_code q # k) ! (j - c) \<in> set (qos_code q # k)" by (intro nth_mem) (auto simp: i)
    moreover have "r_buf ! j = ((qos_code q # k) @ 0x0A # rest) ! (j - c)"
      using j at [of j] by (simp add: sub_line_def)
    moreover have "\<dots> = (qos_code q # k) ! (j - c)" by (subst nth_append) (use j i in auto)
    ultimately show "r_buf ! j \<noteq> 0xA" using assms(1) by auto
  qed
  moreover have "r_buf ! i = 0xA" using at [of i] by (simp add: i sub_line_def nth_append)
  moreover have "take (i - (c + 1)) (drop (c + 1) r_buf) = k" by (simp add: r c i sub_line_def)
  moreover have "r_buf ! c = qos_code q" using at [of c] by (simp add: sub_line_def)
  ultimately show ?thesis
    unfolding split using assms(2) by (simp add: subscribed_lines_skip Let_def i del: upt_Suc)
qed

lemma subscribed_lines_all:
  assumes "topics_ok ss"
  shows "subscribed_lines (pre @ concat (map sub_line ss)) (length pre)
      [length pre..<length (pre @ concat (map sub_line ss))] m =
    ok (fold (\<lambda>(k, q). AList.update k q) ss m)"
  using assms
proof (induction ss arbitrary: pre m)
  case (Cons s ss)
  obtain k q where s: "s = (k, q)" by (cases s)
  let ?r = "pre @ concat (map sub_line (s # ss))" and ?p = "pre @ sub_line (k, q)"
  have len: "length pre + length k + 1 + 1 = length ?p" by (simp add: sub_line_def)
  have r: "?r = ?p @ concat (map sub_line ss)" by (simp add: s)
  have "subscribed_lines ?r (length pre) [length pre..<length ?r] m =
      subscribed_lines ?r (length ?p) [length ?p..<length ?r] (AList.update k q m)"
    unfolding len [symmetric] using Cons.prems
    by (intro subscribed_lines_line [where q = q and pre = pre and rest = "concat (map sub_line ss)"])
      (auto simp: topics_ok_def s)
  also have "\<dots> = ok (fold (\<lambda>(k, q). AList.update k q) ss (AList.update k q m))"
    unfolding r using Cons.prems by (intro Cons.IH) (simp add: topics_ok_def)
  finally show ?case by (simp add: s)
qed simp

lemma fold_update_distinct:
  assumes "distinct (map fst (m @ ss))"
  shows "fold (\<lambda>(k, q). AList.update k q) ss m = m @ ss"
  using assms
proof (induction ss arbitrary: m)
  case (Cons s ss)
  obtain k q where s: "s = (k, q)" by (cases s)
  have "AList.update k q m = m @ [(k, q)]"
    using Cons.prems by (induction m) (auto simp: s)
  then show ?case using Cons.IH [of "m @ [(k, q)]"] Cons.prems by (simp add: s)
qed simp

lemma get_subscribed_image:
  assumes "bytes_doc B" and "topics_ok m" and "distinct (map fst m)"
    and "length (subscribed_bytes B m) < 1024" and "f_read F f 1024 = (Inr (subscribed_bytes B m), f')"
  shows "get_subscribed F [] f = ok (length (subscribed_bytes B m), m, f')"
  using assms subscribed_lines_all [OF assms(2), of "[]" "[]"] fold_update_distinct [of "[]" m]
  by (cases m)
    (simp_all add: get_subscribed_def get_subscribed_loop.simps [of F 1024] subscribed_bytes_image Let_def)

lemma map_of_update_sub:
  "map_of (update_sub sub m) t = (if t = sub_topic sub then Some (sub_max_qos sub) else map_of m t)"
  by (auto simp: update_sub_def update_conv split: option.splits)

lemma map_of_fold_update_sub:
  "map_of (fold update_sub topics m) t =
    (case find (\<lambda>s. sub_topic s = t) (rev topics) of
       Some s \<Rightarrow> Some (sub_max_qos s) | None \<Rightarrow> map_of m t)"
  by (induction topics rule: rev_induct) (auto simp: map_of_update_sub)

lemma metadata_fields:
  assumes "bytes_doc B"
  shows "metadata_deserialize B (put_u16 B (put_u16 B (put_u16 B (put_u32 B (put_u16 B (put_u8 B []
      (md_protocol_level m)) (md_keep_alive_interval m)) (md_expr_interval m)) (md_receive_maximum m))
      (md_maximum_packet_size m)) (md_topic_alias_maximum m) @ enc32 n @ rest) =
    (if length rest < unat n then ok (m\<lparr>md_user_properties := []\<rparr>)
     else andThen (user_properties_loop B (take (unat n) rest) [] (drop (unat n) rest))
       (\<lambda>acc. ok (m\<lparr>md_user_properties := acc\<rparr>)))"
  using assms by (cases m) (simp add: metadata_deserialize_def bytes_simps Let_def)

text \<open>The fields before the user properties, as they are put.\<close>

definition metadata_header :: "metadata \<Rightarrow> bytes" where
  "metadata_header m = md_protocol_level m # enc16 (md_keep_alive_interval m) @ enc32 (md_expr_interval m)
     @ enc16 (md_receive_maximum m) @ enc16 (md_maximum_packet_size m) @ enc16 (md_topic_alias_maximum m)"

definition user_prop_image :: "metadata \<Rightarrow> bytes" where
  "user_prop_image m =
     concat (map (\<lambda>(k, v). len_image k @ len_image v @ [0x0A]) (md_user_properties m))"

lemma length_user_prop_image: "length (user_prop_image m) = est_user_prop m"
proof -
  have "length (concat (map (\<lambda>(k, v). len_image k @ len_image v @ [0x0A]) ps)) =
      (\<Sum>(k, v) \<leftarrow> ps. 2 + length k + 2 + length v + 1)" for ps
    by (induction ps) auto
  then show ?thesis by (simp add: user_prop_image_def est_user_prop_def)
qed

lemma user_prop_small: "\<not> 1 < est_user_prop m \<Longrightarrow> md_user_properties m = []"
  by (cases "md_user_properties m") (auto simp: est_user_prop_def)

lemma metadata_serialize_image:
  assumes "bytes_doc B"
  shows "metadata_serialize B m [] =
    metadata_header m @ enc32 (word_of_nat (est_user_prop m)) @ user_prop_image m"
proof -
  have "fold (\<lambda>up buffer. put_u8 B (serialize_string B (serialize_string B buffer (fst up)) (snd up)) 0x0A) ps b =
      b @ concat (map (\<lambda>(k, v). len_image k @ len_image v @ [0x0A]) ps)" for ps b
    using assms by (induction ps arbitrary: b) (auto simp: bytes_simps serialize_string_image)
  then show ?thesis
    using assms user_prop_small [of m]
    by (auto simp: metadata_serialize_def metadata_header_def user_prop_image_def Let_def bytes_simps)
qed

lemma metadata_deserialize_header:
  assumes "bytes_doc B"
  shows "metadata_deserialize B (metadata_header m @ enc32 n @ rest) =
    (if length rest < unat n then ok (m\<lparr>md_user_properties := []\<rparr>)
     else andThen (user_properties_loop B (take (unat n) rest) [] (drop (unat n) rest))
       (\<lambda>acc. ok (m\<lparr>md_user_properties := acc\<rparr>)))"
  using metadata_fields [OF assms] assms by (simp add: metadata_header_def bytes_simps)

lemma metadata_no_props:
  assumes "bytes_doc B" and "md_user_properties m = []"
  shows "metadata_deserialize B (metadata_serialize B m []) = ok m"
proof -
  have "est_user_prop m = 0" "user_prop_image m = []"
    using assms(2) by (simp_all add: est_user_prop_def user_prop_image_def)
  then show ?thesis
    using metadata_deserialize_header [OF assms(1), of m 0 "[]"] assms(2)
    by (simp add: metadata_serialize_image [OF assms(1)] user_properties_loop.simps)
qed

lemma wall_log_bytes:
  assumes "bytes_doc B"
  shows "write_wall B F f ws = (case f_write_all F f (concat (map (\<lambda>w. wall_line w @ [0x0A]) ws)) of
      (Inl e, f) \<Rightarrow> err e | (Inr _, f) \<Rightarrow> ok f)"
  using fold_wall_serialize [OF assms] by (simp add: write_wall_def)

text \<open>Files whose reads give what was prepared, and which remember what is written.\<close>

definition script_files :: "(bytes list \<times> bytes list) file_ops" where
  "script_files = \<lparr>
     f_read = (\<lambda>(rs, w) n. case rs of [] \<Rightarrow> (Inr [], ([], w)) | r # rs \<Rightarrow> (Inr r, (rs, w))),
     f_set_len = (\<lambda>(rs, w) n. (Inr (), (rs, []))),
     f_write_all = (\<lambda>(rs, w) b. (Inr (), (rs, w @ [b])))\<rparr>"

section \<open>Properties\<close>

text \<open>C27: What is logged of a session is read back: the events written to the log, read in one piece,
  give the same events with the same times and expiration times, in their order.\<close>

theorem log_read_back:
  assumes "bytes_doc B" and "ws \<noteq> []" and "f_read F f 512 = (Inr (fold (wall_serialize B) ws []), f')"
    and "f_read F f' 512 = (Inr [], f'')"
  shows "read_wall B F 512 f [] = ok (ws, f'')"
  using read_wall_whole [OF assms(1) _ assms(4,2), of f "[]"] assms(3)
  by (simp add: fold_wall_serialize [OF assms(1)])

definition sample_log :: "wall list" where
  "sample_log = [\<lparr>w_time = 1, w_value = ClientCreated\<rparr>, \<lparr>w_time = 9, w_value = ClientDisconnected 120\<rparr>]"

theorem log_read_back_witness:
  "read_wall list_bytes script_files 512 ([fold (wall_serialize list_bytes) sample_log []], []) [] =
     ok (sample_log, ([], []))"
  by (rule log_read_back [where f' = "([], [])"]) (simp_all add: sample_log_def script_files_def)

text \<open>A read of the log that ends inside a line makes restoring panic, whatever the rest of the file
  holds: a log longer than the buffer of 512 bytes cannot be read unless a line ends there.\<close>

theorem log_cut_panics:
  assumes "bytes_doc B"
    and "f_read F f 512 = (Inr (fold (wall_serialize B) ws [] @ part), f')"
    and "part \<noteq> []" and "0x0A \<notin> set part"
  shows "read_wall B F 512 f [] = panic"
proof -
  have "read_wall_lines B 0 (fold (wall_serialize B) ws [] @ part) [] = panic"
    using read_wall_lines_prefix [OF assms(1), of ws part "[]"] read_wall_lines_cut [OF assms(3,4)]
    by (simp add: fold_wall_serialize [OF assms(1)])
  then show ?thesis using assms(2,3) by (subst read_wall.simps) simp
qed

theorem log_cut_panics_witness:
  "read_wall list_bytes script_files 512
     ([fold (wall_serialize list_bytes) sample_log [] @ lit ''17 Client'', lit ''Restored''], []) [] = panic"
  by (rule log_cut_panics) (auto simp: script_files_def lit_def)

text \<open>Metadata without user properties, the only kind the broker stores, is read back as it was
  written.\<close>

theorem metadata_roundtrip:
  assumes "bytes_doc B" and "md_user_properties m = []"
  shows "metadata_deserialize B (metadata_serialize B m []) = ok m"
  using assms by (rule metadata_no_props)

definition sample_metadata :: metadata where
  "sample_metadata = \<lparr>md_protocol_level = 5, md_keep_alive_interval = 60, md_expr_interval = 3600,
     md_receive_maximum = 0, md_maximum_packet_size = 1024, md_topic_alias_maximum = 7,
     md_user_properties = []\<rparr>"

theorem metadata_roundtrip_witness:
  "metadata_deserialize list_bytes (metadata_serialize list_bytes sample_metadata []) = ok sample_metadata"
  by (rule metadata_roundtrip) (simp_all add: sample_metadata_def)

text \<open>Metadata with user properties cannot be read back: the loop that reads them looks for their end
  in one buffer and reads them from another, already empty, and panics.\<close>

theorem metadata_user_properties_panic:
  assumes "bytes_doc B" and "md_user_properties m \<noteq> []" and "est_user_prop m < 2 ^ 32"
  shows "metadata_deserialize B (metadata_serialize B m []) = panic"
proof -
  have n: "unat (word_of_nat (est_user_prop m) :: u32) = est_user_prop m"
    using assms(3) by (simp add: unat_of_nat)
  have "1 < est_user_prop m" using assms(2) user_prop_small by blast
  then have "user_prop_image m \<noteq> []" using length_user_prop_image [of m] by auto
  then have "user_properties_loop B (user_prop_image m) [] [] = panic"
    by (rule user_properties_loop_panics [OF assms(1)])
  then show ?thesis
    by (simp add: metadata_serialize_image [OF assms(1)] metadata_deserialize_header [OF assms(1)] n
        length_user_prop_image)
qed

theorem metadata_user_properties_panic_witness:
  "metadata_deserialize list_bytes
     (metadata_serialize list_bytes (sample_metadata\<lparr>md_user_properties := [(lit ''a'', lit ''b'')]\<rparr>) []) = panic"
  by (rule metadata_user_properties_panic) (simp_all add: est_user_prop_def lit_def)

text \<open>C28: A subscriptions file of less than 1024 bytes is read back as the map it was written from,
  whatever the order the map was written in, when no topic has a newline in it.\<close>

theorem subscriptions_roundtrip:
  assumes "bytes_doc B" and "topics_ok m" and "distinct (map fst m)"
    and "length (subscribed_bytes B m) < 1024" and "f_read F f 1024 = (Inr (subscribed_bytes B m), f')"
  shows "get_subscribed F [] f = ok (length (subscribed_bytes B m), m, f')"
  using assms by (rule get_subscribed_image)

definition sample_submap :: submap where
  "sample_submap = [(lit ''home/kitchen'', QoS2), (lit ''a'', QoS0)]"

lemma sample_submap_ok: "topics_ok sample_submap" "distinct (map fst sample_submap)"
  "length (subscribed_bytes list_bytes sample_submap) < 1024"
  by (simp_all add: sample_submap_def topics_ok_def lit_def subscribed_bytes_def list_bytes_def)

theorem subscriptions_roundtrip_witness:
  "get_subscribed script_files [] ([subscribed_bytes list_bytes sample_submap], []) =
     ok (length (subscribed_bytes list_bytes sample_submap), sample_submap, ([], []))"
  by (rule subscriptions_roundtrip [OF list_bytes_doc sample_submap_ok]) (simp add: script_files_def)

lemma store_subscribe_rewrites:
  assumes "bytes_doc B" and "topics_ok m" and "distinct (map fst m)"
    and "length (subscribed_bytes B m) < 1024" and "f_read F f 1024 = (Inr (subscribed_bytes B m), f1)"
    and "f_set_len F f1 0 = (Inr (), f2)"
    and "f_write_all F f2 (subscribed_bytes B (fold update_sub topics m)) = (Inr (), f3)"
  shows "store_subscribe B F (Inr f) topics = ok f3"
  using get_subscribed_image [OF assms(1-5)] assms(6,7)
  by (simp add: store_subscribe_def rewrite_subscribed_def write_subscribed_def Let_def)

text \<open>Storing subscriptions rewrites the file with the map that has, for each topic, the quality of
  service of the last of the new subscriptions to it, and else what the file had.\<close>

theorem store_subscribe_merges:
  assumes "bytes_doc B" and "topics_ok m" and "distinct (map fst m)"
    and "length (subscribed_bytes B m) < 1024" and "f_read F f 1024 = (Inr (subscribed_bytes B m), f1)"
    and "f_set_len F f1 0 = (Inr (), f2)"
    and "f_write_all F f2 (subscribed_bytes B (fold update_sub topics m)) = (Inr (), f3)"
  shows "store_subscribe B F (Inr f) topics = ok f3 \<and>
    (\<forall>t. map_of (fold update_sub topics m) t =
      (case find (\<lambda>s. sub_topic s = t) (rev topics) of
         Some s \<Rightarrow> Some (sub_max_qos s) | None \<Rightarrow> map_of m t))"
  using store_subscribe_rewrites [OF assms] map_of_fold_update_sub by simp

theorem store_subscribe_merges_witness:
  "store_subscribe list_bytes script_files (Inr ([subscribed_bytes list_bytes sample_submap], []))
     [\<lparr>sub_topic = lit ''a'', sub_max_qos = QoS1\<rparr>] =
   ok ([], [subscribed_bytes list_bytes (fold update_sub [\<lparr>sub_topic = lit ''a'', sub_max_qos = QoS1\<rparr>]
       sample_submap)]) \<and>
   (\<forall>t. map_of (fold update_sub [\<lparr>sub_topic = lit ''a'', sub_max_qos = QoS1\<rparr>] sample_submap) t =
     (case find (\<lambda>s. sub_topic s = t) (rev [\<lparr>sub_topic = lit ''a'', sub_max_qos = QoS1\<rparr>]) of
        Some s \<Rightarrow> Some (sub_max_qos s) | None \<Rightarrow> map_of sample_submap t))"
  by (rule store_subscribe_merges [OF list_bytes_doc sample_submap_ok, where ?f1.0 = "([], [])"
        and ?f2.0 = "([], [])"]) (simp_all add: script_files_def)

text \<open>Of a subscriptions file of 1024 bytes or more only the first 1024 bytes are looked at: the
  buffer is not refilled, so the second read has no room and ends the loop.\<close>

theorem large_subscriptions_cut:
  assumes "f_read F f 1024 = (Inr b, f1)" and "length b = 1024" and "f_read F f1 0 = (Inr [], f2)"
    and "subscribed_lines b 0 [0..<1024] [] = ok m"
  shows "get_subscribed F [] f = ok (1024, m, f2)"
proof -
  have "get_subscribed F [] f = get_subscribed_loop F 0 1024 m f1"
    using assms by (simp add: get_subscribed_def get_subscribed_loop.simps [of F 1024] Let_def)
  also have "\<dots> = ok (1024, m, f2)"
    using assms(3) by (subst get_subscribed_loop.simps) (simp add: Let_def)
  finally show ?thesis .
qed

text \<open>A file with one subscription to a topic of 1022 bytes, and more after it.\<close>

definition long_topic :: rstring where
  "long_topic = replicate 1022 0x61"

lemma long_topic_line:
  "subscribed_lines (sub_line (long_topic, QoS1)) 0 [0..<1024] [] = ok [(long_topic, QoS1)]"
proof -
  have ok: "topics_ok [(long_topic, QoS1)]"
    by (auto simp: topics_ok_def long_topic_def intro: utf8_valid_ascii)
  have "length (sub_line (long_topic, QoS1)) = 1024" by (simp add: sub_line_def long_topic_def)
  then show ?thesis using subscribed_lines_all [OF ok, of "[]" "[]"] by simp
qed

theorem large_subscriptions_cut_witness:
  "get_subscribed (script_files\<lparr>f_read := (\<lambda>(rs, w) n. if n = 0 then (Inr [], (rs, w)) else
      f_read script_files (rs, w) n)\<rparr>) []
    ([sub_line (long_topic, QoS1), sub_line (lit ''a'', QoS2)], []) =
   ok (1024, [(long_topic, QoS1)], ([sub_line (lit ''a'', QoS2)], []))"
  by (rule large_subscriptions_cut [OF _ _ _ long_topic_line])
    (simp_all add: script_files_def sub_line_def long_topic_def)

lemma store_restore_okE:
  assumes "store_restore B F now now' d e opened clid = ok (r, session)"
  obtains f ws f' u where "d" and "e" and "opened (lit ''session'') = Inr f"
    and "read_wall B F 512 f [] = ok (ws, f')" and "restore_gate now ws = ok u"
  using assms by (auto simp: store_restore_def andThen_eq_ok split: if_splits sum.splits prod.splits)

lemma restore_gate_ok:
  "restore_gate now ws = ok u \<longleftrightarrow> ws \<noteq> [] \<and> now < u \<and>
     (w_value (last ws) = ClientDisconnected u \<or> w_value (last ws) = DisconnectByServer u)"
  by (auto simp: restore_gate_def last_conv_nth andThen_eq_ok not_le split: event_type.splits if_splits)

text \<open>The directory of a client that has disconnected.\<close>

definition sample_dir :: "rstring \<Rightarrow> io_error + (bytes list \<times> bytes list)" where
  "sample_dir name = Inr
     ([if name = lit ''session'' then fold (wall_serialize list_bytes) sample_log []
       else if name = lit ''metadata'' then metadata_serialize list_bytes sample_metadata []
       else subscribed_bytes list_bytes sample_submap], [])"

lemma store_restore_image:
  assumes "bytes_doc B" and "opened (lit ''session'') = Inr f"
    and "f_read F f 512 = (Inr (fold (wall_serialize B) ws []), f1)" and "f_read F f1 512 = (Inr [], f2)"
    and "restore_gate now ws = ok u"
    and "f_write_all F f2 (wall_serialize B \<lparr>w_time = now', w_value = ClientRestored\<rparr> []) = (Inr (), f3)"
    and "opened (lit ''metadata'') = Inr g" and "md_user_properties m = []"
    and "f_read F g 512 = (Inr (metadata_serialize B m []), g1)"
    and "opened (lit ''subscribed'') = Inr h" and "topics_ok ss" and "distinct (map fst ss)"
    and "length (subscribed_bytes B ss) < 1024" and "f_read F h 1024 = (Inr (subscribed_bytes B ss), h1)"
  shows "store_restore B F now now' True True opened clid = ok (\<lparr>rs_mdata = m,
    rs_subs = map (\<lambda>(k, v). \<lparr>sub_topic = k, sub_max_qos = v\<rparr>) ss\<rparr>, f3)"
proof -
  have "ws \<noteq> []" using assms(5) by (simp add: restore_gate_ok)
  then have "read_wall B F 512 f [] = ok (ws, f2)"
    using read_wall_whole [OF assms(1) _ assms(4), of f ws "[]"] assms(3)
    by (simp add: fold_wall_serialize [OF assms(1)])
  moreover have "\<not> length (metadata_serialize B m []) < 13"
    by (simp add: metadata_serialize_image [OF assms(1)] metadata_header_def)
  moreover have "write_wall B F f2 [\<lparr>w_time = now', w_value = ClientRestored\<rparr>] = ok f3"
    using assms(6) by (simp add: write_wall_def)
  ultimately show ?thesis
    using assms(2,5,7,9,10) metadata_no_props [OF assms(1,8)] get_subscribed_image [OF assms(1,11-14)]
    by (simp add: store_restore_def)
qed

lemma sample_dir_opened:
  "sample_dir (lit ''session'') = Inr ([fold (wall_serialize list_bytes) sample_log []], [])"
  "sample_dir (lit ''metadata'') = Inr ([metadata_serialize list_bytes sample_metadata []], [])"
  "sample_dir (lit ''subscribed'') = Inr ([subscribed_bytes list_bytes sample_submap], [])"
  by (simp_all add: sample_dir_def lit_def)

lemma restore_sample:
  "store_restore list_bytes script_files 100 now' True True sample_dir clid =
     ok (\<lparr>rs_mdata = sample_metadata,
       rs_subs = map (\<lambda>(k, v). \<lparr>sub_topic = k, sub_max_qos = v\<rparr>) sample_submap\<rparr>,
       ([], [wall_serialize list_bytes \<lparr>w_time = now', w_value = ClientRestored\<rparr> []]))"
  by (rule store_restore_image [OF list_bytes_doc sample_dir_opened(1) _ _ _ _ sample_dir_opened(2) _ _
        sample_dir_opened(3) sample_submap_ok, where ws = sample_log and u = 120 and m = sample_metadata
        and ?f1.0 = "([], [])" and ?f2.0 = "([], [])"])
    (simp_all add: script_files_def restore_gate_ok sample_log_def sample_metadata_def)

text \<open>C30: A session is restored only when its directory and its log exist and the last event logged is
  a disconnection whose expiration time has not come yet: never one that is still connected, that
  was already restored, or that has expired.\<close>

theorem restore_only_disconnected:
  assumes "store_restore B F now now' d e opened clid = ok (r, session)"
  shows "d \<and> e \<and> (\<exists>f ws f' u. opened (lit ''session'') = Inr f \<and>
    read_wall B F 512 f [] = ok (ws, f') \<and> ws \<noteq> [] \<and> now < u \<and>
    (w_value (last ws) = ClientDisconnected u \<or> w_value (last ws) = DisconnectByServer u))"
  by (rule store_restore_okE [OF assms]) (auto simp: restore_gate_ok)

theorem restore_only_disconnected_witness:
  "True \<and> True \<and> (\<exists>f ws f' u. sample_dir (lit ''session'') = Inr f \<and>
    read_wall list_bytes script_files 512 f [] = ok (ws, f') \<and> ws \<noteq> [] \<and> 100 < u \<and>
    (w_value (last ws) = ClientDisconnected u \<or> w_value (last ws) = DisconnectByServer u))"
  by (rule restore_only_disconnected [OF restore_sample])

text \<open>C29: Restoring gives back what was stored: with a log that ends in a disconnection not yet expired,
  metadata without user properties and a subscriptions file of less than 1024 bytes, each read in
  one piece, the result has the metadata and the subscriptions written, and the log has got the
  entry that the session is restored.\<close>

theorem restore_gives_back:
  assumes "bytes_doc B" and "opened (lit ''session'') = Inr f"
    and "f_read F f 512 = (Inr (fold (wall_serialize B) ws []), f1)" and "f_read F f1 512 = (Inr [], f2)"
    and "restore_gate now ws = ok u"
    and "f_write_all F f2 (wall_serialize B \<lparr>w_time = now', w_value = ClientRestored\<rparr> []) = (Inr (), f3)"
    and "opened (lit ''metadata'') = Inr g" and "md_user_properties m = []"
    and "f_read F g 512 = (Inr (metadata_serialize B m []), g1)"
    and "opened (lit ''subscribed'') = Inr h" and "topics_ok ss" and "distinct (map fst ss)"
    and "length (subscribed_bytes B ss) < 1024" and "f_read F h 1024 = (Inr (subscribed_bytes B ss), h1)"
  shows "store_restore B F now now' True True opened clid = ok (\<lparr>rs_mdata = m,
    rs_subs = map (\<lambda>(k, v). \<lparr>sub_topic = k, sub_max_qos = v\<rparr>) ss\<rparr>, f3)"
  using assms by (rule store_restore_image)

theorem restore_gives_back_witness:
  "store_restore list_bytes script_files 100 101 True True sample_dir (clid_new (lit ''x'')) =
     ok (\<lparr>rs_mdata = sample_metadata,
       rs_subs = map (\<lambda>(k, v). \<lparr>sub_topic = k, sub_max_qos = v\<rparr>) sample_submap\<rparr>,
       ([], [wall_serialize list_bytes \<lparr>w_time = 101, w_value = ClientRestored\<rparr> []]))"
  by (rule restore_gives_back [OF list_bytes_doc sample_dir_opened(1) _ _ _ _ sample_dir_opened(2) _ _
        sample_dir_opened(3) sample_submap_ok, where ws = sample_log and u = 120 and m = sample_metadata
        and ?f1.0 = "([], [])" and ?f2.0 = "([], [])"])
    (simp_all add: script_files_def restore_gate_ok sample_log_def sample_metadata_def)

end
