(* ===== verification/ClientLife.thy ===== *)
theory ClientLife
  imports Registry Storage
begin

text \<open>
  Making and restoring a client, \<open>message_broker/client/client.rs\<close>, and the clearing of the
  registry at shutdown.  A client's session is theory \<open>Session\<close>'s, its stored state theory
  \<open>Storage\<close>'s.
\<close>

section \<open>Making a client\<close>

definition unwrap_or_default :: "u16 option \<Rightarrow> u16" where
  "unwrap_or_default v = (case v of Some x \<Rightarrow> x | None \<Rightarrow> 0)"

definition to_opt :: "u16 \<Rightarrow> u16 option" where
  "to_opt v = (if v = 0 then None else Some v)"

definition client_metadata :: "u16 \<Rightarrow> u32 \<Rightarrow> u8 \<Rightarrow> limiter \<Rightarrow> metadata" where
  "client_metadata keep_alive expr_interval protocol_level limit = \<lparr>
     md_protocol_level = protocol_level, md_keep_alive_interval = keep_alive,
     md_expr_interval = expr_interval,
     md_receive_maximum = unwrap_or_default (l_receive_maximum limit),
     md_maximum_packet_size = unwrap_or_default (l_maximum_packet_size limit),
     md_topic_alias_maximum = unwrap_or_default (l_topic_alias_maximum limit),
     md_user_properties = []\<rparr>"

text \<open>\<open>Client::new\<close>; \<open>path\<close> is the client's directory, the result has the files as written.\<close>

definition client_new ::
    "bool \<Rightarrow> bytes_crate \<Rightarrow> 'f file_ops \<Rightarrow> u64 \<Rightarrow> rstring \<Rightarrow> (rstring \<Rightarrow> io_error + 'f) \<Rightarrow>
       u32 \<Rightarrow> 'k \<Rightarrow> client_id \<Rightarrow> u16 \<Rightarrow> u32 \<Rightarrow> u8 \<Rightarrow> limiter \<Rightarrow>
       (io_error, 'k client \<times> ('f \<times> 'f \<times> 'f)) run" where
  "client_new checks B F now path opened conid socket clid keep_alive expr_interval protocol_level limit =
     need (grace checks keep_alive) (\<lambda>g.
     need (uadd checks now (ucast g)) (\<lambda>ttl.
     let keep_alive = max keep_alive 60;
         mdata = client_metadata keep_alive expr_interval protocol_level limit;
         session = \<lparr>s_ttl = ttl, s_expr_interval = expr_interval, s_keep_alive = keep_alive\<rparr> in
     andThen (unwrap (store_new B F now opened mdata)) (\<lambda>files.
     ok (\<lparr>cl_conid = conid, cl_clid = clid, cl_socket = socket, cl_protocol_level = protocol_level,
         cl_session = session, cl_limit = limit, cl_storage = path\<rparr>, files))))"

text \<open>The bucket of what a restored client gets from the new connection; \<open>take()\<close> empties it.\<close>

record 'k update_client =
  uc_conid :: "u32 option"
  uc_socket :: "'k option"

definition client_restore ::
    "bool \<Rightarrow> bytes_crate \<Rightarrow> 'f file_ops \<Rightarrow> u64 \<Rightarrow> u64 \<Rightarrow> u64 \<Rightarrow> rstring \<Rightarrow> bool \<Rightarrow> bool \<Rightarrow>
       (rstring \<Rightarrow> io_error + 'f) \<Rightarrow> client_id \<Rightarrow> 'k update_client \<Rightarrow>
       (io_error, 'k client \<times> 'f) run \<times> 'k update_client" where
  "client_restore checks B F now now' now'' path dir_exists session_exists opened clid bucket =
     (case store_restore B F now now' dir_exists session_exists opened clid of
        None \<Rightarrow> (None, bucket)
      | Some (Err e) \<Rightarrow> (err e, bucket)
      | Some Panic \<Rightarrow> (panic, bucket)
      | Some (Ok (restored, log)) \<Rightarrow>
          let mdata = rs_mdata restored;
              keep_alive = md_keep_alive_interval mdata in
          (need (uc_socket bucket) (\<lambda>socket.
           need (uc_conid bucket) (\<lambda>conid.
           need (grace checks keep_alive) (\<lambda>g.
           need (uadd checks now'' (ucast g)) (\<lambda>ttl.
           ok (\<lparr>cl_conid = conid, cl_clid = clid, cl_socket = socket,
               cl_protocol_level = md_protocol_level mdata,
               cl_session = \<lparr>s_ttl = ttl, s_expr_interval = md_expr_interval mdata,
                           s_keep_alive = keep_alive\<rparr>,
               cl_limit = \<lparr>l_receive_maximum = to_opt (md_receive_maximum mdata),
                         l_maximum_packet_size = to_opt (md_maximum_packet_size mdata),
                         l_topic_alias_maximum = to_opt (md_receive_maximum mdata)\<rparr>,
               cl_storage = path\<rparr>, log))))),
           if uc_socket bucket = None then bucket
           else if uc_conid bucket = None then bucket\<lparr>uc_socket := None\<rparr>
           else \<lparr>uc_conid = None, uc_socket = None\<rparr>))"

section \<open>Clearing the registry\<close>

text \<open>
  Clients are popped from the end and their boxes taken over, so that each is dropped, with its socket,
  after its disconnection by the server was logged.  The result of logging is bound to \<open>_res\<close> and
  not looked at.  What is left of each client is put in a list: the client as it was when it was dropped,
  the entry for its log, and the error if it could not be written.
\<close>

type_synonym 'k dropped = "'k client \<times> wall \<times> io_error option"

fun clear_pops ::
    "bool \<Rightarrow> bytes_crate \<Rightarrow> 'f file_ops \<Rightarrow> (rstring \<Rightarrow> io_error + 'f) \<Rightarrow> u64 \<Rightarrow> 'k client list \<Rightarrow>
     (io_error, 'k dropped list) run" where
  "clear_pops checks B F open_log now [] = ok []"
| "clear_pops checks B F open_log now (cl # cls) =
     need (expiration_time checks (cl_session cl)) (\<lambda>expired_at.
     let ev = \<lparr>w_time = now, w_value = DisconnectByServer expired_at\<rparr> in
     case log_session B F (open_log (cl_storage cl)) [ev] of
       None \<Rightarrow> None
     | Some Panic \<Rightarrow> panic
     | Some (Ok _) \<Rightarrow> andThen (clear_pops checks B F open_log now cls) (\<lambda>cs. ok ((cl, ev, None) # cs))
     | Some (Err e) \<Rightarrow> andThen (clear_pops checks B F open_log now cls) (\<lambda>cs. ok ((cl, ev, Some e) # cs)))"

definition clients_clear ::
    "bool \<Rightarrow> bytes_crate \<Rightarrow> 'f file_ops \<Rightarrow> (rstring \<Rightarrow> io_error + 'f) \<Rightarrow> u64 \<Rightarrow> 'k clients \<Rightarrow>
     (io_error, 'k dropped list \<times> 'k clients) run" where
  "clients_clear checks B F open_log now clients =
     andThen (clear_pops checks B F open_log now (rev clients)) (\<lambda>cs. ok (cs, []))"

section \<open>A client controls its session\<close>

text \<open>\<open>impl SessionController for Client\<close>: every operation is the session's.\<close>

definition client_is_alive :: "'k client \<Rightarrow> u64 \<Rightarrow> bool" where
  "client_is_alive c t = is_alive (cl_session c) t"

definition client_is_expired :: "bool \<Rightarrow> 'k client \<Rightarrow> u64 \<Rightarrow> bool option" where
  "client_is_expired checks c t = is_expired checks (cl_session c) t"

definition client_expiration_time :: "bool \<Rightarrow> 'k client \<Rightarrow> u64 option" where
  "client_expiration_time checks c = expiration_time checks (cl_session c)"

definition client_keep_alive :: "bool \<Rightarrow> 'k client \<Rightarrow> u64 \<Rightarrow> (string, 'k client \<times> u64) run" where
  "client_keep_alive checks c t =
     andThen (session_keep_alive checks (cl_session c) t) (\<lambda>(s, ttl). ok (c\<lparr>cl_session := s\<rparr>, ttl))"

definition client_ttl :: "'k client \<Rightarrow> u64" where
  "client_ttl c = s_ttl (cl_session c)"

definition client_kill :: "bool \<Rightarrow> 'k client \<Rightarrow> u64 \<Rightarrow> 'k client option" where
  "client_kill checks c now = map_option (\<lambda>s. c\<lparr>cl_session := s\<rparr>) (kill checks (cl_session c) now)"

text \<open>A client tries to keep itself alive at each of a list of times.\<close>

definition client_attempts :: "bool \<Rightarrow> 'k client \<Rightarrow> u64 list \<Rightarrow> (string, 'k client) run" where
  "client_attempts checks c ts =
     andThen (keep_alive_attempts checks (cl_session c) ts) (\<lambda>s. ok (c\<lparr>cl_session := s\<rparr>))"

interpretation client_ctl: session_controller client_is_alive client_ttl "client_keep_alive checks" "client_kill checks"
    "client_attempts checks" for checks
proof
  show "0 < t \<Longrightarrow> \<exists>c'. client_kill checks c t = Some c' \<and> \<not> client_is_alive c' t" for c :: "'k client" and t
    using sess.kill_dead [where s = "cl_session c" and checks = checks and t = t] by (auto simp: client_kill_def client_is_alive_def)
  show "client_ttl c \<le> t \<Longrightarrow> \<exists>e. client_keep_alive checks c t = err e" for c :: "'k client" and t
    using sess.keep_dead [where s = "cl_session c" and checks = checks and t = t] by (auto simp: client_keep_alive_def client_ttl_def)
  show "client_keep_alive checks c t = ok (c', v) \<Longrightarrow> t < client_ttl c \<and> v = client_ttl c'"
    for c c' :: "'k client" and t v
    using sess.keep_ok [where s = "cl_session c" and checks = checks and t = t] by (auto simp: client_keep_alive_def client_ttl_def andThen_eq_ok)
  show "client_keep_alive checks c t = err e \<Longrightarrow> client_attempts checks c (t # ts) = client_attempts checks c ts"
    for c :: "'k client" and t e ts
    using sess.attempts_err [where s = "cl_session c" and checks = checks and t = t and ts = ts]
    by (auto simp: client_keep_alive_def client_attempts_def andThen_def split: option.splits outcome.splits)
  show "client_keep_alive checks c t = ok (c', v) \<Longrightarrow> client_attempts checks c (t # ts) = client_attempts checks c' ts"
    for c c' :: "'k client" and t v ts
    using sess.attempts_ok [where s = "cl_session c" and checks = checks and t = t]
    by (auto simp: client_keep_alive_def client_attempts_def andThen_eq_ok)
qed (simp_all add: client_is_alive_def client_ttl_def client_attempts_def is_alive_def)

section \<open>Lemmas\<close>

lemma to_opt_default: "to_opt (unwrap_or_default v) = (if v = Some 0 then None else v)"
  by (cases v) (auto simp: to_opt_def unwrap_or_default_def)

lemma client_new_okE:
  assumes "client_new checks B F now path opened conid socket clid k x lvl limit = ok (cl, files)"
  obtains g ttl where "grace checks k = Some g" and "uadd checks now (ucast g) = Some ttl"
    and "store_new B F now opened (client_metadata (max k 60) x lvl limit) = ok files"
    and "cl = \<lparr>cl_conid = conid, cl_clid = clid, cl_socket = socket, cl_protocol_level = lvl,
      cl_session = \<lparr>s_ttl = ttl, s_expr_interval = x, s_keep_alive = max k 60\<rparr>,
      cl_limit = limit, cl_storage = path\<rparr>"
  using assms that
  by (auto simp: client_new_def need_eq_ok andThen_eq_ok unwrap_eq_ok Let_def)

lemma client_restore_image:
  assumes "store_restore B F now now' True True opened clid = ok (r, log)"
    and "unat (md_keep_alive_interval (rs_mdata r)) \<le> 43690" and "unat now'' < 2 ^ 63"
  shows "\<exists>ttl. client_restore checks B F now now' now'' path True True opened clid
      \<lparr>uc_conid = Some conid, uc_socket = Some socket\<rparr> =
    (ok (\<lparr>cl_conid = conid, cl_clid = clid, cl_socket = socket,
        cl_protocol_level = md_protocol_level (rs_mdata r),
        cl_session = \<lparr>s_ttl = ttl, s_expr_interval = md_expr_interval (rs_mdata r),
          s_keep_alive = md_keep_alive_interval (rs_mdata r)\<rparr>,
        cl_limit = \<lparr>l_receive_maximum = to_opt (md_receive_maximum (rs_mdata r)),
          l_maximum_packet_size = to_opt (md_maximum_packet_size (rs_mdata r)),
          l_topic_alias_maximum = to_opt (md_receive_maximum (rs_mdata r))\<rparr>,
        cl_storage = path\<rparr>, log), \<lparr>uc_conid = None, uc_socket = None\<rparr>) \<and>
    unat ttl = unat now'' + unat (md_keep_alive_interval (rs_mdata r)) +
      unat (md_keep_alive_interval (rs_mdata r)) div 2"
proof -
  obtain g where g: "grace checks (md_keep_alive_interval (rs_mdata r)) = Some g"
    "unat g = unat (md_keep_alive_interval (rs_mdata r)) + unat (md_keep_alive_interval (rs_mdata r)) div 2"
    using grace_exact [OF assms(2)] by blast
  have u: "unat (ucast g :: u64) = unat g" by (rule unat_ucast_16_64)
  then have "unat now'' + unat (ucast g :: u64) < 2 ^ LENGTH(64)"
    using assms(3) unat_u16_less [of g] by simp
  note uadd_Some [OF this]
  then show ?thesis using assms(1) g u by (simp add: client_restore_def Let_def)
qed

text \<open>The entry a client gets at the shutdown, and what becomes of it.\<close>

definition shutdown_entry :: "u64 \<Rightarrow> 'k client \<Rightarrow> wall" where
  "shutdown_entry now cl = \<lparr>w_time = now,
     w_value = DisconnectByServer (ucast (s_expr_interval (cl_session cl)) + s_ttl (cl_session cl))\<rparr>"

definition log_error :: "(io_error, 'f) run \<Rightarrow> io_error option" where
  "log_error r = (case r of Some (Err e) \<Rightarrow> Some e | _ \<Rightarrow> None)"

definition dropped ::
    "bytes_crate \<Rightarrow> 'f file_ops \<Rightarrow> (rstring \<Rightarrow> io_error + 'f) \<Rightarrow> u64 \<Rightarrow> 'k client \<Rightarrow> 'k dropped" where
  "dropped B F open_log now cl = (cl, shutdown_entry now cl,
     log_error (log_session B F (open_log (cl_storage cl)) [shutdown_entry now cl]))"

lemma log_session_cases:
  obtains f where "log_session B F opened ws = ok f" | e where "log_session B F opened ws = err e"
proof (cases "log_session B F opened ws")
  case None
  then show ?thesis by (auto simp: log_session_def write_wall_def split: sum.splits prod.splits)
next
  case (Some r)
  have "r \<noteq> Panic" using Some by (auto simp: log_session_def write_wall_def split: sum.splits prod.splits)
  then show ?thesis using that Some by (cases r) simp_all
qed

lemma clear_pops_ok:
  assumes "\<forall>cl \<in> set cls. unat (s_ttl (cl_session cl)) < 2 ^ 63"
  shows "clear_pops checks B F open_log now cls = ok (map (dropped B F open_log now) cls)"
  using assms
proof (induction cls)
  case (Cons cl cls)
  have "unat (ucast (s_expr_interval (cl_session cl)) :: u64) + unat (s_ttl (cl_session cl)) < 2 ^ LENGTH(64)"
    using Cons.prems unat_u32_less [of "s_expr_interval (cl_session cl)"]
    by (simp add: unat_ucast_32_64)
  from uadd_Some(1) [OF this] have "expiration_time checks (cl_session cl) =
      Some (ucast (s_expr_interval (cl_session cl)) + s_ttl (cl_session cl))"
    by (simp add: expiration_time_def)
  moreover have "clear_pops checks B F open_log now cls = ok (map (dropped B F open_log now) cls)" using Cons by simp
  ultimately show ?case
    by (cases B F "open_log (cl_storage cl)" "[shutdown_entry now cl]" rule: log_session_cases)
      (simp_all add: dropped_def log_error_def flip: shutdown_entry_def)
qed simp

section \<open>Properties\<close>

text \<open>A new client's session has at least 60 seconds of keep-alive interval, but its first deadline
  is computed from the interval it asked for: a client that asks for none is alive for this second
  only.\<close>

theorem new_client_deadline:
  assumes "client_new checks B F now path opened conid socket clid k x lvl limit = ok (cl, files)"
    and "unat k \<le> 43690" and "unat now < 2 ^ 63"
  shows "60 \<le> s_keep_alive (cl_session cl) \<and>
    unat (s_ttl (cl_session cl)) = unat now + unat k + unat k div 2 \<and>
    (k = 0 \<longrightarrow> is_alive (cl_session cl) now \<and> (\<forall>t > now. \<not> is_alive (cl_session cl) t))"
proof (rule client_new_okE [OF assms(1)])
  fix g ttl
  assume g: "grace checks k = Some g" and t: "uadd checks now (ucast g) = Some ttl"
    and cl: "cl = \<lparr>cl_conid = conid, cl_clid = clid, cl_socket = socket, cl_protocol_level = lvl,
      cl_session = \<lparr>s_ttl = ttl, s_expr_interval = x, s_keep_alive = max k 60\<rparr>,
      cl_limit = limit, cl_storage = path\<rparr>"
  have g': "unat g = unat k + unat k div 2" using grace_exact [OF assms(2), of checks] g by auto
  have u: "unat (ucast g :: u64) = unat g" by (rule unat_ucast_16_64)
  then have "unat now + unat (ucast g :: u64) < 2 ^ LENGTH(64)"
    using assms(3) unat_u16_less [of g] by simp
  note add = uadd_Some [OF this]
  have ttl: "unat ttl = unat now + unat k + unat k div 2" using add t u g' by simp
  moreover have "ttl = now" if "k = 0" using ttl that by (simp add: word_unat_eq_iff)
  ultimately show ?thesis by (auto simp: cl is_alive_def not_le)
qed

definition fresh_dir :: "rstring \<Rightarrow> io_error + (bytes list \<times> bytes list)" where
  "fresh_dir name = Inr ([], [])"

lemma sample_new:
  "client_new True list_bytes script_files 1000 path fresh_dir conid socket clid 0 3600 5 limiter_default =
   ok (\<lparr>cl_conid = conid, cl_clid = clid, cl_socket = socket, cl_protocol_level = 5,
      cl_session = \<lparr>s_ttl = 1000, s_expr_interval = 3600, s_keep_alive = 60\<rparr>,
      cl_limit = limiter_default, cl_storage = path\<rparr>,
     (([], [wall_serialize list_bytes \<lparr>w_time = 1000, w_value = ClientCreated\<rparr> []]), ([], []),
      ([], [metadata_serialize list_bytes (client_metadata 60 3600 5 limiter_default) []])))"
proof -
  have "wall_serialize list_bytes \<lparr>w_time = 1000, w_value = ClientCreated\<rparr> [] \<noteq> []"
    by (simp add: wall_serialize_image)
  moreover have "metadata_serialize list_bytes (client_metadata 60 3600 5 limiter_default) [] \<noteq> []"
    by (simp add: metadata_serialize_image metadata_header_def)
  ultimately show ?thesis
    by (simp add: client_new_def grace_def uadd_def store_new_def write_new_def fresh_dir_def
        script_files_def Let_def max_def)
qed

theorem new_client_deadline_witness:
  "60 \<le> s_keep_alive \<lparr>s_ttl = 1000, s_expr_interval = 3600, s_keep_alive = 60\<rparr> \<and>
    unat (s_ttl \<lparr>s_ttl = 1000, s_expr_interval = 3600, s_keep_alive = 60\<rparr>) =
      unat (1000 :: u64) + unat (0 :: u16) + unat (0 :: u16) div 2 \<and>
    ((0 :: u16) = 0 \<longrightarrow> is_alive \<lparr>s_ttl = 1000, s_expr_interval = 3600, s_keep_alive = 60\<rparr> 1000 \<and>
      (\<forall>t > 1000. \<not> is_alive \<lparr>s_ttl = 1000, s_expr_interval = 3600, s_keep_alive = 60\<rparr> t))"
  using new_client_deadline [OF sample_new] by simp

text \<open>A client that is restored from the metadata its creation stored has the keep-alive interval,
  the expiry interval, the protocol level, the receive maximum and the packet size limit it was
  made with (a limit of zero counting as none), but its topic alias maximum is its receive
  maximum.\<close>

theorem restored_client_limits:
  assumes "store_restore B F now now' True True opened clid = ok (r, log)"
    and "rs_mdata r = client_metadata k x lvl limit"
    and "unat k \<le> 43690" and "unat now'' < 2 ^ 63"
  shows "\<exists>cl. fst (client_restore checks B F now now' now'' path True True opened clid
      \<lparr>uc_conid = Some conid, uc_socket = Some socket\<rparr>) = ok (cl, log) \<and>
    cl_clid cl = clid \<and> cl_socket cl = socket \<and> cl_protocol_level cl = lvl \<and>
    s_keep_alive (cl_session cl) = k \<and> s_expr_interval (cl_session cl) = x \<and>
    unat (s_ttl (cl_session cl)) = unat now'' + unat k + unat k div 2 \<and>
    l_receive_maximum (cl_limit cl) =
      (if l_receive_maximum limit = Some 0 then None else l_receive_maximum limit) \<and>
    l_maximum_packet_size (cl_limit cl) =
      (if l_maximum_packet_size limit = Some 0 then None else l_maximum_packet_size limit) \<and>
    l_topic_alias_maximum (cl_limit cl) = l_receive_maximum (cl_limit cl)"
  using client_restore_image [OF assms(1), of now'' checks path conid socket] assms(2-4)
  by (auto simp: client_metadata_def to_opt_default)

theorem restored_client_limits_witness:
  "\<exists>cl. fst (client_restore True list_bytes script_files 100 101 102 (lit ''x'') True True sample_dir
      (clid_new (lit ''x'')) \<lparr>uc_conid = Some 3, uc_socket = Some ()\<rparr>) =
      ok (cl, ([], [wall_serialize list_bytes \<lparr>w_time = 101, w_value = ClientRestored\<rparr> []])) \<and>
    cl_clid cl = clid_new (lit ''x'') \<and> cl_socket cl = () \<and> cl_protocol_level cl = 5 \<and>
    s_keep_alive (cl_session cl) = 60 \<and> s_expr_interval (cl_session cl) = 3600 \<and>
    unat (s_ttl (cl_session cl)) = unat (102 :: u64) + unat (60 :: u16) + unat (60 :: u16) div 2 \<and>
    l_receive_maximum (cl_limit cl) =
      (if l_receive_maximum (limiter_new None (Some 1024) (Some 7)) = Some 0 then None
       else l_receive_maximum (limiter_new None (Some 1024) (Some 7))) \<and>
    l_maximum_packet_size (cl_limit cl) =
      (if l_maximum_packet_size (limiter_new None (Some 1024) (Some 7)) = Some 0 then None
       else l_maximum_packet_size (limiter_new None (Some 1024) (Some 7))) \<and>
    l_topic_alias_maximum (cl_limit cl) = l_receive_maximum (cl_limit cl)"
  by (rule restored_client_limits [OF restore_sample])
    (simp_all add: sample_metadata_def client_metadata_def limiter_new_def unwrap_or_default_def)

text \<open>Clearing the registry drops every client, from the last to the first and as it is, after its
  disconnection by the server with the session's expiration time was logged, whether that could be
  written or not.\<close>

theorem clear_drops_all:
  assumes "\<forall>cl \<in> set clients. unat (s_ttl (cl_session cl)) < 2 ^ 63"
  shows "clients_clear checks B F open_log now clients = ok (map (dropped B F open_log now) (rev clients), [])"
  using clear_pops_ok [of "rev clients" checks B F open_log now] assms by (simp add: clients_clear_def)

theorem clear_drops_all_witness:
  "clients_clear True list_bytes F open_log 50 sample_registry =
    ok (map (dropped list_bytes F open_log 50) (rev sample_registry), [])"
  by (rule clear_drops_all) (simp add: sample_registry_def sample_client_def)

text \<open>A client that is killed when its connection closes stays dead: no later attempt to keep it alive
  changes it, and it is alive at none of those times.\<close>

theorem killed_client_stays_dead:
  assumes "0 < now" and "\<forall>t \<in> set ts. now \<le> t"
  shows "\<exists>c'. client_kill checks c now = Some c' \<and> client_attempts checks c' ts = ok c' \<and>
    (\<forall>t \<in> set ts. \<not> client_is_alive c' t)"
  using assms by (rule client_ctl.killed_attempts)

theorem killed_client_stays_dead_witness:
  "\<exists>c'. client_kill True (sample_client ''a'' 100) 50 = Some c' \<and> client_attempts True c' [50, 70] = ok c' \<and>
    (\<forall>t \<in> set [50, 70]. \<not> client_is_alive c' t)"
  by (rule killed_client_stays_dead) simp_all

end
