(* ===== verification/Trie.thy ===== *)
theory Trie
  imports Prelude "HOL-Library.AList"
begin

text \<open>
  The prefix tree of \<open>ds/trie.rs\<close>.  A pointer to a node is \<open>Null\<close> or \<open>Child\<close> with
  the node's hash map (an association list, whose order stands for the iteration order) and its
  subscriber slot.  Following a null pointer at the end of a walk is a memory fault: the result
  \<open>None\<close> of the operations.  The weak compare-and-exchange of \<open>set_subscriber\<close> may fail
  spuriously; the argument \<open>cas\<close> says whether it goes through when the slot is empty.

  The operations are shown on single-threaded executions: one operation runs to its end before
  the next starts.  What threads do to the tree in between each other's steps is theory
  \<open>TrieThreads\<close>.
\<close>

datatype 'a child = Null | Child (child: "(rstring \<times> 'a child) list") (slot: "'a option")

section \<open>Operations on one node\<close>

definition child_new :: "'a child" where
  "child_new = Child [] None"

fun set_subscriber :: "bool \<Rightarrow> 'a \<Rightarrow> 'a child \<Rightarrow> (bool \<times> 'a child) option" where
  "set_subscriber cas subscriber Null = None"
| "set_subscriber cas subscriber (Child cs s) =
     (if s = None \<and> cas then Some (True, Child cs (Some subscriber)) else Some (False, Child cs s))"

text \<open>The argument \<open>ne\<close> is \<open>PartialEq::ne\<close> of the value type.\<close>

fun delete_subscriber ::
    "('a \<Rightarrow> 'a \<Rightarrow> bool) \<Rightarrow> 'a \<Rightarrow> 'a child \<Rightarrow> (bool \<times> 'a child) option" where
  "delete_subscriber ne subscriber Null = None"
| "delete_subscriber ne subscriber (Child cs s) =
     (case s of
        None \<Rightarrow> Some (False, Child cs s)
      | Some cur \<Rightarrow>
          if ne cur subscriber then Some (False, Child cs s) else Some (True, Child cs None))"

fun get_subscriber :: "'a child \<Rightarrow> ('a option \<times> 'a child) option" where
  "get_subscriber Null = None"
| "get_subscriber (Child cs s) = Some (s, Child cs s)"

section \<open>Operations on the tree\<close>

definition slash :: u8 where
  "slash = 0x2F"

text \<open>\<open>topic.split('/')\<close>: the parts between the slashes, at least one.\<close>

fun split_slash :: "rstring \<Rightarrow> rstring list" where
  "split_slash [] = [[]]"
| "split_slash (c # cs) =
     (if c = slash then [] # split_slash cs
      else case split_slash cs of p # ps \<Rightarrow> (c # p) # ps | [] \<Rightarrow> [[c]])"

text \<open>
  The walk of \<open>insert\<close>: a null pointer is replaced by a new node and a missing branch by a new
  branch, and the same part is looked at again; at the end the subscriber is set.
\<close>

fun trie_insert_parts ::
    "bool \<Rightarrow> 'a \<Rightarrow> rstring list \<Rightarrow> 'a child \<Rightarrow> (bool \<times> 'a child) option" where
  "trie_insert_parts cas v [] cur = set_subscriber cas v cur"
| "trie_insert_parts cas v (part # parts) cur =
     (case (if cur = Null then child_new else cur) of
        Null \<Rightarrow> None
      | Child cs s \<Rightarrow>
          let branch = (case map_of cs part of Some b \<Rightarrow> b | None \<Rightarrow> child_new)
          in map_option (\<lambda>(r, b). (r, Child (AList.update part b cs) s))
               (trie_insert_parts cas v parts branch))"

definition trie_new :: "'a child" where
  "trie_new = child_new"

definition trie_insert :: "bool \<Rightarrow> 'a child \<Rightarrow> rstring \<Rightarrow> 'a \<Rightarrow> (bool \<times> 'a child) option" where
  "trie_insert cas root topic v = trie_insert_parts cas v (split_slash topic) root"

text \<open>
  The walk of \<open>get\<close>: the function is applied to the node at the end, whose slot it may change.
\<close>

fun trie_get_parts ::
    "('a child \<Rightarrow> ('r \<times> 'a child) option) \<Rightarrow> rstring list \<Rightarrow> 'a child \<Rightarrow>
       ('r option \<times> 'a child) option" where
  "trie_get_parts f [] cur = map_option (\<lambda>(r, n). (Some r, n)) (f cur)"
| "trie_get_parts f (part # parts) cur =
     (case cur of
        Null \<Rightarrow> Some (None, cur)
      | Child cs s \<Rightarrow>
          (case map_of cs part of
             None \<Rightarrow> Some (None, cur)
           | Some branch \<Rightarrow>
               map_option (\<lambda>(r, b). (r, Child (AList.update part b cs) s))
                 (trie_get_parts f parts branch)))"

definition trie_get_val :: "'a child \<Rightarrow> rstring \<Rightarrow> 'a option option" where
  "trie_get_val root topic =
     map_option (\<lambda>(r, _). case r of Some x \<Rightarrow> x | None \<Rightarrow> None)
       (trie_get_parts get_subscriber (split_slash topic) root)"

definition trie_remove ::
    "('a \<Rightarrow> 'a \<Rightarrow> bool) \<Rightarrow> 'a child \<Rightarrow> rstring \<Rightarrow> 'a \<Rightarrow> (bool option \<times> 'a child) option" where
  "trie_remove ne root topic v = trie_get_parts (delete_subscriber ne v) (split_slash topic) root"

text \<open>
  \<open>dfs_empty_and_remove\<close>: the branches that are empty after their own cleaning are taken out;
  the result says whether nothing is left of the node itself.
\<close>

fun dfs_empty_and_remove :: "'a child \<Rightarrow> bool \<times> 'a child" where
  "dfs_empty_and_remove Null = (True, Null)"
| "dfs_empty_and_remove (Child cs s) =
     (let visited = map (\<lambda>(key, c). (key, dfs_empty_and_remove c)) cs;
          cs' = map (\<lambda>(key, _, c). (key, c)) (filter (\<lambda>(key, emp, _). \<not> emp) visited)
      in (cs' = [] \<and> s = None, Child cs' s))"

definition clean_branch :: "'a child \<Rightarrow> 'a child" where
  "clean_branch root = snd (dfs_empty_and_remove root)"

text \<open>
  \<open>dfs_drop\<close>, the destructor: every node below is dropped, the subscriber is deleted (compared with a
  clone of itself: \<open>ne\<close> is the inequality of the values), the branches are taken out.
\<close>

fun dfs_drop :: "('a \<Rightarrow> 'a \<Rightarrow> bool) \<Rightarrow> 'a child \<Rightarrow> 'a child" where
  "dfs_drop ne Null = Null"
| "dfs_drop ne (Child cs s) =
     (let visited = map (\<lambda>(key, c). (key, dfs_drop ne c)) cs;
          node = Child visited s;
          node = (case get_subscriber node of
              Some (Some sub, _) \<Rightarrow>
                (case delete_subscriber ne sub node of Some (_, n) \<Rightarrow> n | None \<Rightarrow> node)
            | _ \<Rightarrow> node)
      in case node of Null \<Rightarrow> Null | Child cs' s' \<Rightarrow> Child (fold (AList.delete \<circ> fst) cs cs') s')"

section \<open>Well-formed trees and their abstraction\<close>

text \<open>No null pointer, and one entry per key in every hash map.\<close>

fun trie_wf :: "'a child \<Rightarrow> bool" where
  "trie_wf Null = False"
| "trie_wf (Child cs s) \<longleftrightarrow> distinct (map fst cs) \<and> (\<forall>(key, c) \<in> set cs. trie_wf c)"

text \<open>The subscriber at a path.\<close>

fun sub_at :: "'a child \<Rightarrow> rstring list \<Rightarrow> 'a option" where
  "sub_at Null ps = None"
| "sub_at (Child cs s) [] = s"
| "sub_at (Child cs s) (p # ps) = (case map_of cs p of None \<Rightarrow> None | Some b \<Rightarrow> sub_at b ps)"

lemma sub_at_Child: "sub_at (Child cs s) ps =
    (case ps of [] \<Rightarrow> s | q # qs \<Rightarrow> (case map_of cs q of None \<Rightarrow> None | Some b \<Rightarrow> sub_at b qs))"
  by (cases ps) simp_all

lemma sub_at_child_new [simp]: "sub_at child_new ps = None"
  by (cases ps) (simp_all add: child_new_def)

lemma trie_wf_child_new [simp]: "trie_wf child_new"
  by (simp add: child_new_def)

lemma trie_wf_not_Null: "trie_wf t \<Longrightarrow> t \<noteq> Null"
  by auto

lemma trie_wf_branch: "trie_wf (Child cs s) \<Longrightarrow> map_of cs p = Some b \<Longrightarrow> trie_wf b"
  by (auto dest: map_of_SomeD)

lemma set_update_subset: "set (AList.update k v al) \<subseteq> insert (k, v) (set al)"
  by (induction al) auto

lemma trie_wf_update:
  "trie_wf (Child cs s) \<Longrightarrow> trie_wf b \<Longrightarrow> trie_wf (Child (AList.update p b cs) s)"
  using set_update_subset [of p b cs] by (auto simp: distinct_update)

subsection \<open>Insertion\<close>

lemma trie_insert_parts_wf:
  assumes "trie_wf t"
  shows "\<exists>r t'. trie_insert_parts cas v ps t = Some (r, t') \<and> trie_wf t' \<and>
    (r \<longleftrightarrow> cas \<and> sub_at t ps = None) \<and>
    (\<forall>qs. sub_at t' qs = (if r \<and> qs = ps then Some v else sub_at t qs))"
  using assms
proof (induction ps arbitrary: t)
  case Nil
  then obtain cs s where t: "t = Child cs s" by (cases t) auto
  show ?case using Nil t by (auto simp: sub_at_Child split: list.splits)
next
  case (Cons p ps)
  then obtain cs s where t: "t = Child cs s" by (cases t) auto
  define b where "b = (case map_of cs p of Some b \<Rightarrow> b | None \<Rightarrow> child_new)"
  have b: "trie_wf b" "\<And>qs. sub_at b qs = (case map_of cs p of None \<Rightarrow> None | Some b \<Rightarrow> sub_at b qs)"
    using Cons.prems t trie_wf_branch [of cs s p] by (auto simp: b_def split: option.splits)
  obtain r b' where b': "trie_insert_parts cas v ps b = Some (r, b')" "trie_wf b'"
    "r \<longleftrightarrow> cas \<and> sub_at b ps = None"
    "\<And>qs. sub_at b' qs = (if r \<and> qs = ps then Some v else sub_at b qs)"
    using Cons.IH [OF b(1)] by blast
  have "trie_insert_parts cas v (p # ps) t = Some (r, Child (AList.update p b' cs) s)"
    using b'(1) by (simp add: t b_def Let_def)
  moreover have "trie_wf (Child (AList.update p b' cs) s)"
    using Cons.prems t b'(2) by (blast intro: trie_wf_update)
  moreover have "sub_at (Child (AList.update p b' cs) s) qs =
      (if r \<and> qs = p # ps then Some v else sub_at t qs)" for qs
    by (cases qs) (auto simp: t update_conv b' b(2) split: option.splits)
  moreover have "r \<longleftrightarrow> cas \<and> sub_at t (p # ps) = None" using b'(3) b(2) t by simp
  ultimately show ?case by blast
qed

subsection \<open>Walks\<close>

lemma trie_get_parts_node:
  assumes "trie_wf t" and "\<And>cs s. \<exists>r s'. f (Child cs s) = Some (r, Child cs s')"
  shows "\<exists>r t'. trie_get_parts f ps t = Some (r, t') \<and> trie_wf t' \<and>
    (\<forall>qs. qs \<noteq> ps \<longrightarrow> sub_at t' qs = sub_at t qs) \<and>
    (r = None \<longrightarrow> sub_at t ps = None \<and> t' = t) \<and>
    (\<forall>x. r = Some x \<longrightarrow> (\<exists>cs. f (Child cs (sub_at t ps)) = Some (x, Child cs (sub_at t' ps))))"
  using assms(1)
proof (induction ps arbitrary: t)
  case Nil
  then obtain cs s where t: "t = Child cs s" by (cases t) auto
  obtain x s' where f: "f (Child cs s) = Some (x, Child cs s')" using assms(2) by blast
  show ?case using Nil.prems f t by (auto simp: sub_at_Child split: list.splits)
next
  case (Cons p ps)
  then obtain cs s where t: "t = Child cs s" by (cases t) auto
  show ?case
  proof (cases "map_of cs p")
    case None
    then show ?thesis using Cons.prems t by simp
  next
    case (Some b)
    then have "trie_wf b" using Cons.prems t trie_wf_branch by blast
    from Cons.IH [OF this] obtain r b' where b': "trie_get_parts f ps b = Some (r, b')" "trie_wf b'"
      "\<And>qs. qs \<noteq> ps \<Longrightarrow> sub_at b' qs = sub_at b qs"
      "r = None \<Longrightarrow> sub_at b ps = None \<and> b' = b"
      "\<And>x. r = Some x \<Longrightarrow> \<exists>cs. f (Child cs (sub_at b ps)) = Some (x, Child cs (sub_at b' ps))"
      by blast
    have upd: "AList.update p b cs = cs" using Some by (induction cs) (auto split: if_splits)
    have "trie_wf (Child (AList.update p b' cs) s)"
      using Cons.prems t b'(2) by (blast intro: trie_wf_update)
    moreover have "sub_at (Child (AList.update p b' cs) s) qs = sub_at t qs" if "qs \<noteq> p # ps" for qs
      using that Some by (cases qs) (auto simp: t update_conv b'(3))
    ultimately show ?thesis
      using b'(1,4,5) Some upd by (auto simp: t update_conv)
  qed
qed

lemma trie_get_val_sub_at:
  assumes "trie_wf t"
  shows "trie_get_val t topic = Some (sub_at t (split_slash topic))"
proof -
  have "\<exists>r s'. get_subscriber (Child cs s) = Some (r, Child cs s')" for cs :: "(rstring \<times> 'a child) list" and s
    by simp
  from trie_get_parts_node [where f = get_subscriber, OF assms this, of "split_slash topic"]
  show ?thesis by (auto simp: trie_get_val_def split: option.splits)
qed

subsection \<open>Topics and paths\<close>

definition join_slash :: "rstring list \<Rightarrow> rstring" where
  "join_slash ps = tl (concat (map (\<lambda>p. slash # p) ps))"

lemma split_slash_nonempty [simp]: "split_slash s \<noteq> []"
  by (cases s) (auto split: list.splits)

lemma join_split [simp]: "join_slash (split_slash s) = s"
proof (induction s)
  case Nil
  then show ?case by (simp add: join_slash_def)
next
  case (Cons c cs)
  obtain p ps where "split_slash cs = p # ps" by (cases "split_slash cs") auto
  with Cons show ?case by (auto simp: join_slash_def)
qed

lemma split_slash_inj [simp]: "split_slash a = split_slash b \<longleftrightarrow> a = b"
  by (metis join_split)

subsection \<open>Removal\<close>

lemma trie_remove_spec:
  assumes "trie_wf t"
  shows "\<exists>r t'. trie_remove ne t topic v = Some (r, t') \<and> trie_wf t' \<and>
    (r = Some True \<longleftrightarrow> (\<exists>cur. sub_at t (split_slash topic) = Some cur \<and> \<not> ne cur v)) \<and>
    (\<forall>ps. sub_at t' ps = (if r = Some True \<and> ps = split_slash topic then None else sub_at t ps))"
proof -
  let ?f = "delete_subscriber ne v" and ?ps = "split_slash topic"
  have "\<exists>r s'. ?f (Child cs s) = Some (r, Child cs s')" for cs s
    by (cases s) auto
  from trie_get_parts_node [where f = ?f, OF assms this, of ?ps]
  obtain r t' where r: "trie_get_parts ?f ?ps t = Some (r, t')" "trie_wf t'"
    "\<And>qs. qs \<noteq> ?ps \<Longrightarrow> sub_at t' qs = sub_at t qs"
    "r = None \<Longrightarrow> sub_at t ?ps = None \<and> t' = t"
    "\<And>x. r = Some x \<Longrightarrow> \<exists>cs. ?f (Child cs (sub_at t ?ps)) = Some (x, Child cs (sub_at t' ?ps))"
    by blast
  have "(r = Some True \<longleftrightarrow> (\<exists>cur. sub_at t ?ps = Some cur \<and> \<not> ne cur v)) \<and>
      sub_at t' ?ps = (if r = Some True then None else sub_at t ?ps)"
  proof (cases r)
    case None
    then show ?thesis using r(4) by simp
  next
    case (Some x)
    from r(5) [OF this] show ?thesis using Some by (auto split: option.splits if_splits)
  qed
  then have "\<forall>ps. sub_at t' ps = (if r = Some True \<and> ps = ?ps then None else sub_at t ps)"
    using r(3) by (metis (full_types))
  then show ?thesis
    using r(1,2) \<open>_ \<and> _\<close> unfolding trie_remove_def by blast
qed

subsection \<open>Cleaning\<close>

text \<open>Every branch leads to a subscriber: no node below the root is empty.\<close>

fun pruned :: "'a child \<Rightarrow> bool" where
  "pruned Null = True"
| "pruned (Child cs s) \<longleftrightarrow>
     (\<forall>(key, c) \<in> set cs. pruned c \<and> (case c of Null \<Rightarrow> False | Child ds u \<Rightarrow> ds \<noteq> [] \<or> u \<noteq> None))"

text \<open>The branches that stay, by recursion on the list of branches.\<close>

fun kept :: "(rstring \<times> 'a child) list \<Rightarrow> (rstring \<times> 'a child) list" where
  "kept [] = []"
| "kept ((p, c) # cs) =
     (if fst (dfs_empty_and_remove c) then kept cs
      else (p, snd (dfs_empty_and_remove c)) # kept cs)"

lemma dfs_kept: "dfs_empty_and_remove (Child cs s) = (kept cs = [] \<and> s = None, Child (kept cs) s)"
proof -
  have "map (\<lambda>(key, _, c). (key, c))
     (filter (\<lambda>(key, emp, _). \<not> emp) (map (\<lambda>(key, c). (key, dfs_empty_and_remove c)) cs)) = kept cs"
    by (induction cs rule: kept.induct) (simp_all add: case_prod_unfold)
  then show ?thesis by (simp only: dfs_empty_and_remove.simps Let_def)
qed

lemma set_kept: "(p, c') \<in> set (kept cs) \<Longrightarrow>
    \<exists>c. (p, c) \<in> set cs \<and> dfs_empty_and_remove c = (False, c')"
proof (induction cs rule: kept.induct)
  case (2 q c cs)
  then show ?case by (cases "dfs_empty_and_remove c") (auto split: if_splits)
qed simp

lemma keys_kept: "fst ` set (kept cs) \<subseteq> fst ` set cs"
  by (force dest: set_kept)

lemma distinct_kept: "distinct (map fst cs) \<Longrightarrow> distinct (map fst (kept cs))"
proof (induction cs rule: kept.induct)
  case (2 p c cs)
  then show ?case using keys_kept [of cs] by auto
qed simp

lemma map_of_kept:
  "distinct (map fst cs) \<Longrightarrow> map_of (kept cs) p =
     (case map_of cs p of None \<Rightarrow> None
      | Some c \<Rightarrow> if fst (dfs_empty_and_remove c) then None else Some (snd (dfs_empty_and_remove c)))"
proof (induction cs rule: kept.induct)
  case (2 q c cs)
  have "map_of (kept cs) q = None" using keys_kept [of cs] 2 by (auto simp: map_of_eq_None_iff)
  then show ?case using 2 by auto
qed simp

lemma dfs_spec:
  assumes "trie_wf t"
  shows "trie_wf (snd (dfs_empty_and_remove t)) \<and>
    (\<forall>ps. sub_at (snd (dfs_empty_and_remove t)) ps = sub_at t ps) \<and>
    (fst (dfs_empty_and_remove t) \<longrightarrow> (\<forall>ps. sub_at t ps = None)) \<and>
    pruned (snd (dfs_empty_and_remove t)) \<and>
    (\<not> fst (dfs_empty_and_remove t) \<longrightarrow>
       (case snd (dfs_empty_and_remove t) of Null \<Rightarrow> False | Child ds u \<Rightarrow> ds \<noteq> [] \<or> u \<noteq> None))"
  using assms
proof (induction t rule: dfs_empty_and_remove.induct)
  case 1
  then show ?case by simp
next
  case (2 cs s)
  note dfs = dfs_kept [of cs s]
  have distinct: "distinct (map fst cs)" using "2.prems" by simp
  have IH: "trie_wf (snd (dfs_empty_and_remove c)) \<and>
    (\<forall>ps. sub_at (snd (dfs_empty_and_remove c)) ps = sub_at c ps) \<and>
    (fst (dfs_empty_and_remove c) \<longrightarrow> (\<forall>ps. sub_at c ps = None)) \<and>
    pruned (snd (dfs_empty_and_remove c)) \<and>
    (\<not> fst (dfs_empty_and_remove c) \<longrightarrow>
       (case snd (dfs_empty_and_remove c) of Null \<Rightarrow> False | Child ds u \<Rightarrow> ds \<noteq> [] \<or> u \<noteq> None))"
    if "(p, c) \<in> set cs" for p c
    using "2.IH" [OF that] "2.prems" that by auto
  have kept: "trie_wf c' \<and> pruned c' \<and> (case c' of Null \<Rightarrow> False | Child ds u \<Rightarrow> ds \<noteq> [] \<or> u \<noteq> None)"
    if "(p, c') \<in> set (kept cs)" for p c'
    using set_kept [OF that] IH by fastforce
  have wf: "trie_wf (Child (kept cs) s)" and pr: "pruned (Child (kept cs) s)"
    using kept distinct_kept [OF distinct] by auto
  have subs: "sub_at (Child (kept cs) s) ps = sub_at (Child cs s) ps" for ps
  proof (cases ps)
    case (Cons q qs)
    show ?thesis
    proof (cases "map_of cs q")
      case (Some c)
      then have "(q, c) \<in> set cs" by (rule map_of_SomeD)
      from IH [OF this] show ?thesis
        using Some Cons map_of_kept [OF distinct, of q]
        by (cases "dfs_empty_and_remove c") (auto split: if_splits)
    qed (use Cons map_of_kept [OF distinct, of q] in simp)
  qed simp
  have "sub_at (Child cs s) ps = None" if "kept cs = []" "s = None" for ps
    using subs [of ps] that by (cases ps) auto
  then show ?case unfolding dfs fst_conv snd_conv using wf subs pr by auto
qed

lemma clean_branch_spec:
  assumes "trie_wf t"
  shows "trie_wf (clean_branch t)" and "sub_at (clean_branch t) ps = sub_at t ps"
    and "pruned (clean_branch t)"
  using dfs_spec [OF assms] by (simp_all add: clean_branch_def)

section \<open>The contract of a topic store\<close>

text \<open>
  What the router relies on.  An insertion that goes through makes the value the topic's and touches
  no other topic; it goes through exactly when the topic is free and the exchange does not fail; a
  lookup gives the topic's value.
\<close>

locale topic_store =
  fixes store_wf :: "'s \<Rightarrow> bool"
    and value_of :: "'s \<Rightarrow> rstring \<Rightarrow> 'v option"
    and ins :: "bool \<Rightarrow> 's \<Rightarrow> rstring \<Rightarrow> 'v \<Rightarrow> (bool \<times> 's) option"
    and get :: "'s \<Rightarrow> rstring \<Rightarrow> 'v option option"
  assumes ins_law: "store_wf t \<Longrightarrow> \<exists>r t'. ins cas t k v = Some (r, t') \<and> store_wf t' \<and>
      (r \<longleftrightarrow> cas \<and> value_of t k = None) \<and>
      (\<forall>j. value_of t' j = (if r \<and> j = k then Some v else value_of t j))"
    and get_law: "store_wf t \<Longrightarrow> get t k = Some (value_of t k)"
begin

lemma ins_taken:
  assumes "store_wf t" and "value_of t k = Some w"
  shows "\<exists>t'. ins cas t k v = Some (False, t') \<and> store_wf t' \<and> (\<forall>j. get t' j = get t j)"
  using ins_law [OF assms(1), of cas k v] assms get_law by fastforce

lemma ins_free:
  assumes "store_wf t" and "value_of t k = None"
  shows "\<exists>t'. ins cas t k v = Some (cas, t') \<and> store_wf t' \<and>
    (\<forall>j. get t' j = (if cas \<and> j = k then Some (Some v) else get t j))"
  using ins_law [OF assms(1), of cas k v] assms get_law by fastforce

end

lemma trie_insert_spec:
  assumes "trie_wf t"
  shows "\<exists>r t'. trie_insert cas t topic v = Some (r, t') \<and> trie_wf t' \<and>
    (r \<longleftrightarrow> cas \<and> sub_at t (split_slash topic) = None) \<and>
    (\<forall>j. sub_at t' (split_slash j) =
       (if r \<and> j = topic then Some v else sub_at t (split_slash j)))"
proof -
  from trie_insert_parts_wf [OF assms, of cas v "split_slash topic"]
  obtain r t' where "trie_insert_parts cas v (split_slash topic) t = Some (r, t')" "trie_wf t'"
    "r \<longleftrightarrow> cas \<and> sub_at t (split_slash topic) = None"
    "\<And>qs. sub_at t' qs = (if r \<and> qs = split_slash topic then Some v else sub_at t qs)"
    by blast
  then show ?thesis by (simp add: trie_insert_def)
qed

interpretation trie: topic_store trie_wf "\<lambda>t k. sub_at t (split_slash k)" trie_insert trie_get_val
  by unfold_locales (blast intro: trie_insert_spec, rule trie_get_val_sub_at)

section \<open>Properties\<close>

text \<open>C15: Inserting at a topic that has no subscriber yet succeeds exactly if the weak exchange on its slot
  does not fail spuriously.  When it succeeds the value is the topic's, when the exchange fails the
  insertion returns false and the topic stays free; either way the tree is well formed and the lookup of
  no other topic changes, prefixes and extensions of the topic included.\<close>

theorem trie_insert_free:
  assumes "trie_wf t" and "trie_get_val t topic = Some None"
  shows "\<exists>t'. trie_insert cas t topic v = Some (cas, t') \<and> trie_wf t' \<and>
    (\<forall>j. trie_get_val t' j = (if cas \<and> j = topic then Some (Some v) else trie_get_val t j))"
  using trie.ins_free [OF assms(1), of topic cas v] trie.get_law [OF assms(1), of topic] assms(2) by simp

theorem trie_insert_free_witness:
  "\<exists>t'. trie_insert True trie_new (lit ''home/kitchen'') (7::nat) = Some (True, t') \<and> trie_wf t' \<and>
    (\<forall>j. trie_get_val t' j =
       (if True \<and> j = lit ''home/kitchen'' then Some (Some 7) else trie_get_val trie_new j))"
  by (rule trie_insert_free) (simp_all add: trie_new_def trie_get_val_sub_at)

text \<open>Inserting at a topic that has a subscriber is refused whoever inserts, and no lookup
  changes: the first subscriber keeps the topic.\<close>

theorem trie_insert_taken:
  assumes "trie_wf t" and "trie_get_val t topic = Some (Some w)"
  shows "\<exists>t'. trie_insert cas t topic v = Some (False, t') \<and> trie_wf t' \<and>
    (\<forall>j. trie_get_val t' j = trie_get_val t j)"
  using trie.ins_taken [OF assms(1), of topic w cas v] trie.get_law [OF assms(1), of topic] assms(2)
  by simp

lemma wf_sample [simp]: "trie_wf (Child [(p, Child [] u)] s)"
  by simp

theorem trie_insert_taken_witness:
  "\<exists>t'. trie_insert True (Child [(lit ''a'', Child [] (Some (1::nat)))] None) (lit ''a'') 2 =
      Some (False, t') \<and> trie_wf t' \<and>
    (\<forall>j. trie_get_val t' j = trie_get_val (Child [(lit ''a'', Child [] (Some 1))] None) j)"
  by (rule trie_insert_taken [where w = 1])
    (simp_all add: trie_get_val_sub_at lit_def slash_def)

text \<open>C16: Removing takes the subscriber off exactly the topic given, and only when the topic has one
  that is not \<open>ne\<close> to the value given; every other topic keeps its subscriber, and so does this one
  when the removal is refused.\<close>

theorem trie_remove_exact:
  assumes "trie_wf t"
  shows "\<exists>r t'. trie_remove ne t topic v = Some (r, t') \<and> trie_wf t' \<and>
    (r = Some True \<longleftrightarrow> (\<exists>cur. trie_get_val t topic = Some (Some cur) \<and> \<not> ne cur v)) \<and>
    (\<forall>j. trie_get_val t' j =
       (if r = Some True \<and> j = topic then Some None else trie_get_val t j))"
proof -
  obtain r t' where "trie_remove ne t topic v = Some (r, t')" and wf: "trie_wf t'"
    and "r = Some True \<longleftrightarrow> (\<exists>cur. sub_at t (split_slash topic) = Some cur \<and> \<not> ne cur v)"
    and "\<And>ps. sub_at t' ps = (if r = Some True \<and> ps = split_slash topic then None else sub_at t ps)"
    using trie_remove_spec [OF assms] by blast
  then show ?thesis
    by (intro exI [of _ r] exI [of _ t'])
      (auto simp: trie_get_val_sub_at [OF assms] trie_get_val_sub_at [OF wf])
qed

theorem trie_remove_exact_witness:
  "\<exists>r t'. trie_remove (\<noteq>) (Child [(lit ''a'', Child [] (Some (1::nat)))] None) (lit ''a'') 1 =
      Some (r, t') \<and> trie_wf t' \<and>
    (r = Some True \<longleftrightarrow> (\<exists>cur. trie_get_val (Child [(lit ''a'', Child [] (Some (1::nat)))] None) (lit ''a'') =
       Some (Some cur) \<and> \<not> cur \<noteq> 1)) \<and>
    (\<forall>j. trie_get_val t' j = (if r = Some True \<and> j = lit ''a'' then Some None
       else trie_get_val (Child [(lit ''a'', Child [] (Some 1))] None) j))"
  by (rule trie_remove_exact) simp

text \<open>C17: Cleaning keeps the tree well formed and every lookup as it was, and leaves no node below the
  root without a subscriber and without branches.\<close>

theorem clean_branch_keeps:
  assumes "trie_wf t"
  shows "trie_wf (clean_branch t) \<and> pruned (clean_branch t) \<and>
    (\<forall>topic. trie_get_val (clean_branch t) topic = trie_get_val t topic)"
  using clean_branch_spec [OF assms] assms by (simp add: trie_get_val_sub_at)

theorem clean_branch_keeps_witness:
  "trie_wf (clean_branch (Child [([], Child [] (None::nat option))] None)) \<and>
   pruned (clean_branch (Child [([], Child [] (None::nat option))] None)) \<and>
   (\<forall>topic. trie_get_val (clean_branch (Child [([], Child [] (None::nat option))] None)) topic =
      trie_get_val (Child [([], Child [] None)] None) topic)"
  by (rule clean_branch_keeps) simp

lemma fold_delete_keys: "fold (AList.delete \<circ> fst) cs xs = filter (\<lambda>kv. fst kv \<notin> fst ` set cs) xs"
proof (induction cs arbitrary: xs)
  case (Cons c cs)
  have "AList.delete (fst c) xs = filter (\<lambda>kv. fst kv \<noteq> fst c) xs"
    by (simp add: AList.delete_eq) (rule filter_cong, auto)
  then show ?case using Cons by (simp add: conj_commute)
qed simp

text \<open>Dropping the tree leaves the root without branches and without a subscriber.\<close>

theorem trie_drop_empties:
  assumes "\<And>x. \<not> ne x x"
  shows "dfs_drop ne (Child cs s) = Child [] None"
proof -
  have "filter (\<lambda>kv. fst kv \<notin> fst ` set cs) (map (\<lambda>(key, c). (key, dfs_drop ne c)) cs) = []"
    by (force simp: filter_empty_conv)
  then show ?thesis using assms by (cases s) (simp_all add: fold_delete_keys)
qed

end
