(* ===== verification/Router.thy ===== *)
theory Router
  imports Trie ClientId Subscribe
begin

text \<open>
  The topic router of \<open>message_broker/router.rs\<close>: subscriptions are inserted in the prefix
  tree of theory \<open>Trie\<close>, one after the other, and a topic is routed by looking it up.  The
  loop takes the store's insertion as an argument, so that its correctness is proved once from the
  contract \<open>topic_store\<close>; the router is its instance on the tree.  \<open>cas i\<close> says whether the
  exchange of the \<open>i\<close>-th insertion goes through when the slot is empty.
\<close>

record subscriber_instance =
  si_clid :: client_id
  si_max_qos :: service_level

definition si_eq :: "subscriber_instance \<Rightarrow> subscriber_instance \<Rightarrow> bool" where
  "si_eq a b = clid_eq (si_clid a) (si_clid b)"

definition si_ne :: "subscriber_instance \<Rightarrow> subscriber_instance \<Rightarrow> bool" where
  "si_ne a b = (\<not> si_eq a b)"

text \<open>One round per subscription: insert the instance, whose result is dropped, then acknowledge.\<close>

fun subscribe_loop ::
    "(bool \<Rightarrow> 's \<Rightarrow> rstring \<Rightarrow> subscriber_instance \<Rightarrow> (bool \<times> 's) option) \<Rightarrow> (nat \<Rightarrow> bool) \<Rightarrow> nat \<Rightarrow>
       's \<Rightarrow> client_id \<Rightarrow> subscribe list \<Rightarrow> sub_ack_result list \<Rightarrow> (sub_ack_result list \<times> 's) option" where
  "subscribe_loop ins cas i t clid [] res = Some (res, t)"
| "subscribe_loop ins cas i t clid (sub # subs) res =
     (let instance = \<lparr>si_clid = clid, si_max_qos = sub_max_qos sub\<rparr> in
      case ins (cas i) t (sub_topic sub) instance of
        None \<Rightarrow> None
      | Some (_, t) \<Rightarrow> subscribe_loop ins cas (Suc i) t clid subs (res @ [Inr (sub_max_qos sub)]))"

definition router_subscribe ::
    "(nat \<Rightarrow> bool) \<Rightarrow> subscriber_instance child \<Rightarrow> client_id \<Rightarrow> subscribe list \<Rightarrow>
       ((malformed + sub_ack_result list) \<times> subscriber_instance child) option" where
  "router_subscribe cas t clid subs =
     map_option (\<lambda>(res, t). (Inr res, t)) (subscribe_loop trie_insert cas 0 t clid subs [])"

definition route :: "subscriber_instance child \<Rightarrow> rstring \<Rightarrow> subscriber_instance option option" where
  "route t topic = trie_get_val t topic"

section \<open>What a round of subscriptions leaves\<close>

text \<open>The first subscription to a topic whose exchange goes through.\<close>

fun granted :: "(nat \<Rightarrow> bool) \<Rightarrow> nat \<Rightarrow> subscribe list \<Rightarrow> rstring \<Rightarrow> service_level option" where
  "granted cas i [] topic = None"
| "granted cas i (sub # subs) topic =
     (if cas i \<and> sub_topic sub = topic then Some (sub_max_qos sub) else granted cas (Suc i) subs topic)"

lemma granted_all: "map_option f (granted (\<lambda>_. True) i subs topic) =
    map_option (\<lambda>s. f (sub_max_qos s)) (find (\<lambda>s. sub_topic s = topic) subs)"
  by (induction subs arbitrary: i) auto

lemma granted_None: "topic \<notin> sub_topic ` set subs \<Longrightarrow> granted cas i subs topic = None"
  by (induction subs arbitrary: i) auto

context topic_store
begin

lemma subscribe_loop_spec:
  fixes clid :: client_id
  assumes v: "v = (\<lambda>q. Inst \<lparr>si_clid = clid, si_max_qos = q\<rparr>)"
    and "store_wf t"
  shows "\<exists>t'. subscribe_loop (\<lambda>cas t k x. ins cas t k (Inst x)) cas i t clid subs res =
      Some (res @ map (\<lambda>s. Inr (sub_max_qos s)) subs, t') \<and> store_wf t' \<and>
    (\<forall>j. value_of t' j =
       (case value_of t j of Some x \<Rightarrow> Some x | None \<Rightarrow> map_option v (granted cas i subs j)))"
  using assms(2)
proof (induction subs arbitrary: t i res)
  case Nil
  then show ?case by (auto split: option.splits)
next
  case (Cons sub subs)
  obtain r u where u: "ins (cas i) t (sub_topic sub) (v (sub_max_qos sub)) = Some (r, u)" "store_wf u"
    "r \<longleftrightarrow> cas i \<and> value_of t (sub_topic sub) = None"
    "\<And>j. value_of u j = (if r \<and> j = sub_topic sub then Some (v (sub_max_qos sub)) else value_of t j)"
    using ins_law [OF Cons.prems] by blast
  from Cons.IH [OF u(2)] obtain t' where t':
    "subscribe_loop (\<lambda>cas t k x. ins cas t k (Inst x)) cas (Suc i) u clid subs
       (res @ [Inr (sub_max_qos sub)]) =
       Some ((res @ [Inr (sub_max_qos sub)]) @ map (\<lambda>s. Inr (sub_max_qos s)) subs, t')"
    "store_wf t'"
    "\<And>j. value_of t' j =
       (case value_of u j of Some x \<Rightarrow> Some x | None \<Rightarrow> map_option v (granted cas (Suc i) subs j))"
    by blast
  have "value_of t' j = (case value_of t j of Some x \<Rightarrow> Some x
      | None \<Rightarrow> map_option v (granted cas i (sub # subs) j))" for j
    using t'(3) [of j] u(3,4) by (auto split: option.splits)
  moreover have "subscribe_loop (\<lambda>cas t k x. ins cas t k (Inst x)) cas i t clid (sub # subs) res =
      Some (res @ map (\<lambda>s. Inr (sub_max_qos s)) (sub # subs), t')"
    using u(1) t'(1) by (simp add: v Let_def)
  ultimately show ?case using t'(2) by blast
qed

end

lemma router_subscribe_spec:
  assumes "trie_wf t"
  shows "\<exists>t'. router_subscribe cas t clid subs = Some (Inr (map (\<lambda>s. Inr (sub_max_qos s)) subs), t') \<and>
    trie_wf t' \<and>
    (\<forall>topic. route t' topic = (case route t topic of
       Some None \<Rightarrow> Some (map_option (\<lambda>q. \<lparr>si_clid = clid, si_max_qos = q\<rparr>) (granted cas 0 subs topic))
     | r \<Rightarrow> r))"
proof -
  from trie.subscribe_loop_spec [where Inst = "\<lambda>x. x", OF refl assms, where clid = clid and cas = cas and i = 0
      and subs = subs and res = "[]"]
  obtain t' where t': "subscribe_loop trie_insert cas 0 t clid subs [] =
      Some (map (\<lambda>s. Inr (sub_max_qos s)) subs, t')" "trie_wf t'"
    "\<And>j. sub_at t' (split_slash j) = (case sub_at t (split_slash j) of Some x \<Rightarrow> Some x
       | None \<Rightarrow> map_option (\<lambda>q. \<lparr>si_clid = clid, si_max_qos = q\<rparr>) (granted cas 0 subs j))"
    by auto
  have "route t' topic = (case route t topic of
       Some None \<Rightarrow> Some (map_option (\<lambda>q. \<lparr>si_clid = clid, si_max_qos = q\<rparr>) (granted cas 0 subs topic))
     | r \<Rightarrow> r)" for topic
    using t'(3) [of topic]
    by (auto simp: route_def trie_get_val_sub_at [OF assms] trie_get_val_sub_at [OF t'(2)]
        split: option.splits)
  then show ?thesis using t'(1,2) by (auto simp: router_subscribe_def)
qed

section \<open>Properties\<close>

text \<open>Subscribing acknowledges every subscription with the quality of service asked for, and then
  a topic is routed to the subscriber it already had, or else to the client with the quality of
  service of its first subscription to exactly that topic, or else to nobody.\<close>

theorem subscribe_then_route:
  assumes "trie_wf t"
  shows "\<exists>t'. router_subscribe (\<lambda>_. True) t clid subs =
      Some (Inr (map (\<lambda>s. Inr (sub_max_qos s)) subs), t') \<and> trie_wf t' \<and>
    (\<forall>topic. route t' topic = (case route t topic of
       Some None \<Rightarrow> Some (map_option (\<lambda>s. \<lparr>si_clid = clid, si_max_qos = sub_max_qos s\<rparr>)
         (find (\<lambda>s. sub_topic s = topic) subs))
     | r \<Rightarrow> r))"
  using router_subscribe_spec [OF assms, of "\<lambda>_. True" clid subs]
  by (simp only: granted_all)

theorem subscribe_then_route_witness:
  "\<exists>t'. router_subscribe (\<lambda>_. True) trie_new (clid_new (lit ''x''))
      [\<lparr>sub_topic = lit ''a/b'', sub_max_qos = QoS1\<rparr>, \<lparr>sub_topic = lit ''a/b'', sub_max_qos = QoS2\<rparr>] =
      Some (Inr (map (\<lambda>s. Inr (sub_max_qos s))
        [\<lparr>sub_topic = lit ''a/b'', sub_max_qos = QoS1\<rparr>, \<lparr>sub_topic = lit ''a/b'', sub_max_qos = QoS2\<rparr>]), t') \<and>
      trie_wf t' \<and>
    (\<forall>topic. route t' topic = (case route trie_new topic of
       Some None \<Rightarrow> Some (map_option (\<lambda>s. \<lparr>si_clid = clid_new (lit ''x''), si_max_qos = sub_max_qos s\<rparr>)
         (find (\<lambda>s. sub_topic s = topic)
           [\<lparr>sub_topic = lit ''a/b'', sub_max_qos = QoS1\<rparr>, \<lparr>sub_topic = lit ''a/b'', sub_max_qos = QoS2\<rparr>]))
     | r \<Rightarrow> r))"
  by (rule subscribe_then_route) (simp add: trie_new_def)

text \<open>A second client that subscribes to a topic already taken gets the acknowledgement of a
  granted subscription, and messages on the topic still go to the first client only.\<close>

theorem second_subscriber_unserved:
  assumes "trie_wf t" and "route t topic = Some (Some first)"
  shows "\<exists>t'. router_subscribe cas t second [\<lparr>sub_topic = topic, sub_max_qos = q\<rparr>] =
      Some (Inr [Inr q], t') \<and> route t' topic = Some (Some first)"
proof -
  obtain t' where "router_subscribe cas t second [\<lparr>sub_topic = topic, sub_max_qos = q\<rparr>] =
      Some (Inr [Inr q], t')"
    and "\<And>j. route t' j = (case route t j of
       Some None \<Rightarrow> Some (map_option (\<lambda>q. \<lparr>si_clid = second, si_max_qos = q\<rparr>)
         (granted cas 0 [\<lparr>sub_topic = topic, sub_max_qos = q\<rparr>] j))
     | r \<Rightarrow> r)"
    using router_subscribe_spec [OF assms(1), of cas second "[\<lparr>sub_topic = topic, sub_max_qos = q\<rparr>]"]
    by auto
  then show ?thesis using assms(2) by simp
qed

theorem second_subscriber_unserved_witness:
  "\<exists>t'. router_subscribe (\<lambda>_. True)
      (Child [(lit ''a'', Child [] (Some \<lparr>si_clid = clid_new (lit ''x''), si_max_qos = QoS0\<rparr>))] None)
      (clid_new (lit ''y'')) [\<lparr>sub_topic = lit ''a'', sub_max_qos = QoS2\<rparr>] = Some (Inr [Inr QoS2], t') \<and>
    route t' (lit ''a'') = Some (Some \<lparr>si_clid = clid_new (lit ''x''), si_max_qos = QoS0\<rparr>)"
  by (rule second_subscriber_unserved)
    (simp_all add: route_def trie_get_val_sub_at lit_def slash_def)

end
