(* ===== verification/Publish.thy ===== *)
theory Publish
  imports Wire
begin

text \<open>
  \<open>protocol/v5/publish.rs\<close>: the PUBLISH packet, its properties, its decoder and its
  encoder, with the round trip between them and the parts of a packet the encoder loses.
\<close>

unbundle bit_operations_syntax

section \<open>Packet and properties\<close>

record publish_properties =
  pp_payload_format_indicator :: "u8 option"
  pp_message_expiry_interval :: "u32 option"
  pp_topic_alias :: "u16 option"
  pp_response_topic :: "rstring option"
  pp_correlation_data :: "bytes option"
  pp_user_properties :: "(rstring \<times> rstring) list option"
  pp_subscription_identifier :: "u32 list option"
  pp_content_type :: "rstring option"

definition no_publish_properties :: publish_properties where
  "no_publish_properties = \<lparr>
     pp_payload_format_indicator = None, pp_message_expiry_interval = None,
     pp_topic_alias = None, pp_response_topic = None, pp_correlation_data = None,
     pp_user_properties = None, pp_subscription_identifier = None, pp_content_type = None\<rparr>"

record publish_packet =
  p_dup :: bool
  p_qos :: service_level
  p_retain :: bool
  p_topic :: rstring
  p_packet_id :: "u16 option"
  p_payload :: bytes
  p_properties :: "publish_properties option"

section \<open>Decoder\<close>

definition push_pair ::
    "(rstring \<times> rstring) \<Rightarrow> (rstring \<times> rstring) list option \<Rightarrow> (rstring \<times> rstring) list option" where
  "push_pair p ps = (case ps of None \<Rightarrow> Some [p] | Some v \<Rightarrow> Some (v @ [p]))"

text \<open>The \<open>match identifier\<close> of the property loop: one property read into the record.\<close>

definition publish_property ::
    "bytes_crate \<Rightarrow> u8 \<Rightarrow> publish_properties \<Rightarrow> bytes \<Rightarrow>
       (string, publish_properties \<times> bytes) run" where
  "publish_property B identifier p buf =
     (if identifier = 0x01 then need (get_u8 B buf) (\<lambda>(v, buf).
        ok (p\<lparr>pp_payload_format_indicator := Some v\<rparr>, buf))
      else if identifier = 0x02 then need (get_u32 B buf) (\<lambda>(v, buf).
        ok (p\<lparr>pp_message_expiry_interval := Some v\<rparr>, buf))
      else if identifier = 0x23 then need (get_u16 B buf) (\<lambda>(v, buf).
        ok (p\<lparr>pp_topic_alias := Some v\<rparr>, buf))
      else if identifier = 0x08 then andThen (decode_utf8_string B buf) (\<lambda>(v, buf).
        ok (p\<lparr>pp_response_topic := Some v\<rparr>, buf))
      else if identifier = 0x09 then andThen (decode_binary_data B buf) (\<lambda>(v, buf).
        ok (p\<lparr>pp_correlation_data := Some v\<rparr>, buf))
      else if identifier = 0x26 then andThen (decode_string_pair B buf) (\<lambda>(v, buf).
        ok (p\<lparr>pp_user_properties := push_pair v (pp_user_properties p)\<rparr>, buf))
      else if identifier = 0x0B then andThen (rl_decode B buf) (\<lambda>(v, buf).
        ok (p\<lparr>pp_subscription_identifier := Some [v]\<rparr>, buf))
      else if identifier = 0x03 then andThen (decode_utf8_string B buf) (\<lambda>(v, buf).
        ok (p\<lparr>pp_content_type := Some v\<rparr>, buf))
      else err ''Unknown property identifier'')"

partial_function (option) publish_properties_loop ::
    "bytes_crate \<Rightarrow> publish_properties \<Rightarrow> bytes \<Rightarrow> (string, publish_properties) run" where
  "publish_properties_loop B p buf =
     (if length buf \<noteq> 0 then
        need (get_u8 B buf) (\<lambda>(identifier, buf).
        andThen (publish_property B identifier p buf) (\<lambda>(p, buf).
          publish_properties_loop B p buf))
      else ok p)"

declare publish_properties_loop.simps [code]

definition publish_properties_decode ::
    "bytes_crate \<Rightarrow> bytes \<Rightarrow> (string, publish_properties option \<times> bytes) run" where
  "publish_properties_decode B buffer =
     andThen (mapErr (\<lambda>_. ''Failed to decode properties length'') (rl_decode B buffer))
       (\<lambda>(properties_length, buffer).
     if properties_length = 0 then ok (None, buffer)
     else if length buffer < unat properties_length then err ''Buffer too short for properties''
     else need (split_to B (unat properties_length) buffer) (\<lambda>(buf_prop, buffer).
       andThen (publish_properties_loop B no_publish_properties buf_prop) (\<lambda>p.
         ok (Some p, buffer))))"

definition publish_decode :: "bytes_crate \<Rightarrow> bytes \<Rightarrow> (string, publish_packet) run" where
  "publish_decode B buffer =
     (if length buffer < 2 then err ''Buffer too short''
      else need (get_u8 B buffer) (\<lambda>(header, buffer).
        let packet_type = drop_bit 4 header in
        if packet_type \<noteq> 3 then err ''Invalid packet type for PUBLISH''
        else
          let dup = header AND 0x08 \<noteq> 0 in
          andThen (mapErr (\<lambda>_. ''QoS not Supported'') (qos_try_from (drop_bit 1 (header AND 0x06))))
            (\<lambda>qos.
          let retain = header AND 0x01 \<noteq> 0 in
          andThen (mapErr (\<lambda>_. ''Failed to decode remaining length'') (rl_decode B buffer))
            (\<lambda>(remaining_length, buffer).
          if length buffer < unat remaining_length
          then err ''Buffer too short for remaining length''
          else
            andThen (decode_utf8_string B buffer) (\<lambda>(topic, buffer).
            andThen (if qos_code qos > 0
                     then need (get_u16 B buffer) (\<lambda>(i, buffer). ok (Some i, buffer))
                     else ok (None, buffer)) (\<lambda>(packet_id, buffer).
            andThen (publish_properties_decode B buffer) (\<lambda>(properties, buffer).
              ok \<lparr>p_dup = dup, p_qos = qos, p_retain = retain, p_topic = topic,
                  p_packet_id = packet_id, p_payload = buffer, p_properties = properties\<rparr>)))))))"

section \<open>Encoder\<close>

definition publish_est_len :: "publish_properties \<Rightarrow> nat" where
  "publish_est_len p =
     (if pp_payload_format_indicator p \<noteq> None then 2 else 0) +
     (if pp_message_expiry_interval p \<noteq> None then 5 else 0) +
     (case pp_content_type p of None \<Rightarrow> 0 | Some t \<Rightarrow> 3 + length t) +
     (case pp_user_properties p of None \<Rightarrow> 0
      | Some ups \<Rightarrow> (\<Sum>(k, v) \<leftarrow> ups. 5 + length k + length v))"

definition publish_properties_encode ::
    "bytes_crate \<Rightarrow> publish_properties \<Rightarrow> (string, bytes) run" where
  "publish_properties_encode B p =
     (let prop_len = publish_est_len p in
      andThen (rl_bytes prop_len) (\<lambda>rml.
      let buf = put_slice B [] rml;
          buf = (case pp_payload_format_indicator p of None \<Rightarrow> buf
                 | Some indicator \<Rightarrow> put_u8 B (put_u8 B buf 0x01) indicator);
          buf = (case pp_message_expiry_interval p of None \<Rightarrow> buf
                 | Some interval \<Rightarrow> put_u32 B (put_u8 B buf 0x02) interval) in
      andThen (case pp_content_type p of None \<Rightarrow> ok buf
               | Some content_type \<Rightarrow> encode_utf8_string B (put_u8 B buf 0x03) content_type) (\<lambda>buf.
      (case pp_user_properties p of None \<Rightarrow> ok buf | Some ups \<Rightarrow> encode_pairs B buf ups))))"

text \<open>The fixed header: \<open>dup as u8\<close> shifted by four, the service level by one, retain.\<close>

definition publish_fixed_header :: "publish_packet \<Rightarrow> u8" where
  "publish_fixed_header p =
     (let fixed_header = 0x30;
          fixed_header = fixed_header OR push_bit 4 (of_bool (p_dup p));
          fixed_header = fixed_header OR push_bit 1 (qos_code (p_qos p))
      in fixed_header OR of_bool (p_retain p))"

definition publish_encode :: "bytes_crate \<Rightarrow> publish_packet \<Rightarrow> (string, bytes) run" where
  "publish_encode B p =
     andThen (case p_properties p of Some prop \<Rightarrow> publish_properties_encode B prop
              | None \<Rightarrow> ok (put_u8 B [] 0x00)) (\<lambda>prop.
     let len = 2 + length (p_topic p) + length prop + length (p_payload p);
         len = (if p_packet_id p \<noteq> None then len + 2 else len) in
     andThen (rl_bytes len) (\<lambda>rml.
     let buffer = put_u8 B [] (publish_fixed_header p);
         buffer = put_slice B buffer rml in
     andThen (encode_utf8_string B buffer (p_topic p)) (\<lambda>buffer.
     let buffer = (case p_packet_id p of None \<Rightarrow> buffer | Some i \<Rightarrow> put_u16 B buffer i);
         buffer = put_slice B buffer prop;
         buffer = put_slice B buffer (p_payload p)
     in ok buffer)))"

section \<open>What the encoder writes\<close>

definition opt_image :: "('a \<Rightarrow> bytes) \<Rightarrow> 'a option \<Rightarrow> bytes" where
  "opt_image f x = (case x of None \<Rightarrow> [] | Some v \<Rightarrow> f v)"

lemma opt_image_simps [simp]:
  "opt_image f None = []"
  "opt_image f (Some v) = f v"
  by (simp_all add: opt_image_def)

definition publish_props_body :: "publish_properties \<Rightarrow> bytes" where
  "publish_props_body p =
     opt_image (\<lambda>v. [0x01, v]) (pp_payload_format_indicator p) @
     opt_image (\<lambda>v. 0x02 # enc32 v) (pp_message_expiry_interval p) @
     opt_image (\<lambda>v. 0x03 # len_image v) (pp_content_type p) @
     opt_image pairs_image (pp_user_properties p)"

definition publish_props_ok :: "publish_properties \<Rightarrow> bool" where
  "publish_props_ok p \<longleftrightarrow>
     pred_option str_ok (pp_content_type p) \<and> pred_option pairs_ok (pp_user_properties p)"

definition publish_props_image :: "publish_packet \<Rightarrow> bytes" where
  "publish_props_image p =
     (case p_properties p of None \<Rightarrow> [0]
      | Some q \<Rightarrow> varint (length (publish_props_body q)) @ publish_props_body q)"

definition publish_body :: "publish_packet \<Rightarrow> bytes" where
  "publish_body p = len_image (p_topic p) @ opt_image enc16 (p_packet_id p)
     @ publish_props_image p @ p_payload p"

definition publish_ok :: "publish_packet \<Rightarrow> bool" where
  "publish_ok p \<longleftrightarrow> str_ok (p_topic p) \<and> pred_option publish_props_ok (p_properties p)
     \<and> length (publish_body p) < 128 ^ 4"

lemma publish_est_len: "publish_est_len p = length (publish_props_body p)"
  by (simp add: publish_est_len_def publish_props_body_def length_pairs_image opt_image_def
      split: option.splits)

lemma publish_properties_encode_image:
  assumes "bytes_doc B" and "publish_props_ok p" and "length (publish_props_body p) < 128 ^ 4"
  shows "publish_properties_encode B p =
    ok (varint (length (publish_props_body p)) @ publish_props_body p)"
proof -
  have "rl_bytes (publish_est_len p) = ok (varint (length (publish_props_body p)))"
    using assms(3) by (simp add: publish_est_len rl_bytes_image)
  then show ?thesis
    using assms(1,2)
    by (auto simp: publish_properties_encode_def Let_def wire_simps publish_props_ok_def str_ok_def
        publish_props_body_def split: option.splits)
qed

lemma publish_encode_frame:
  assumes B: "bytes_doc B" and p: "publish_ok p"
  shows "publish_encode B p =
    ok (publish_fixed_header p # varint (length (publish_body p)) @ publish_body p)"
proof -
  have props: "(case p_properties p of Some prop \<Rightarrow> publish_properties_encode B prop
      | None \<Rightarrow> ok (put_u8 B [] 0x00)) = ok (publish_props_image p)"
    using assms
    by (auto simp: publish_ok_def publish_props_image_def publish_body_def bytes_simps
        publish_properties_encode_image split: option.splits)
  have len: "(if p_packet_id p \<noteq> None
       then 2 + length (p_topic p) + length (publish_props_image p) + length (p_payload p) + 2
       else 2 + length (p_topic p) + length (publish_props_image p) + length (p_payload p))
     = length (publish_body p)"
    by (auto simp: publish_body_def)
  have rml: "rl_bytes (length (publish_body p)) = ok (varint (length (publish_body p)))"
    using p by (simp add: publish_ok_def rl_bytes_image)
  have topic: "\<not> length (p_topic p) > 65535" using p by (simp add: publish_ok_def str_ok_def)
  show ?thesis
    unfolding publish_encode_def props andThen_simps Let_def len rml
    using B topic
    by (cases "p_packet_id p") (simp_all add: wire_simps publish_body_def)
qed

section \<open>What the decoder reads back\<close>

lemma publish_properties_loop_step:
  assumes "bytes_doc B" and "publish_property B i p b = ok (p', r)"
  shows "publish_properties_loop B p (i # b) = publish_properties_loop B p' r"
  using assms by (subst publish_properties_loop.simps) (simp add: bytes_simps)

lemma fold_push_pair_Some: "fold push_pair ps (Some v) = Some (v @ ps)"
  by (induction ps arbitrary: v) (simp_all add: push_pair_def)

lemma fold_push_pair_None: "fold push_pair ps None = (if ps = [] then None else Some ps)"
  by (cases ps) (simp_all add: push_pair_def fold_push_pair_Some)

lemma publish_loop_pairs:
  assumes "bytes_doc B" and "pairs_ok ps"
  shows "publish_properties_loop B p (pairs_image ps @ r) =
    publish_properties_loop B (p\<lparr>pp_user_properties := fold push_pair ps (pp_user_properties p)\<rparr>) r"
  using assms(2)
proof (induction ps arbitrary: p)
  case Nil
  then show ?case by simp
next
  case (Cons kv ps)
  obtain k v where kv: "kv = (k, v)" by (cases kv)
  have "publish_property B 0x26 p (len_image k @ len_image v @ pairs_image ps @ r) =
      ok (p\<lparr>pp_user_properties := push_pair (k, v) (pp_user_properties p)\<rparr>, pairs_image ps @ r)"
    using assms(1) Cons.prems kv by (simp add: publish_property_def wire_simps)
  from publish_properties_loop_step [OF assms(1) this] show ?case
    using Cons by (simp add: kv)
qed

lemma publish_loop_body:
  assumes B: "bytes_doc B" and "publish_props_ok q"
  shows "publish_properties_loop B no_publish_properties (publish_props_body q) =
    ok (no_publish_properties
        \<lparr>pp_payload_format_indicator := pp_payload_format_indicator q,
         pp_message_expiry_interval := pp_message_expiry_interval q,
         pp_content_type := pp_content_type q,
         pp_user_properties := fold push_pair (case_option [] id (pp_user_properties q)) None\<rparr>)"
proof -
  let ?loop = "publish_properties_loop B"
  have 1: "?loop p (opt_image (\<lambda>v. [0x01, v]) x @ r) =
      ?loop (if x = None then p else p\<lparr>pp_payload_format_indicator := x\<rparr>) r" for p x r
    by (cases x) (auto intro!: publish_properties_loop_step [OF B]
        simp: publish_property_def wire_simps B)
  have 2: "?loop p (opt_image (\<lambda>v. 0x02 # enc32 v) x @ r) =
      ?loop (if x = None then p else p\<lparr>pp_message_expiry_interval := x\<rparr>) r" for p x r
    by (cases x) (auto intro!: publish_properties_loop_step [OF B]
        simp: publish_property_def wire_simps B)
  have 3: "?loop p (opt_image (\<lambda>v. 0x03 # len_image v) x @ r) =
      ?loop (if x = None then p else p\<lparr>pp_content_type := x\<rparr>) r" if "pred_option str_ok x" for p x r
    using that
    by (cases x) (auto intro!: publish_properties_loop_step [OF B]
        simp: publish_property_def wire_simps B)
  have 4: "?loop p (opt_image pairs_image x) =
      ok (p\<lparr>pp_user_properties := fold push_pair (case_option [] id x) (pp_user_properties p)\<rparr>)"
    if "pred_option pairs_ok x" for p x
    using that publish_loop_pairs [OF B, of "case_option [] id x" p "[]"]
    by (cases x) (simp_all add: publish_properties_loop.simps)
  show ?thesis
    using assms(2)
    by (simp add: publish_props_body_def publish_props_ok_def 1 2 3 4)
      (auto simp: no_publish_properties_def)
qed

text \<open>
  What is left of a packet after the encoder: the duplicate flag is gone, and of the properties
  only the four that it writes, a list of user properties without elements being none.
\<close>

definition publish_view :: "publish_packet \<Rightarrow> publish_packet" where
  "publish_view p = p\<lparr>
     p_dup := False,
     p_properties := map_option (\<lambda>q. q\<lparr>
       pp_topic_alias := None, pp_response_topic := None, pp_correlation_data := None,
       pp_subscription_identifier := None,
       pp_user_properties := (if pp_user_properties q = Some [] then None
                              else pp_user_properties q)\<rparr>) (p_properties p)\<rparr>"

lemma fixed_header_bits:
  "drop_bit 4 (publish_fixed_header p) = 3"
  "(publish_fixed_header p AND 0x08 = 0)"
  "drop_bit 1 (publish_fixed_header p AND 0x06) = qos_code (p_qos p)"
  "drop_bit (Suc 0) (publish_fixed_header p) AND 3 = qos_code (p_qos p)"
  "(publish_fixed_header p AND 0x01 = 0) \<longleftrightarrow> \<not> p_retain p"
  by (cases "p_dup p"; cases "p_qos p"; cases "p_retain p"; simp add: publish_fixed_header_def)+

lemma publish_properties_decode_image:
  assumes B: "bytes_doc B" and ok: "pred_option publish_props_ok (p_properties p)"
    and some: "\<And>q. p_properties p = Some q \<Longrightarrow> publish_props_body q \<noteq> []"
    and len: "length (publish_props_image p) < 128 ^ 4"
  shows "publish_properties_decode B (publish_props_image p @ r) =
    ok (p_properties (publish_view p), r)"
proof (cases "p_properties p")
  case None
  have "rl_decode B (0 # r) = ok (0, r)"
    using B by (simp add: rl_decode_spec rl_spec_def)
  with None show ?thesis
    by (simp add: publish_properties_decode_def publish_props_image_def publish_view_def)
next
  case (Some q)
  let ?b = "publish_props_body q"
  have b: "0 < length ?b" "length ?b < 128 ^ 4"
    using some [OF Some] len Some by (auto simp: publish_props_image_def)
  have u: "unat (word_of_nat (length ?b) :: u32) = length ?b"
    using b(2) by (simp add: unat_of_nat)
  have nz: "(word_of_nat (length ?b) :: u32) \<noteq> 0"
    using u b(1) by (metis less_numeral_extra(3) unat_0)
  have rl: "rl_decode B (varint (length ?b) @ ?b @ r) = ok (word_of_nat (length ?b), ?b @ r)"
    using B b by (rule rl_decode_image)
  have "publish_properties_decode B (publish_props_image p @ r) =
      andThen (publish_properties_loop B no_publish_properties ?b) (\<lambda>p. ok (Some p, r))"
    using B nz
    by (simp only: publish_properties_decode_def publish_props_image_def Some option.case
        append_assoc rl mapErr_simps andThen_simps prod.case u if_False split_to_doc)
      simp
  then show ?thesis
    using B ok Some
    by (simp add: publish_loop_body publish_view_def fold_push_pair_None)
       (auto simp: no_publish_properties_def split: option.splits)
qed

lemma publish_decode_prefix:
  assumes B: "bytes_doc B" and p: "publish_ok p"
    and pid: "p_packet_id p \<noteq> None \<longleftrightarrow> p_qos p \<noteq> QoS0"
  shows "publish_decode B
      (publish_fixed_header p # varint (length (publish_body p)) @ publish_body p @ x) =
    andThen (publish_properties_decode B (publish_props_image p @ p_payload p @ x))
      (\<lambda>(properties, buffer). ok \<lparr>p_dup = False, p_qos = p_qos p, p_retain = p_retain p,
         p_topic = p_topic p, p_packet_id = p_packet_id p, p_payload = buffer,
         p_properties = properties\<rparr>)"
proof -
  let ?b = "publish_body p"
  have b: "0 < length ?b" "length ?b < 128 ^ 4"
    using p by (simp_all add: publish_ok_def publish_body_def)
  have u: "unat (word_of_nat (length ?b) :: u32) = length ?b"
    using b(2) by (simp add: unat_of_nat)
  have rl: "rl_decode B (varint (length ?b) @ ?b @ x) = ok (word_of_nat (length ?b), ?b @ x)"
    by (rule rl_decode_image [OF B b])
  have long: "\<not> length (publish_fixed_header p # varint (length ?b) @ ?b @ x) < 2"
    using b(1) by simp
  have topic: "decode_utf8_string B (?b @ x) = ok (p_topic p, opt_image enc16 (p_packet_id p)
      @ publish_props_image p @ p_payload p @ x)"
    using B p by (simp add: publish_body_def publish_ok_def decode_utf8_string_image)
  have id: "(if qos_code (p_qos p) > 0
        then need (get_u16 B (opt_image enc16 (p_packet_id p) @ r)) (\<lambda>(i, buffer). ok (Some i, buffer))
        else ok (None, opt_image enc16 (p_packet_id p) @ r)) = ok (p_packet_id p, r)" for r
    using pid B by (cases "p_qos p"; cases "p_packet_id p") (simp_all add: bytes_simps)
  show ?thesis
    by (simp add: publish_decode_def long [simplified] b(1) [simplified] B bytes_simps Let_def fixed_header_bits rl u
        topic id del: unat_of_nat)
qed

lemma publish_decode_frame:
  assumes B: "bytes_doc B" and p: "publish_ok p"
    and some: "\<And>q. p_properties p = Some q \<Longrightarrow> publish_props_body q \<noteq> []"
    and pid: "p_packet_id p \<noteq> None \<longleftrightarrow> p_qos p \<noteq> QoS0"
  shows "publish_decode B
      (publish_fixed_header p # varint (length (publish_body p)) @ publish_body p @ x) =
    ok ((publish_view p)\<lparr>p_payload := p_payload p @ x\<rparr>)"
proof -
  have "publish_properties_decode B (publish_props_image p @ p_payload p @ x) =
      ok (p_properties (publish_view p), p_payload p @ x)"
    using p by (intro publish_properties_decode_image B some)
      (auto simp: publish_ok_def publish_body_def)
  then show ?thesis
    by (simp add: publish_decode_prefix [OF B p pid]) (simp add: publish_view_def)
qed

lemma publish_property_shrinks:
  assumes "bytes_doc B" and "publish_property B i p b = ok (p', r)"
  shows "length r < length b"
  using assms(2)
  by (auto simp: publish_property_def andThen_eq_ok need_eq_ok split: if_splits
      dest!: get_u8_shrinks [OF assms(1)] get_u16_shrinks [OF assms(1)] get_u32_shrinks [OF assms(1)]
        decode_utf8_string_ok(3) [OF assms(1)] decode_binary_data_ok [OF assms(1)]
        decode_string_pair_ok [OF assms(1)] rl_decode_shrinks(1) [OF assms(1)])

lemma returns_publish_property: "bytes_doc B \<Longrightarrow> \<exists>y. publish_property B i p b = Some y"
  unfolding publish_property_def
  by (intro returns_intros returns_rl_decode returns_decode_utf8_string
      returns_decode_binary_data returns_decode_string_pair) simp_all

lemma returns_publish_properties_loop:
  assumes "bytes_doc B"
  shows "\<exists>y. publish_properties_loop B p b = Some y"
proof (induction b arbitrary: p rule: length_induct)
  case (1 b)
  show ?case
    using 1 returns_publish_property [OF assms]
    by (subst publish_properties_loop.simps)
      (auto intro!: returns_intros
        dest!: get_u8_shrinks [OF assms] publish_property_shrinks [OF assms])
qed

lemma returns_publish_decode:
  assumes "bytes_doc B"
  shows "\<exists>y. publish_decode B b = Some y"
  unfolding publish_decode_def publish_properties_decode_def Let_def
  by (intro returns_intros returns_rl_decode returns_decode_utf8_string returns_qos_try_from assms
      returns_publish_properties_loop)

text \<open>A decoded packet has an identifier exactly when its service level is above zero.\<close>

lemma publish_decode_parts:
  assumes "publish_decode B b = ok p"
  obtains b1 b2 b3 where "decode_utf8_string B b1 = ok (p_topic p, b2)"
    and "(if qos_code (p_qos p) > 0
        then need (get_u16 B b2) (\<lambda>(i, buffer). ok (Some i, buffer))
        else ok (None, b2)) = (ok (p_packet_id p, b3) :: (string, _) run)"
  using assms unfolding publish_decode_def Let_def
  by (elim andThen_okE need_okE prod_okE if_okE err_okE) (simp; fail | fastforce)+

lemma publish_decode_packet_id:
  assumes "publish_decode B b = ok p"
  shows "p_packet_id p \<noteq> None \<longleftrightarrow> p_qos p \<noteq> QoS0"
  using assms
proof (rule publish_decode_parts)
  fix b2 b3
  assume "(if qos_code (p_qos p) > 0
        then need (get_u16 B b2) (\<lambda>(i, buffer). ok (Some i, buffer))
        else ok (None, b2)) = (ok (p_packet_id p, b3) :: (string, _) run)"
  then show ?thesis by (cases "p_qos p") (auto elim!: need_okE dest: sym)
qed

lemma publish_decode_topic:
  assumes "bytes_doc B" and "publish_decode B b = ok p"
  shows "str_ok (p_topic p)"
  using assms(2) by (rule publish_decode_parts) (rule decode_utf8_string_ok(2) [OF assms(1)])

section \<open>Properties\<close>

text \<open>C18: Encoding a PUBLISH packet and decoding the bytes again gives the packet back with the
  duplicate flag cleared and, of its properties, exactly the payload format indicator, the
  expiry interval, the content type and the user properties; service level, retain flag, topic,
  packet identifier and payload survive.  This is so for every packet that fits the wire format (its
  strings are valid and have their length in sixteen bits, the body is shorter than 2^28 bytes), has an
  identifier exactly if its quality of service is above 0 and, if it has properties at all, at least
  one of those four.\<close>

theorem publish_roundtrip:
  assumes "bytes_doc B" and "publish_ok p"
    and "\<And>q. p_properties p = Some q \<Longrightarrow> publish_props_body q \<noteq> []"
    and "p_packet_id p \<noteq> None \<longleftrightarrow> p_qos p \<noteq> QoS0"
  shows "andThen (publish_encode B p) (publish_decode B) = ok (publish_view p)"
  using publish_decode_frame [OF assms, of "[]"] publish_encode_frame [OF assms(1,2)]
  by (simp add: publish_view_def)

definition sample_publish :: publish_packet where
  "sample_publish = \<lparr>p_dup = False, p_qos = QoS1, p_retain = True, p_topic = lit ''topic'',
     p_packet_id = Some 12345, p_payload = lit ''Hello mqtt'',
     p_properties = Some (no_publish_properties
       \<lparr>pp_payload_format_indicator := Some 1, pp_message_expiry_interval := Some 300\<rparr>)\<rparr>"

lemma sample_publish_ok:
  "publish_ok sample_publish"
  "p_properties sample_publish = Some q \<Longrightarrow> publish_props_body q \<noteq> []"
  "p_packet_id sample_publish \<noteq> None \<longleftrightarrow> p_qos sample_publish \<noteq> QoS0"
  by (auto simp: sample_publish_def publish_ok_def str_ok_def lit_def publish_props_ok_def
      no_publish_properties_def publish_body_def publish_props_image_def publish_props_body_def
      varint_cases)

theorem publish_roundtrip_witness:
  "andThen (publish_encode list_bytes sample_publish) (publish_decode list_bytes) =
     ok (publish_view sample_publish)"
  using sample_publish_ok by (intro publish_roundtrip) simp_all

text \<open>Bytes that follow a PUBLISH packet in the buffer become part of its payload: the remaining
  length is only checked against the buffer, it does not delimit the packet.\<close>

theorem publish_payload_overrun:
  assumes "bytes_doc B" and "publish_ok p"
    and "\<And>q. p_properties p = Some q \<Longrightarrow> publish_props_body q \<noteq> []"
    and "p_packet_id p \<noteq> None \<longleftrightarrow> p_qos p \<noteq> QoS0"
  shows "andThen (publish_encode B p) (\<lambda>frame. publish_decode B (frame @ x)) =
    ok ((publish_view p)\<lparr>p_payload := p_payload p @ x\<rparr>)"
  using publish_decode_frame [OF assms, of x] publish_encode_frame [OF assms(1,2)] by simp

theorem publish_payload_overrun_witness:
  "andThen (publish_encode list_bytes sample_publish)
     (\<lambda>frame. publish_decode list_bytes (frame @ [0xC0, 0x00])) =
   ok ((publish_view sample_publish)\<lparr>p_payload := p_payload sample_publish @ [0xC0, 0x00]\<rparr>)"
  using sample_publish_ok by (intro publish_payload_overrun) simp_all

text \<open>The fixed header of an encoded PUBLISH packet never carries the duplicate flag: it is
  shifted onto a bit of the packet type that is already set.\<close>

theorem publish_dup_lost:
  "publish_fixed_header (p\<lparr>p_dup := True\<rparr>) = publish_fixed_header (p\<lparr>p_dup := False\<rparr>)"
  by (cases "p_qos p"; cases "p_retain p"; simp add: publish_fixed_header_def)

text \<open>A packet whose properties hold nothing the encoder writes (only a response topic, say) is
  encoded without a property length: decoding it again panics when the payload is empty.\<close>

theorem publish_empty_properties_panic:
  assumes "bytes_doc B" and "publish_ok p"
    and "p_properties p = Some q" and "publish_props_body q = []" and "p_payload p = []"
    and "p_packet_id p \<noteq> None \<longleftrightarrow> p_qos p \<noteq> QoS0"
  shows "andThen (publish_encode B p) (publish_decode B) = panic"
proof -
  have "publish_props_image p @ p_payload p @ [] = []"
    using assms(3-5) by (simp add: publish_props_image_def)
  then have "publish_properties_decode B (publish_props_image p @ p_payload p @ []) = panic"
    using assms(1) by (simp add: publish_properties_decode_def rl_decode_spec rl_spec_def)
  then show ?thesis
    using publish_decode_prefix [OF assms(1,2,6), of "[]"] publish_encode_frame [OF assms(1,2)]
    by simp
qed

theorem publish_empty_properties_panic_witness:
  "let p = \<lparr>p_dup = False, p_qos = QoS0, p_retain = False, p_topic = lit ''t'',
     p_packet_id = None, p_payload = [],
     p_properties = Some (no_publish_properties\<lparr>pp_response_topic := Some (lit ''r'')\<rparr>)\<rparr> in
   andThen (publish_encode list_bytes p) (publish_decode list_bytes) = panic"
  unfolding Let_def
  by (rule publish_empty_properties_panic
      [where q = "no_publish_properties\<lparr>pp_response_topic := Some (lit ''r'')\<rparr>"])
    (simp_all add: publish_ok_def str_ok_def lit_def publish_props_ok_def no_publish_properties_def
      publish_body_def publish_props_image_def publish_props_body_def)

end
