(* ===== verification/Connect.thy ===== *)
theory Connect
  imports Publish
begin

text \<open>
  \<open>protocol/v5/connect.rs\<close>: the CONNECT packet, its properties and its decoder.
\<close>

unbundle bit_operations_syntax

record connect_properties =
  cp_session_expiry_interval :: "u32 option"
  cp_receive_maximum :: "u16 option"
  cp_maximum_packet_size :: "u16 option"
  cp_topic_alias_maximum :: "u16 option"
  cp_request_response_information :: "u8 option"
  cp_request_problem_information :: "u8 option"
  cp_user_properties :: "(rstring \<times> rstring) list option"
  cp_authentication_method :: "rstring option"
  cp_authentication_data :: "bytes option"

definition no_connect_properties :: connect_properties where
  "no_connect_properties = \<lparr>
     cp_session_expiry_interval = None, cp_receive_maximum = None,
     cp_maximum_packet_size = None, cp_topic_alias_maximum = None,
     cp_request_response_information = None, cp_request_problem_information = None,
     cp_user_properties = None, cp_authentication_method = None,
     cp_authentication_data = None\<rparr>"

record connect_packet =
  c_protocol_name :: rstring
  c_protocol_level :: u8
  c_connect_flags :: u8
  c_keep_alive :: u16
  c_properties :: "connect_properties option"
  c_client_id :: rstring
  c_will_properties :: "connect_properties option"
  c_will_topic :: "rstring option"
  c_will_payload :: "bytes option"
  c_username :: "rstring option"
  c_password :: "bytes option"

section \<open>Properties\<close>

definition connect_property ::
    "bytes_crate \<Rightarrow> u8 \<Rightarrow> connect_properties \<Rightarrow> bytes \<Rightarrow>
       (string, connect_properties \<times> bytes) run" where
  "connect_property B identifier p buf =
     (if identifier = 0x11 then need (get_u32 B buf) (\<lambda>(v, buf).
        ok (p\<lparr>cp_session_expiry_interval := Some v\<rparr>, buf))
      else if identifier = 0x21 then need (get_u16 B buf) (\<lambda>(v, buf).
        ok (p\<lparr>cp_receive_maximum := Some v\<rparr>, buf))
      else if identifier = 0x27 then need (get_u16 B buf) (\<lambda>(v, buf).
        ok (p\<lparr>cp_maximum_packet_size := Some v\<rparr>, buf))
      else if identifier = 0x22 then need (get_u16 B buf) (\<lambda>(v, buf).
        ok (p\<lparr>cp_topic_alias_maximum := Some v\<rparr>, buf))
      else if identifier = 0x19 then need (get_u8 B buf) (\<lambda>(v, buf).
        ok (p\<lparr>cp_request_response_information := Some v\<rparr>, buf))
      else if identifier = 0x17 then need (get_u8 B buf) (\<lambda>(v, buf).
        ok (p\<lparr>cp_request_problem_information := Some v\<rparr>, buf))
      else if identifier = 0x26 then andThen (decode_string_pair B buf) (\<lambda>(v, buf).
        ok (p\<lparr>cp_user_properties := push_pair v (cp_user_properties p)\<rparr>, buf))
      else if identifier = 0x15 then andThen (decode_utf8_string B buf) (\<lambda>(v, buf).
        ok (p\<lparr>cp_authentication_method := Some v\<rparr>, buf))
      else if identifier = 0x16 then andThen (decode_binary_data B buf) (\<lambda>(v, buf).
        ok (p\<lparr>cp_authentication_data := Some v\<rparr>, buf))
      else err ''Unknown property identifier'')"

partial_function (option) connect_properties_loop ::
    "bytes_crate \<Rightarrow> connect_properties \<Rightarrow> bytes \<Rightarrow> (string, connect_properties) run" where
  "connect_properties_loop B p bufprop =
     (if length bufprop \<noteq> 0 then
        need (get_u8 B bufprop) (\<lambda>(identifier, bufprop).
        andThen (connect_property B identifier p bufprop) (\<lambda>(p, bufprop).
          connect_properties_loop B p bufprop))
      else ok p)"

declare connect_properties_loop.simps [code]

definition connect_decode_properties ::
    "bytes_crate \<Rightarrow> bytes \<Rightarrow> (string, connect_properties \<times> bytes) run" where
  "connect_decode_properties B buffer =
     andThen (rl_decode B buffer) (\<lambda>(property_length, buffer).
     need (split_to B (unat property_length) buffer) (\<lambda>(bufprop, buffer).
     andThen (connect_properties_loop B no_connect_properties bufprop) (\<lambda>p. ok (p, buffer))))"

section \<open>Packet\<close>

text \<open>The three optional parts, each behind its bit of the connect flags.\<close>

definition connect_will ::
    "bytes_crate \<Rightarrow> u8 \<Rightarrow> bytes \<Rightarrow>
       (string, (connect_properties option \<times> rstring option \<times> bytes option) \<times> bytes) run" where
  "connect_will B connect_flags buffer =
     (if connect_flags AND 0x04 > 0 then
        andThen (connect_decode_properties B buffer) (\<lambda>(props, buffer).
        andThen (decode_utf8_string B buffer) (\<lambda>(topic, buffer).
        andThen (decode_binary_data B buffer) (\<lambda>(payload, buffer).
          ok ((Some props, Some topic, Some payload), buffer))))
      else ok ((None, None, None), buffer))"

definition connect_username ::
    "bytes_crate \<Rightarrow> u8 \<Rightarrow> bytes \<Rightarrow> (string, rstring option \<times> bytes) run" where
  "connect_username B connect_flags buffer =
     (if connect_flags AND 0x80 > 0 then
        andThen (decode_utf8_string B buffer) (\<lambda>(user, buffer). ok (Some user, buffer))
      else ok (None, buffer))"

definition connect_password ::
    "bytes_crate \<Rightarrow> u8 \<Rightarrow> bytes \<Rightarrow> (string, bytes option \<times> bytes) run" where
  "connect_password B connect_flags buffer =
     (if connect_flags AND 0x40 > 0 then
        andThen (decode_binary_data B buffer) (\<lambda>(pass, buffer). ok (Some pass, buffer))
      else ok (None, buffer))"

definition connect_decode :: "bytes_crate \<Rightarrow> bytes \<Rightarrow> (string, connect_packet) run" where
  "connect_decode B buffer =
     need (get_u8 B buffer) (\<lambda>(header, buffer).
     let packet_type = drop_bit 4 header in
     if packet_type \<noteq> 1 then err ''Invalid packet type for CONNECT''
     else andThen (rl_decode B buffer) (\<lambda>(remaining_length, buffer).
     if length buffer < unat remaining_length then err ''Invalid buffer supplied''
     else andThen (decode_utf8_string B buffer) (\<lambda>(protocol_name, buffer).
     if protocol_name \<noteq> lit ''MQTT'' then err ''Invalid protocol name''
     else need (get_u8 B buffer) (\<lambda>(protocol_level, buffer).
     if protocol_level \<noteq> 5 then err ''Unsupported protocol level''
     else need (get_u8 B buffer) (\<lambda>(connect_flags, buffer).
     need (get_u16 B buffer) (\<lambda>(keep_alive, buffer).
     andThen (connect_decode_properties B buffer) (\<lambda>(properties, buffer).
     andThen (decode_utf8_string B buffer) (\<lambda>(client_id, buffer).
     andThen (connect_will B connect_flags buffer) (\<lambda>(will, buffer).
     case will of (will_properties, will_topic, will_payload) \<Rightarrow>
     andThen (connect_username B connect_flags buffer) (\<lambda>(username, buffer).
     andThen (connect_password B connect_flags buffer) (\<lambda>(password, buffer).
       ok \<lparr>c_protocol_name = protocol_name, c_protocol_level = protocol_level,
           c_connect_flags = connect_flags, c_keep_alive = keep_alive,
           c_properties = Some properties, c_client_id = client_id,
           c_will_properties = will_properties, c_will_topic = will_topic,
           c_will_payload = will_payload, c_username = username, c_password = password\<rparr>)))))))))))"

definition clean_start :: "connect_packet \<Rightarrow> bool" where
  "clean_start p \<longleftrightarrow> c_connect_flags p AND 0x20 \<noteq> 0"

section \<open>The image of a packet\<close>

definition connect_props_body :: "connect_properties \<Rightarrow> bytes" where
  "connect_props_body p =
     opt_image (\<lambda>v. 0x11 # enc32 v) (cp_session_expiry_interval p) @
     opt_image (\<lambda>v. 0x21 # enc16 v) (cp_receive_maximum p) @
     opt_image (\<lambda>v. 0x27 # enc16 v) (cp_maximum_packet_size p) @
     opt_image (\<lambda>v. 0x22 # enc16 v) (cp_topic_alias_maximum p) @
     opt_image (\<lambda>v. [0x19, v]) (cp_request_response_information p) @
     opt_image (\<lambda>v. [0x17, v]) (cp_request_problem_information p) @
     opt_image pairs_image (cp_user_properties p) @
     opt_image (\<lambda>v. 0x15 # len_image v) (cp_authentication_method p) @
     opt_image (\<lambda>v. 0x16 # len_image v) (cp_authentication_data p)"

text \<open>A length prefix as the protocol writes it: zero is one zero byte.\<close>

definition len_prefix :: "nat \<Rightarrow> bytes" where
  "len_prefix n = (if n = 0 then [0] else varint n)"

definition connect_props_image :: "connect_properties \<Rightarrow> bytes" where
  "connect_props_image p = len_prefix (length (connect_props_body p)) @ connect_props_body p"

definition connect_props_ok :: "connect_properties \<Rightarrow> bool" where
  "connect_props_ok p \<longleftrightarrow> pred_option (\<lambda>ps. ps \<noteq> [] \<and> pairs_ok ps) (cp_user_properties p) \<and>
     pred_option str_ok (cp_authentication_method p) \<and>
     pred_option (\<lambda>d. length d \<le> 65535) (cp_authentication_data p) \<and>
     length (connect_props_body p) < 128 ^ 4"

lemma connect_loop_step:
  assumes "bytes_doc B" and "connect_property B i p b = ok (p', r)"
  shows "connect_properties_loop B p (i # b) = connect_properties_loop B p' r"
  using assms by (subst connect_properties_loop.simps) (simp add: bytes_simps)

lemma connect_loop_pairs:
  assumes "bytes_doc B" and "pairs_ok ps"
  shows "connect_properties_loop B p (pairs_image ps @ r) =
    connect_properties_loop B (p\<lparr>cp_user_properties := fold push_pair ps (cp_user_properties p)\<rparr>) r"
  using assms(2)
proof (induction ps arbitrary: p)
  case Nil
  then show ?case by simp
next
  case (Cons kv ps)
  obtain k v where kv: "kv = (k, v)" by (cases kv)
  have "connect_property B 0x26 p (len_image k @ len_image v @ pairs_image ps @ r) =
      ok (p\<lparr>cp_user_properties := push_pair (k, v) (cp_user_properties p)\<rparr>, pairs_image ps @ r)"
    using assms(1) Cons.prems kv by (simp add: connect_property_def wire_simps)
  from connect_loop_step [OF assms(1) this] show ?case
    using Cons by (simp add: kv)
qed

text \<open>An optional field after one property: the new value, or the old one.\<close>

definition keep :: "'a option \<Rightarrow> 'a option \<Rightarrow> 'a option" where
  "keep x old = (case x of None \<Rightarrow> old | Some v \<Rightarrow> Some v)"

lemma keep_simps [simp]: "keep None old = old" "keep (Some v) old = Some v" "keep x None = x"
  by (simp_all add: keep_def split: option.split)

lemma connect_loop_opt:
  assumes "bytes_doc B" and "\<And>v. x = Some v \<Longrightarrow> f v = i # g v"
    and "\<And>v. x = Some v \<Longrightarrow> connect_property B i p (g v @ r) = ok (h (Some v), r)"
    and "h None = p"
  shows "connect_properties_loop B p (opt_image f x @ r) = connect_properties_loop B (h x) r"
  using assms by (cases x) (simp_all add: connect_loop_step)

lemma connect_loop_body:
  assumes B: "bytes_doc B" and q: "connect_props_ok q"
  shows "connect_properties_loop B no_connect_properties (connect_props_body q) = ok q"
proof -
  let ?loop = "connect_properties_loop B"
  note pr = connect_property_def wire_simps B
  have 1: "?loop p (opt_image (\<lambda>v. 0x11 # enc32 v) x @ r) =
      ?loop (p\<lparr>cp_session_expiry_interval := keep x (cp_session_expiry_interval p)\<rparr>) r" for p x r
    by (rule connect_loop_opt [OF B refl,
          where h = "\<lambda>x. p\<lparr>cp_session_expiry_interval := keep x (cp_session_expiry_interval p)\<rparr>"])
      (simp_all add: pr)
  have 2: "?loop p (opt_image (\<lambda>v. 0x21 # enc16 v) x @ r) =
      ?loop (p\<lparr>cp_receive_maximum := keep x (cp_receive_maximum p)\<rparr>) r" for p x r
    by (rule connect_loop_opt [OF B refl,
          where h = "\<lambda>x. p\<lparr>cp_receive_maximum := keep x (cp_receive_maximum p)\<rparr>"])
      (simp_all add: pr)
  have 3: "?loop p (opt_image (\<lambda>v. 0x27 # enc16 v) x @ r) =
      ?loop (p\<lparr>cp_maximum_packet_size := keep x (cp_maximum_packet_size p)\<rparr>) r" for p x r
    by (rule connect_loop_opt [OF B refl,
          where h = "\<lambda>x. p\<lparr>cp_maximum_packet_size := keep x (cp_maximum_packet_size p)\<rparr>"])
      (simp_all add: pr)
  have 4: "?loop p (opt_image (\<lambda>v. 0x22 # enc16 v) x @ r) =
      ?loop (p\<lparr>cp_topic_alias_maximum := keep x (cp_topic_alias_maximum p)\<rparr>) r" for p x r
    by (rule connect_loop_opt [OF B refl,
          where h = "\<lambda>x. p\<lparr>cp_topic_alias_maximum := keep x (cp_topic_alias_maximum p)\<rparr>"])
      (simp_all add: pr)
  have 5: "?loop p (opt_image (\<lambda>v. [0x19, v]) x @ r) =
      ?loop (p\<lparr>cp_request_response_information := keep x (cp_request_response_information p)\<rparr>) r" for p x r
    by (rule connect_loop_opt [OF B refl,
          where h = "\<lambda>x. p\<lparr>cp_request_response_information := keep x (cp_request_response_information p)\<rparr>"])
      (simp_all add: pr)
  have 6: "?loop p (opt_image (\<lambda>v. [0x17, v]) x @ r) =
      ?loop (p\<lparr>cp_request_problem_information := keep x (cp_request_problem_information p)\<rparr>) r" for p x r
    by (rule connect_loop_opt [OF B refl,
          where h = "\<lambda>x. p\<lparr>cp_request_problem_information := keep x (cp_request_problem_information p)\<rparr>"])
      (simp_all add: pr)
  have 7: "?loop p (opt_image pairs_image x @ r) =
      ?loop (p\<lparr>cp_user_properties := fold push_pair (case_option [] id x) (cp_user_properties p)\<rparr>) r"
    if "pred_option (\<lambda>ps. ps \<noteq> [] \<and> pairs_ok ps) x" for p x r
    using that connect_loop_pairs [OF B, of "case_option [] id x" p r] by (cases x) simp_all
  have 8: "?loop p (opt_image (\<lambda>v. 0x15 # len_image v) x @ r) =
      ?loop (p\<lparr>cp_authentication_method := keep x (cp_authentication_method p)\<rparr>) r"
    if "pred_option str_ok x" for p x r
    using that by (intro connect_loop_opt [OF B refl,
          where h = "\<lambda>x. p\<lparr>cp_authentication_method := keep x (cp_authentication_method p)\<rparr>"])
      (simp_all add: pr)
  have 9: "?loop p (opt_image (\<lambda>v. 0x16 # len_image v) x) =
      ok (p\<lparr>cp_authentication_data := keep x (cp_authentication_data p)\<rparr>)"
    if "pred_option (\<lambda>d. length d \<le> 65535) x" for p x
    using that connect_loop_opt [OF B refl, where x = x and i = "0x16" and g = "\<lambda>v. len_image v"
          and p = p and r = "[]" and h = "\<lambda>x. p\<lparr>cp_authentication_data := keep x (cp_authentication_data p)\<rparr>"]
    by (cases x) (simp_all add: pr connect_properties_loop.simps [of B _ "[]"]
        decode_binary_data_image [where r = "[]", simplified])
  have ups: "fold push_pair (case_option [] id (cp_user_properties q)) None = cp_user_properties q"
    using q by (cases "cp_user_properties q")
      (auto simp: fold_push_pair_None connect_props_ok_def)
  have "?loop no_connect_properties (connect_props_body q) =
      ok \<lparr>cp_session_expiry_interval = cp_session_expiry_interval q,
        cp_receive_maximum = cp_receive_maximum q,
        cp_maximum_packet_size = cp_maximum_packet_size q,
        cp_topic_alias_maximum = cp_topic_alias_maximum q,
        cp_request_response_information = cp_request_response_information q,
        cp_request_problem_information = cp_request_problem_information q,
        cp_user_properties = cp_user_properties q,
        cp_authentication_method = cp_authentication_method q,
        cp_authentication_data = cp_authentication_data q\<rparr>"
    using q
    by (simp add: connect_props_body_def connect_props_ok_def 1 2 3 4 5 6 7 8 9)
      (simp add: no_connect_properties_def ups)
  then show ?thesis by simp
qed

lemma connect_decode_properties_image:
  assumes B: "bytes_doc B" and q: "connect_props_ok q"
  shows "connect_decode_properties B (connect_props_image q @ r) = ok (q, r)"
proof -
  let ?b = "connect_props_body q"
  have b: "length ?b < 128 ^ 4" using q by (simp add: connect_props_ok_def)
  then have u: "unat (word_of_nat (length ?b) :: u32) = length ?b" by (simp add: unat_of_nat)
  have "rl_decode B (len_prefix (length ?b) @ ?b @ r) = ok (word_of_nat (length ?b), ?b @ r)"
  proof (cases "?b = []")
    case True
    then show ?thesis using B by (simp add: len_prefix_def rl_decode_spec rl_spec_def)
  next
    case False
    then show ?thesis using B b by (simp add: len_prefix_def rl_decode_image)
  qed
  then show ?thesis
    using B q by (simp add: connect_decode_properties_def connect_props_image_def u split_to_doc
        connect_loop_body del: unat_of_nat)
qed

definition connect_body :: "connect_packet \<Rightarrow> bytes" where
  "connect_body p =
     len_image (c_protocol_name p) @ c_protocol_level p # c_connect_flags p
       # enc16 (c_keep_alive p) @
     opt_image connect_props_image (c_properties p) @ len_image (c_client_id p) @
     opt_image connect_props_image (c_will_properties p) @
     opt_image len_image (c_will_topic p) @ opt_image len_image (c_will_payload p) @
     opt_image len_image (c_username p) @ opt_image len_image (c_password p)"

definition connect_image :: "connect_packet \<Rightarrow> bytes" where
  "connect_image p = 0x10 # varint (length (connect_body p)) @ connect_body p"

text \<open>A well-formed CONNECT: the flags announce exactly the optional parts that are there.\<close>

definition connect_ok :: "connect_packet \<Rightarrow> bool" where
  "connect_ok p \<longleftrightarrow>
     c_protocol_name p = lit ''MQTT'' \<and> c_protocol_level p = 5 \<and>
     c_properties p \<noteq> None \<and> pred_option connect_props_ok (c_properties p) \<and>
     str_ok (c_client_id p) \<and>
     (c_will_properties p \<noteq> None \<longleftrightarrow> c_connect_flags p AND 0x04 > 0) \<and>
     (c_will_topic p \<noteq> None \<longleftrightarrow> c_connect_flags p AND 0x04 > 0) \<and>
     (c_will_payload p \<noteq> None \<longleftrightarrow> c_connect_flags p AND 0x04 > 0) \<and>
     (c_username p \<noteq> None \<longleftrightarrow> c_connect_flags p AND 0x80 > 0) \<and>
     (c_password p \<noteq> None \<longleftrightarrow> c_connect_flags p AND 0x40 > 0) \<and>
     pred_option connect_props_ok (c_will_properties p) \<and>
     pred_option str_ok (c_will_topic p) \<and> pred_option (\<lambda>d. length d \<le> 65535) (c_will_payload p) \<and>
     pred_option str_ok (c_username p) \<and> pred_option (\<lambda>d. length d \<le> 65535) (c_password p) \<and>
     length (connect_body p) < 128 ^ 4"

lemma connect_will_image:
  assumes B: "bytes_doc B" and p: "connect_ok p"
  shows "connect_will B (c_connect_flags p)
     (opt_image connect_props_image (c_will_properties p) @
      opt_image len_image (c_will_topic p) @ opt_image len_image (c_will_payload p) @ r) =
    ok ((c_will_properties p, c_will_topic p, c_will_payload p), r)"
proof (cases "c_connect_flags p AND 0x04 > 0")
  case True
  then obtain q t l where "c_will_properties p = Some q" "c_will_topic p = Some t"
    "c_will_payload p = Some l"
    using p by (auto simp: connect_ok_def)
  with True B p show ?thesis
    by (simp add: connect_will_def connect_ok_def connect_decode_properties_image wire_simps)
next
  case False
  then have "c_will_properties p = None" "c_will_topic p = None" "c_will_payload p = None"
    using p by (auto simp: connect_ok_def)
  with False show ?thesis by (simp only: connect_will_def if_False opt_image_simps append_Nil)
qed

lemma connect_username_image:
  assumes B: "bytes_doc B" and p: "connect_ok p"
  shows "connect_username B (c_connect_flags p) (opt_image len_image (c_username p) @ r) =
    ok (c_username p, r)"
  using assms
  by (cases "c_username p") (simp_all add: connect_username_def connect_ok_def wire_simps)

lemma connect_password_image:
  assumes B: "bytes_doc B" and p: "connect_ok p"
  shows "connect_password B (c_connect_flags p) (opt_image len_image (c_password p) @ r) =
    ok (c_password p, r)"
  using assms
  by (cases "c_password p") (simp_all add: connect_password_def connect_ok_def wire_simps)

lemma connect_body_pos: "0 < length (connect_body p)"
  by (simp add: connect_body_def)

lemma connect_ok_name:
  assumes "connect_ok p"
  shows "c_protocol_name p = lit ''MQTT''" and "c_protocol_level p = 5" and "str_ok (c_client_id p)"
    and "length (connect_body p) < 128 ^ 4" and "str_ok (c_protocol_name p)"
    and "\<exists>q. c_properties p = Some q \<and> connect_props_ok q"
  using assms by (auto simp: connect_ok_def lit_def str_ok_def)

lemma returns_connect_property: "bytes_doc B \<Longrightarrow> \<exists>y. connect_property B i p b = Some y"
  unfolding connect_property_def
  by (intro returns_intros returns_decode_utf8_string returns_decode_binary_data
      returns_decode_string_pair)

lemma connect_property_shrinks:
  assumes "bytes_doc B" and "connect_property B i p b = ok (p', r)"
  shows "length r < length b"
  using assms(2)
  by (auto simp: connect_property_def andThen_eq_ok need_eq_ok split: if_splits
      dest!: get_u8_shrinks [OF assms(1)] get_u16_shrinks [OF assms(1)] get_u32_shrinks [OF assms(1)]
        decode_utf8_string_ok(3) [OF assms(1)] decode_binary_data_ok [OF assms(1)]
        decode_string_pair_ok [OF assms(1)])

lemma returns_connect_properties_loop:
  assumes "bytes_doc B"
  shows "\<exists>y. connect_properties_loop B p b = Some y"
proof (induction b arbitrary: p rule: length_induct)
  case (1 b)
  show ?case
    using 1 returns_connect_property [OF assms]
    by (subst connect_properties_loop.simps)
      (auto intro!: returns_intros
        dest!: get_u8_shrinks [OF assms] connect_property_shrinks [OF assms])
qed

lemma returns_connect_decode_properties:
  assumes "bytes_doc B"
  shows "\<exists>y. connect_decode_properties B b = Some y"
  unfolding connect_decode_properties_def
  by (intro returns_intros returns_rl_decode returns_connect_properties_loop assms)

lemma returns_connect_decode:
  assumes "bytes_doc B"
  shows "\<exists>y. connect_decode B b = Some y"
  unfolding connect_decode_def connect_will_def connect_username_def connect_password_def Let_def
  by (intro returns_intros returns_rl_decode returns_connect_decode_properties
      returns_decode_utf8_string returns_decode_binary_data assms)

lemma connect_decode_level:
  assumes "connect_decode B b = ok p"
  shows "c_protocol_name p = lit ''MQTT'' \<and> c_protocol_level p = 5 \<and> c_properties p \<noteq> None"
  using assms unfolding connect_decode_def Let_def
  by (elim andThen_okE need_okE prod_okE if_okE err_okE) (simp; fail | fastforce)+

lemma connect_decode_image_plain:
  assumes "bytes_doc B" and "connect_ok p"
  shows "connect_decode B (connect_image p @ r) = ok p"
proof -
  note B = assms(1) and ok = connect_ok_name [OF assms(2)]
  obtain q where q: "c_properties p = Some q" "connect_props_ok q" using ok(6) by blast
  have u: "unat (word_of_nat (length (connect_body p)) :: u32) = length (connect_body p)"
    using ok(4) by (simp add: unat_of_nat)
  have rl: "rl_decode B (varint (length (connect_body p)) @ connect_body p @ r) =
      ok (word_of_nat (length (connect_body p)), connect_body p @ r)"
    using B connect_body_pos ok(4) by (rule rl_decode_image)
  let ?t = "c_protocol_level p # c_connect_flags p # enc16 (c_keep_alive p) @ connect_props_image q
      @ len_image (c_client_id p) @ (opt_image connect_props_image (c_will_properties p) @
        opt_image len_image (c_will_topic p) @ opt_image len_image (c_will_payload p) @
        (opt_image len_image (c_username p) @ (opt_image len_image (c_password p) @ r)))"
  have "connect_body p @ r = len_image (c_protocol_name p) @ ?t"
    by (simp add: connect_body_def q(1))
  then have name: "decode_utf8_string B (connect_body p @ r) = ok (lit ''MQTT'', ?t)"
    using decode_utf8_string_image [OF B ok(5), of ?t] by (simp only: ok(1))
  have "connect_decode B (connect_image p @ r) =
      ok \<lparr>c_protocol_name = lit ''MQTT'', c_protocol_level = 5,
          c_connect_flags = c_connect_flags p, c_keep_alive = c_keep_alive p,
          c_properties = Some q, c_client_id = c_client_id p,
          c_will_properties = c_will_properties p, c_will_topic = c_will_topic p,
          c_will_payload = c_will_payload p, c_username = c_username p,
          c_password = c_password p\<rparr>"
    using B
    by (simp add: connect_decode_def connect_image_def bytes_simps Let_def rl u name ok(2,3)
        connect_decode_properties_image [OF B q(2)] decode_utf8_string_image [OF B]
        connect_will_image [OF assms] connect_username_image [OF assms]
        connect_password_image [OF assms] del: unat_of_nat)
  then show ?thesis using ok(1,2) q(1) by simp
qed

section \<open>Properties\<close>

text \<open>C20: The CONNECT decoder reads every well-formed packet back: keep alive, flags, client
  identifier, all nine kinds of properties, the will, the user name and the password, each present
  exactly when its flag is set; bytes after the packet are ignored.\<close>

theorem connect_decode_image:
  assumes "bytes_doc B" and "connect_ok p"
  shows "connect_decode B (connect_image p @ r) = ok p"
  by (rule connect_decode_image_plain [OF assms])

theorem connect_decode_image_witness:
  "let p = \<lparr>c_protocol_name = lit ''MQTT'', c_protocol_level = 5, c_connect_flags = 0xC0,
     c_keep_alive = 60,
     c_properties = Some (no_connect_properties\<lparr>cp_receive_maximum := Some 10\<rparr>),
     c_client_id = lit ''clientID'', c_will_properties = None, c_will_topic = None,
     c_will_payload = None, c_username = Some (lit ''username''),
     c_password = Some (lit ''password'')\<rparr> in
   connect_decode list_bytes (connect_image p @ []) = ok p"
  unfolding Let_def
  by (rule connect_decode_image)
    (simp_all add: connect_ok_def no_connect_properties_def connect_props_ok_def str_ok_def lit_def
      connect_props_body_def connect_body_def connect_props_image_def len_prefix_def varint_cases)

end
