(* ===== verification/Connack.thy ===== *)
theory Connack
  imports Connect
begin

text \<open>
  \<open>protocol/v5/connack.rs\<close>: the CONNACK packet, its encoder, and the decoder that the tests
  of that file compile.
\<close>

unbundle bit_operations_syntax

record connack_properties =
  ck_session_expiry_interval :: "u32 option"
  ck_receive_maximum :: "u16 option"
  ck_maximum_qos :: "u8 option"
  ck_retain_available :: "u8 option"
  ck_maximum_packet_size :: "u16 option"
  ck_assigned_client_identifier :: "rstring option"
  ck_topic_alias_maximum :: "u16 option"
  ck_reason_string :: "rstring option"
  ck_user_properties :: "(rstring \<times> rstring) list option"
  ck_wildcard_subscription_available :: "u8 option"
  ck_subscription_identifier_available :: "u8 option"
  ck_shared_subscription_available :: "u8 option"
  ck_server_keep_alive :: "u16 option"
  ck_response_information :: "rstring option"
  ck_server_reference :: "rstring option"
  ck_authentication_method :: "rstring option"
  ck_authentication_data :: "bytes option"

definition no_connack_properties :: connack_properties where
  "no_connack_properties = \<lparr>
     ck_session_expiry_interval = None,
     ck_receive_maximum = None,
     ck_maximum_qos = None,
     ck_retain_available = None,
     ck_maximum_packet_size = None,
     ck_assigned_client_identifier = None,
     ck_topic_alias_maximum = None,
     ck_reason_string = None,
     ck_user_properties = None,
     ck_wildcard_subscription_available = None,
     ck_subscription_identifier_available = None,
     ck_shared_subscription_available = None,
     ck_server_keep_alive = None,
     ck_response_information = None,
     ck_server_reference = None,
     ck_authentication_method = None,
     ck_authentication_data = None\<rparr>"

record connack_packet =
  k_session_present :: bool
  k_return_code :: u8
  k_properties :: "connack_properties option"

definition connack_default :: connack_packet where
  "connack_default = \<lparr>k_session_present = False, k_return_code = 0, k_properties = None\<rparr>"

section \<open>Encoder\<close>

text \<open>One optional field: its identifier and its value, in the field's wire type.\<close>

definition opt_u8 :: "bytes_crate \<Rightarrow> u8 \<Rightarrow> u8 option \<Rightarrow> bytes \<Rightarrow> bytes" where
  "opt_u8 B i x buf = (case x of None \<Rightarrow> buf | Some v \<Rightarrow> put_u8 B (put_u8 B buf i) v)"

definition opt_u16 :: "bytes_crate \<Rightarrow> u8 \<Rightarrow> u16 option \<Rightarrow> bytes \<Rightarrow> bytes" where
  "opt_u16 B i x buf = (case x of None \<Rightarrow> buf | Some v \<Rightarrow> put_u16 B (put_u8 B buf i) v)"

definition opt_u32 :: "bytes_crate \<Rightarrow> u8 \<Rightarrow> u32 option \<Rightarrow> bytes \<Rightarrow> bytes" where
  "opt_u32 B i x buf = (case x of None \<Rightarrow> buf | Some v \<Rightarrow> put_u32 B (put_u8 B buf i) v)"

definition opt_str ::
    "bytes_crate \<Rightarrow> u8 \<Rightarrow> rstring option \<Rightarrow> bytes \<Rightarrow> (string, bytes) run" where
  "opt_str B i x buf =
     (case x of None \<Rightarrow> ok buf | Some v \<Rightarrow> encode_utf8_string B (put_u8 B buf i) v)"

definition opt_bin ::
    "bytes_crate \<Rightarrow> u8 \<Rightarrow> bytes option \<Rightarrow> bytes \<Rightarrow> (string, bytes) run" where
  "opt_bin B i x buf =
     (case x of None \<Rightarrow> ok buf | Some v \<Rightarrow> encode_binary_data B (put_u8 B buf i) v)"

definition connack_encode_properties ::
    "bytes_crate \<Rightarrow> connack_properties \<Rightarrow> (string, bytes) run" where
  "connack_encode_properties B p =
     (let buf = opt_u32 B 0x11 (ck_session_expiry_interval p) [] in
     let buf = opt_u16 B 0x21 (ck_receive_maximum p) buf in
     let buf = opt_u8 B 0x24 (ck_maximum_qos p) buf in
     let buf = opt_u8 B 0x25 (ck_retain_available p) buf in
     let buf = opt_u16 B 0x27 (ck_maximum_packet_size p) buf in
     andThen (opt_str B 0x12 (ck_assigned_client_identifier p) buf) (\<lambda>buf.
     let buf = opt_u16 B 0x22 (ck_topic_alias_maximum p) buf in
     andThen (opt_str B 0x1F (ck_reason_string p) buf) (\<lambda>buf.
     andThen (case ck_user_properties p of None \<Rightarrow> ok buf | Some ups \<Rightarrow> encode_pairs B buf ups) (\<lambda>buf.
     let buf = opt_u8 B 0x28 (ck_wildcard_subscription_available p) buf in
     let buf = opt_u8 B 0x29 (ck_subscription_identifier_available p) buf in
     let buf = opt_u8 B 0x2A (ck_shared_subscription_available p) buf in
     let buf = opt_u16 B 0x13 (ck_server_keep_alive p) buf in
     andThen (opt_str B 0x1A (ck_response_information p) buf) (\<lambda>buf.
     andThen (opt_str B 0x1C (ck_server_reference p) buf) (\<lambda>buf.
     andThen (opt_str B 0x15 (ck_authentication_method p) buf) (\<lambda>buf.
     opt_bin B 0x16 (ck_authentication_data p) buf)))))))"

definition connack_encode :: "bytes_crate \<Rightarrow> connack_packet \<Rightarrow> (string, bytes) run" where
  "connack_encode B p =
     (let buf_vrheader = [of_bool (k_session_present p), k_return_code p] in
      andThen (case k_properties p of
          Some properties \<Rightarrow> connack_encode_properties B properties
        | None \<Rightarrow> ok (put_u8 B [] 0)) (\<lambda>buf_prop.
      andThen (rl_bytes (length buf_prop)) (\<lambda>prop_remleng.
      let remaining_leng = length buf_prop + length buf_vrheader + length prop_remleng in
      andThen (rl_bytes remaining_leng) (\<lambda>packet_remleng.
        let buffer = put_u8 B [] 0x20;
            buffer = put_slice B buffer packet_remleng;
            buffer = put_slice B buffer buf_vrheader;
            buffer = put_slice B buffer prop_remleng
        in ok (put_slice B buffer buf_prop)))))"

section \<open>Decoder\<close>

definition connack_property ::
    "bytes_crate \<Rightarrow> u8 \<Rightarrow> connack_properties \<Rightarrow> bytes \<Rightarrow>
       (string, connack_properties \<times> bytes) run" where
  "connack_property B identifier p buf =
     (if identifier = 0x11 then need (get_u32 B buf) (\<lambda>(v, buf).
        ok (p\<lparr>ck_session_expiry_interval := Some v\<rparr>, buf))
      else if identifier = 0x21 then need (get_u16 B buf) (\<lambda>(v, buf).
        ok (p\<lparr>ck_receive_maximum := Some v\<rparr>, buf))
      else if identifier = 0x24 then need (get_u8 B buf) (\<lambda>(v, buf).
        ok (p\<lparr>ck_maximum_qos := Some v\<rparr>, buf))
      else if identifier = 0x25 then need (get_u8 B buf) (\<lambda>(v, buf).
        ok (p\<lparr>ck_retain_available := Some v\<rparr>, buf))
      else if identifier = 0x27 then need (get_u16 B buf) (\<lambda>(v, buf).
        ok (p\<lparr>ck_maximum_packet_size := Some v\<rparr>, buf))
      else if identifier = 0x12 then andThen (decode_utf8_string B buf) (\<lambda>(v, buf).
        ok (p\<lparr>ck_assigned_client_identifier := Some v\<rparr>, buf))
      else if identifier = 0x22 then need (get_u16 B buf) (\<lambda>(v, buf).
        ok (p\<lparr>ck_topic_alias_maximum := Some v\<rparr>, buf))
      else if identifier = 0x1F then andThen (decode_utf8_string B buf) (\<lambda>(v, buf).
        ok (p\<lparr>ck_reason_string := Some v\<rparr>, buf))
      else if identifier = 0x26 then andThen (decode_string_pair B buf) (\<lambda>(v, buf).
        ok (p\<lparr>ck_user_properties := push_pair v (ck_user_properties p)\<rparr>, buf))
      else if identifier = 0x28 then need (get_u8 B buf) (\<lambda>(v, buf).
        ok (p\<lparr>ck_wildcard_subscription_available := Some v\<rparr>, buf))
      else if identifier = 0x29 then need (get_u8 B buf) (\<lambda>(v, buf).
        ok (p\<lparr>ck_subscription_identifier_available := Some v\<rparr>, buf))
      else if identifier = 0x2A then need (get_u8 B buf) (\<lambda>(v, buf).
        ok (p\<lparr>ck_shared_subscription_available := Some v\<rparr>, buf))
      else if identifier = 0x13 then need (get_u16 B buf) (\<lambda>(v, buf).
        ok (p\<lparr>ck_server_keep_alive := Some v\<rparr>, buf))
      else if identifier = 0x1A then andThen (decode_utf8_string B buf) (\<lambda>(v, buf).
        ok (p\<lparr>ck_response_information := Some v\<rparr>, buf))
      else if identifier = 0x1C then andThen (decode_utf8_string B buf) (\<lambda>(v, buf).
        ok (p\<lparr>ck_server_reference := Some v\<rparr>, buf))
      else if identifier = 0x15 then andThen (decode_utf8_string B buf) (\<lambda>(v, buf).
        ok (p\<lparr>ck_authentication_method := Some v\<rparr>, buf))
      else if identifier = 0x16 then andThen (decode_binary_data B buf) (\<lambda>(v, buf).
        ok (p\<lparr>ck_authentication_data := Some v\<rparr>, buf))
      else err ''Unknown property identifier'')"

partial_function (option) connack_properties_loop ::
    "bytes_crate \<Rightarrow> connack_properties \<Rightarrow> bytes \<Rightarrow> (string, connack_properties) run" where
  "connack_properties_loop B p buffer =
     (if length buffer > 0 then
        need (get_u8 B buffer) (\<lambda>(identifier, buffer).
        andThen (connack_property B identifier p buffer) (\<lambda>(p, buffer).
          connack_properties_loop B p buffer))
      else ok p)"

declare connack_properties_loop.simps [code]

definition connack_decode_properties ::
    "bytes_crate \<Rightarrow> bytes \<Rightarrow> (string, connack_properties option) run" where
  "connack_decode_properties B buffer =
     (if buffer = [] then ok None
      else andThen (mapErr (\<lambda>_. ''Failed to decode property length'') (rl_decode B buffer))
        (\<lambda>(property_length, buffer).
      if property_length = 0 then ok None
      else andThen (connack_properties_loop B no_connack_properties buffer) (\<lambda>p. ok (Some p))))"

definition connack_decode :: "bytes_crate \<Rightarrow> bytes \<Rightarrow> (string, connack_packet) run" where
  "connack_decode B buffer =
     (if length buffer < 4 then err ''Buffer too short''
      else need (get_u8 B buffer) (\<lambda>(header, buffer).
      let packet_type = drop_bit 4 header in
      if packet_type \<noteq> 2 then err ''Invalid packet type for CONNACK''
      else andThen (mapErr (\<lambda>_. ''Failed to decode remaining length'') (rl_decode B buffer))
        (\<lambda>(remaining_length, buffer).
      if length buffer < unat remaining_length then err ''Buffer too short for remaining length''
      else need (get_u8 B buffer) (\<lambda>(flags, buffer).
      let session_present = flags AND 0x01 \<noteq> 0 in
      need (get_u8 B buffer) (\<lambda>(return_code, buffer).
      andThen (connack_decode_properties B buffer) (\<lambda>properties.
        ok \<lparr>k_session_present = session_present, k_return_code = return_code,
            k_properties = properties\<rparr>))))))"

section \<open>Images\<close>

definition connack_props_body :: "connack_properties \<Rightarrow> bytes" where
  "connack_props_body p =
     opt_image (\<lambda>v. 0x11 # enc32 v) (ck_session_expiry_interval p) @
     opt_image (\<lambda>v. 0x21 # enc16 v) (ck_receive_maximum p) @
     opt_image (\<lambda>v. [0x24, v]) (ck_maximum_qos p) @
     opt_image (\<lambda>v. [0x25, v]) (ck_retain_available p) @
     opt_image (\<lambda>v. 0x27 # enc16 v) (ck_maximum_packet_size p) @
     opt_image (\<lambda>v. 0x12 # len_image v) (ck_assigned_client_identifier p) @
     opt_image (\<lambda>v. 0x22 # enc16 v) (ck_topic_alias_maximum p) @
     opt_image (\<lambda>v. 0x1F # len_image v) (ck_reason_string p) @
     opt_image pairs_image (ck_user_properties p) @
     opt_image (\<lambda>v. [0x28, v]) (ck_wildcard_subscription_available p) @
     opt_image (\<lambda>v. [0x29, v]) (ck_subscription_identifier_available p) @
     opt_image (\<lambda>v. [0x2A, v]) (ck_shared_subscription_available p) @
     opt_image (\<lambda>v. 0x13 # enc16 v) (ck_server_keep_alive p) @
     opt_image (\<lambda>v. 0x1A # len_image v) (ck_response_information p) @
     opt_image (\<lambda>v. 0x1C # len_image v) (ck_server_reference p) @
     opt_image (\<lambda>v. 0x15 # len_image v) (ck_authentication_method p) @
     opt_image (\<lambda>v. 0x16 # len_image v) (ck_authentication_data p)"

definition connack_props_ok :: "connack_properties \<Rightarrow> bool" where
  "connack_props_ok p \<longleftrightarrow> pred_option (\<lambda>ps. ps \<noteq> [] \<and> pairs_ok ps) (ck_user_properties p) \<and>
     pred_option str_ok (ck_assigned_client_identifier p) \<and>
     pred_option str_ok (ck_reason_string p) \<and>
     pred_option str_ok (ck_response_information p) \<and>
     pred_option str_ok (ck_server_reference p) \<and>
     pred_option str_ok (ck_authentication_method p) \<and>
     pred_option (\<lambda>d. length d \<le> 65535) (ck_authentication_data p)"

definition connack_props :: "connack_packet \<Rightarrow> bytes" where
  "connack_props p = (case k_properties p of None \<Rightarrow> [0] | Some q \<Rightarrow> connack_props_body q)"

definition connack_body :: "connack_packet \<Rightarrow> bytes" where
  "connack_body p = of_bool (k_session_present p) # k_return_code p
     # varint (length (connack_props p)) @ connack_props p"

definition connack_ok :: "connack_packet \<Rightarrow> bool" where
  "connack_ok p \<longleftrightarrow>
     pred_option connack_props_ok (k_properties p) \<and> length (connack_body p) < 128 ^ 4"

lemma opt_put_image:
  assumes "bytes_doc B"
  shows "opt_u8 B i x8 b = b @ opt_image (\<lambda>v. [i, v]) x8"
    and "opt_u16 B i x16 b = b @ opt_image (\<lambda>v. i # enc16 v) x16"
    and "opt_u32 B i x32 b = b @ opt_image (\<lambda>v. i # enc32 v) x32"
    and "pred_option str_ok s \<Longrightarrow> opt_str B i s b = ok (b @ opt_image (\<lambda>v. i # len_image v) s)"
    and "pred_option (\<lambda>d. length d \<le> 65535) d \<Longrightarrow>
           opt_bin B i d b = ok (b @ opt_image (\<lambda>v. i # len_image v) d)"
    and "pred_option pairs_ok u \<Longrightarrow>
           (case u of None \<Rightarrow> ok b | Some ups \<Rightarrow> encode_pairs B b ups) =
           (ok (b @ opt_image pairs_image u) :: (string, bytes) run)"
  using assms
  by (auto simp: opt_u8_def opt_u16_def opt_u32_def opt_str_def opt_bin_def wire_simps str_ok_def
      split: option.splits)

lemma connack_encode_properties_image:
  assumes B: "bytes_doc B" and p: "connack_props_ok p"
  shows "connack_encode_properties B p = ok (connack_props_body p)"
proof -
  have "pred_option pairs_ok (ck_user_properties p)"
    using p by (cases "ck_user_properties p") (simp_all add: connack_props_ok_def)
  then show ?thesis
    using p by (simp add: connack_encode_properties_def Let_def opt_put_image [OF B]
        connack_props_ok_def) (simp add: connack_props_body_def)
qed

lemma connack_encode_frame:
  assumes B: "bytes_doc B" and p: "connack_ok p"
  shows "connack_encode B p = ok (0x20 # varint (length (connack_body p)) @ connack_body p)"
proof -
  let ?q = "connack_props p"
  have props: "(case k_properties p of Some properties \<Rightarrow> connack_encode_properties B properties
      | None \<Rightarrow> ok (put_u8 B [] 0)) = ok ?q"
    using p B by (auto simp: connack_ok_def connack_props_def bytes_simps
        connack_encode_properties_image split: option.splits)
  have plen: "rl_bytes (length ?q) = ok (varint (length ?q))"
    using p by (simp add: connack_ok_def connack_body_def rl_bytes_image)
  have "length ?q + length [of_bool (k_session_present p), k_return_code p]
      + length (varint (length ?q)) = length (connack_body p)"
    by (simp add: connack_body_def)
  moreover have "rl_bytes (length (connack_body p)) = ok (varint (length (connack_body p)))"
    using p by (simp add: connack_ok_def rl_bytes_image)
  ultimately show ?thesis
    unfolding connack_encode_def Let_def props andThen_simps plen
    using B by (simp add: bytes_simps) (simp add: connack_body_def)
qed

section \<open>The decoder on an image\<close>

lemma connack_loop_step:
  assumes "bytes_doc B" and "connack_property B i p b = ok (p', r)"
  shows "connack_properties_loop B p (i # b) = connack_properties_loop B p' r"
  using assms by (subst connack_properties_loop.simps) (simp add: bytes_simps)

lemma connack_loop_pairs:
  assumes "bytes_doc B" and "pairs_ok ps"
  shows "connack_properties_loop B p (pairs_image ps @ r) =
    connack_properties_loop B (p\<lparr>ck_user_properties := fold push_pair ps (ck_user_properties p)\<rparr>) r"
  using assms(2)
proof (induction ps arbitrary: p)
  case Nil
  then show ?case by simp
next
  case (Cons kv ps)
  obtain k v where kv: "kv = (k, v)" by (cases kv)
  have "connack_property B 0x26 p (len_image k @ len_image v @ pairs_image ps @ r) =
      ok (p\<lparr>ck_user_properties := push_pair (k, v) (ck_user_properties p)\<rparr>, pairs_image ps @ r)"
    using assms(1) Cons.prems kv by (simp add: connack_property_def wire_simps)
  from connack_loop_step [OF assms(1) this] show ?case
    using Cons by (simp add: kv)
qed

lemma connack_loop_opt:
  assumes "bytes_doc B" and "\<And>v. x = Some v \<Longrightarrow> f v = i # g v"
    and "\<And>v. x = Some v \<Longrightarrow> connack_property B i p (g v @ r) = ok (h (Some v), r)"
    and "h None = p"
  shows "connack_properties_loop B p (opt_image f x @ r) = connack_properties_loop B (h x) r"
  using assms by (cases x) (simp_all add: connack_loop_step)

lemma connack_loop_body:
  assumes B: "bytes_doc B" and q: "connack_props_ok q"
  shows "connack_properties_loop B no_connack_properties (connack_props_body q) = ok q"
proof -
  let ?loop = "connack_properties_loop B"
  note pr = connack_property_def wire_simps B
  have 1: "?loop p (opt_image (\<lambda>v. 0x11 # enc32 v) x @ r) =
      ?loop (p\<lparr>ck_session_expiry_interval := keep x (ck_session_expiry_interval p)\<rparr>) r" for p x r
    by (rule connack_loop_opt [OF B refl,
          where h = "\<lambda>x. p\<lparr>ck_session_expiry_interval := keep x (ck_session_expiry_interval p)\<rparr>"])
      (simp_all add: pr)
  have 2: "?loop p (opt_image (\<lambda>v. 0x21 # enc16 v) x @ r) =
      ?loop (p\<lparr>ck_receive_maximum := keep x (ck_receive_maximum p)\<rparr>) r" for p x r
    by (rule connack_loop_opt [OF B refl,
          where h = "\<lambda>x. p\<lparr>ck_receive_maximum := keep x (ck_receive_maximum p)\<rparr>"])
      (simp_all add: pr)
  have 3: "?loop p (opt_image (\<lambda>v. [0x24, v]) x @ r) =
      ?loop (p\<lparr>ck_maximum_qos := keep x (ck_maximum_qos p)\<rparr>) r" for p x r
    by (rule connack_loop_opt [OF B refl,
          where h = "\<lambda>x. p\<lparr>ck_maximum_qos := keep x (ck_maximum_qos p)\<rparr>"])
      (simp_all add: pr)
  have 4: "?loop p (opt_image (\<lambda>v. [0x25, v]) x @ r) =
      ?loop (p\<lparr>ck_retain_available := keep x (ck_retain_available p)\<rparr>) r" for p x r
    by (rule connack_loop_opt [OF B refl,
          where h = "\<lambda>x. p\<lparr>ck_retain_available := keep x (ck_retain_available p)\<rparr>"])
      (simp_all add: pr)
  have 5: "?loop p (opt_image (\<lambda>v. 0x27 # enc16 v) x @ r) =
      ?loop (p\<lparr>ck_maximum_packet_size := keep x (ck_maximum_packet_size p)\<rparr>) r" for p x r
    by (rule connack_loop_opt [OF B refl,
          where h = "\<lambda>x. p\<lparr>ck_maximum_packet_size := keep x (ck_maximum_packet_size p)\<rparr>"])
      (simp_all add: pr)
  have 6: "?loop p (opt_image (\<lambda>v. 0x12 # len_image v) x @ r) =
      ?loop (p\<lparr>ck_assigned_client_identifier := keep x (ck_assigned_client_identifier p)\<rparr>) r"
    if "pred_option str_ok x" for p x r
    using that by (intro connack_loop_opt [OF B refl,
          where h = "\<lambda>x. p\<lparr>ck_assigned_client_identifier := keep x (ck_assigned_client_identifier p)\<rparr>"])
      (simp_all add: pr)
  have 7: "?loop p (opt_image (\<lambda>v. 0x22 # enc16 v) x @ r) =
      ?loop (p\<lparr>ck_topic_alias_maximum := keep x (ck_topic_alias_maximum p)\<rparr>) r" for p x r
    by (rule connack_loop_opt [OF B refl,
          where h = "\<lambda>x. p\<lparr>ck_topic_alias_maximum := keep x (ck_topic_alias_maximum p)\<rparr>"])
      (simp_all add: pr)
  have 8: "?loop p (opt_image (\<lambda>v. 0x1F # len_image v) x @ r) =
      ?loop (p\<lparr>ck_reason_string := keep x (ck_reason_string p)\<rparr>) r"
    if "pred_option str_ok x" for p x r
    using that by (intro connack_loop_opt [OF B refl,
          where h = "\<lambda>x. p\<lparr>ck_reason_string := keep x (ck_reason_string p)\<rparr>"])
      (simp_all add: pr)
  have 9: "?loop p (opt_image pairs_image x @ r) =
      ?loop (p\<lparr>ck_user_properties := fold push_pair (case_option [] id x) (ck_user_properties p)\<rparr>) r"
    if "pred_option (\<lambda>ps. ps \<noteq> [] \<and> pairs_ok ps) x" for p x r
    using that connack_loop_pairs [OF B, of "case_option [] id x" p r] by (cases x) simp_all
  have 10: "?loop p (opt_image (\<lambda>v. [0x28, v]) x @ r) =
      ?loop (p\<lparr>ck_wildcard_subscription_available := keep x (ck_wildcard_subscription_available p)\<rparr>) r" for p x r
    by (rule connack_loop_opt [OF B refl,
          where h = "\<lambda>x. p\<lparr>ck_wildcard_subscription_available := keep x (ck_wildcard_subscription_available p)\<rparr>"])
      (simp_all add: pr)
  have 11: "?loop p (opt_image (\<lambda>v. [0x29, v]) x @ r) =
      ?loop (p\<lparr>ck_subscription_identifier_available := keep x (ck_subscription_identifier_available p)\<rparr>) r" for p x r
    by (rule connack_loop_opt [OF B refl,
          where h = "\<lambda>x. p\<lparr>ck_subscription_identifier_available := keep x (ck_subscription_identifier_available p)\<rparr>"])
      (simp_all add: pr)
  have 12: "?loop p (opt_image (\<lambda>v. [0x2A, v]) x @ r) =
      ?loop (p\<lparr>ck_shared_subscription_available := keep x (ck_shared_subscription_available p)\<rparr>) r" for p x r
    by (rule connack_loop_opt [OF B refl,
          where h = "\<lambda>x. p\<lparr>ck_shared_subscription_available := keep x (ck_shared_subscription_available p)\<rparr>"])
      (simp_all add: pr)
  have 13: "?loop p (opt_image (\<lambda>v. 0x13 # enc16 v) x @ r) =
      ?loop (p\<lparr>ck_server_keep_alive := keep x (ck_server_keep_alive p)\<rparr>) r" for p x r
    by (rule connack_loop_opt [OF B refl,
          where h = "\<lambda>x. p\<lparr>ck_server_keep_alive := keep x (ck_server_keep_alive p)\<rparr>"])
      (simp_all add: pr)
  have 14: "?loop p (opt_image (\<lambda>v. 0x1A # len_image v) x @ r) =
      ?loop (p\<lparr>ck_response_information := keep x (ck_response_information p)\<rparr>) r"
    if "pred_option str_ok x" for p x r
    using that by (intro connack_loop_opt [OF B refl,
          where h = "\<lambda>x. p\<lparr>ck_response_information := keep x (ck_response_information p)\<rparr>"])
      (simp_all add: pr)
  have 15: "?loop p (opt_image (\<lambda>v. 0x1C # len_image v) x @ r) =
      ?loop (p\<lparr>ck_server_reference := keep x (ck_server_reference p)\<rparr>) r"
    if "pred_option str_ok x" for p x r
    using that by (intro connack_loop_opt [OF B refl,
          where h = "\<lambda>x. p\<lparr>ck_server_reference := keep x (ck_server_reference p)\<rparr>"])
      (simp_all add: pr)
  have 16: "?loop p (opt_image (\<lambda>v. 0x15 # len_image v) x @ r) =
      ?loop (p\<lparr>ck_authentication_method := keep x (ck_authentication_method p)\<rparr>) r"
    if "pred_option str_ok x" for p x r
    using that by (intro connack_loop_opt [OF B refl,
          where h = "\<lambda>x. p\<lparr>ck_authentication_method := keep x (ck_authentication_method p)\<rparr>"])
      (simp_all add: pr)
  have 17: "?loop p (opt_image (\<lambda>v. 0x16 # len_image v) x) =
      ok (p\<lparr>ck_authentication_data := keep x (ck_authentication_data p)\<rparr>)"
    if "pred_option (\<lambda>d. length d \<le> 65535) x" for p x
    using that connack_loop_opt [OF B refl, where x = x and i = "0x16" and g = "\<lambda>v. len_image v"
          and p = p and r = "[]" and h = "\<lambda>x. p\<lparr>ck_authentication_data := keep x (ck_authentication_data p)\<rparr>"]
    by (cases x) (simp_all add: pr connack_properties_loop.simps [of B _ "[]"]
        decode_binary_data_image [where r = "[]", simplified])
  have ups: "fold push_pair (case_option [] id (ck_user_properties q)) None = ck_user_properties q"
    using q by (cases "ck_user_properties q")
      (auto simp: fold_push_pair_None connack_props_ok_def)
  have "?loop no_connack_properties (connack_props_body q) = ok \<lparr>
      ck_session_expiry_interval = ck_session_expiry_interval q,
      ck_receive_maximum = ck_receive_maximum q,
      ck_maximum_qos = ck_maximum_qos q,
      ck_retain_available = ck_retain_available q,
      ck_maximum_packet_size = ck_maximum_packet_size q,
      ck_assigned_client_identifier = ck_assigned_client_identifier q,
      ck_topic_alias_maximum = ck_topic_alias_maximum q,
      ck_reason_string = ck_reason_string q,
      ck_user_properties = ck_user_properties q,
      ck_wildcard_subscription_available = ck_wildcard_subscription_available q,
      ck_subscription_identifier_available = ck_subscription_identifier_available q,
      ck_shared_subscription_available = ck_shared_subscription_available q,
      ck_server_keep_alive = ck_server_keep_alive q,
      ck_response_information = ck_response_information q,
      ck_server_reference = ck_server_reference q,
      ck_authentication_method = ck_authentication_method q,
      ck_authentication_data = ck_authentication_data q\<rparr>"
    using q
    by (simp add: connack_props_body_def connack_props_ok_def 1 2 3 4 5 6 7 8 9 10 11 12 13 14 15 16 17)
      (simp add: no_connack_properties_def ups)
  then show ?thesis by simp
qed

text \<open>The packet up to its property section, for any property section.\<close>

lemma connack_decode_prefix:
  assumes B: "bytes_doc B" and p: "connack_ok p"
  shows "connack_decode B (0x20 # varint (length (connack_body p)) @ connack_body p) =
    andThen (connack_decode_properties B (varint (length (connack_props p)) @ connack_props p))
      (\<lambda>properties. ok \<lparr>k_session_present = k_session_present p,
         k_return_code = k_return_code p, k_properties = properties\<rparr>)"
proof -
  let ?b = "connack_body p"
  have b: "0 < length ?b" "length ?b < 128 ^ 4" "2 \<le> length ?b"
    using p by (simp_all add: connack_ok_def connack_body_def)
  have "varint (length ?b) \<noteq> []" using b(1) by (rule varint_nonempty)
  then have long: "\<not> length (0x20 # varint (length ?b) @ ?b) < 4"
    using b(3) by (cases "varint (length ?b)") simp_all
  have rl: "rl_decode B (varint (length ?b) @ ?b) = ok (word_of_nat (length ?b), ?b)"
    by (rule rl_decode_image [OF B b(1,2)])
  have u: "unat (word_of_nat (length ?b) :: u32) = length ?b"
    using b(2) by (simp add: unat_of_nat)
  have body: "?b = of_bool (k_session_present p) # k_return_code p
      # varint (length (connack_props p)) @ connack_props p"
    by (simp add: connack_body_def)
  show ?thesis
    unfolding connack_decode_def if_not_P [OF long] Let_def
    using B
    by (simp add: get_u8_doc rl u del: unat_of_nat) (simp add: body get_u8_doc)
qed

lemma connack_decode_properties_image:
  assumes B: "bytes_doc B" and p: "connack_ok p" and q: "k_properties p = Some q"
  shows "connack_decode_properties B (varint (length (connack_props p)) @ connack_props p) =
    ok (if connack_props_body q = [] then None else Some q)"
proof (cases "connack_props_body q = []")
  case True
  then show ?thesis using q by (simp add: connack_decode_properties_def connack_props_def)
next
  case False
  let ?b = "connack_props_body q"
  have b: "0 < length ?b" "length ?b < 128 ^ 4"
    using p q False by (simp_all add: connack_ok_def connack_body_def connack_props_def)
  have rl: "rl_decode B (varint (length ?b) @ ?b) = ok (word_of_nat (length ?b), ?b)"
    by (rule rl_decode_image [OF B b])
  have "unat (word_of_nat (length ?b) :: u32) = length ?b"
    using b(2) by (simp add: unat_of_nat)
  then have nz: "(word_of_nat (length ?b) :: u32) \<noteq> 0" using b(1) by (metis less_not_refl unat_0)
  have "connack_props_ok q" using p q by (simp add: connack_ok_def)
  then show ?thesis
    unfolding connack_decode_properties_def using False B
    by (simp add: connack_props_def q rl nz connack_loop_body)
qed

section \<open>Properties\<close>

text \<open>C21: A CONNACK with at least one property is decoded to exactly the packet that was encoded:
  session present, return code and all seventeen kinds of properties.\<close>

theorem connack_roundtrip:
  assumes "bytes_doc B" and "connack_ok p"
    and "k_properties p = Some q" and "connack_props_body q \<noteq> []"
  shows "andThen (connack_encode B p) (connack_decode B) = ok p"
  using connack_encode_frame [OF assms(1,2)] connack_decode_prefix [OF assms(1,2)]
    connack_decode_properties_image [OF assms(1-3)] assms(3,4)
  by simp

definition sample_connack_properties :: connack_properties where
  "sample_connack_properties = no_connack_properties\<lparr>ck_session_expiry_interval := Some 120,
     ck_assigned_client_identifier := Some (lit ''client-123''),
     ck_user_properties := Some [(lit ''key1'', lit ''value1'')]\<rparr>"

lemma sample_connack_body:
  "connack_props_body sample_connack_properties = 0x11 # enc32 120 @ 0x12 # len_image (lit ''client-123'')
     @ 0x26 # len_image (lit ''key1'') @ len_image (lit ''value1'')"
  "connack_props_ok sample_connack_properties"
  by (simp_all add: sample_connack_properties_def connack_props_body_def no_connack_properties_def
      connack_props_ok_def str_ok_def lit_def)

theorem connack_roundtrip_witness:
  "let p = \<lparr>k_session_present = True, k_return_code = 0,
            k_properties = Some sample_connack_properties\<rparr> in
   andThen (connack_encode list_bytes p) (connack_decode list_bytes) = ok p"
  unfolding Let_def
  by (rule connack_roundtrip [where q = sample_connack_properties])
    (simp_all add: connack_ok_def connack_body_def connack_props_def sample_connack_body
      varint_cases lit_def)

text \<open>A CONNACK without properties is written with a property length of one and a zero byte,
  and the decoder of the same file refuses it as an unknown property.\<close>

theorem connack_without_properties:
  assumes "bytes_doc B" and "k_properties p = None"
  shows "connack_encode B p = ok [0x20, 4, of_bool (k_session_present p), k_return_code p, 1, 0] \<and>
    connack_decode B [0x20, 4, of_bool (k_session_present p), k_return_code p, 1, 0] =
      err ''Unknown property identifier''"
proof -
  have p: "connack_ok p"
    using assms(2) by (simp add: connack_ok_def connack_body_def connack_props_def varint_cases)
  have img: "0x20 # varint (length (connack_body p)) @ connack_body p =
      [0x20, 4, of_bool (k_session_present p), k_return_code p, 1, 0]"
    using assms(2) by (simp add: connack_body_def connack_props_def varint_cases)
  have "rl_decode B [1, 0] = ok (1, [0])"
    using assms(1) by (simp add: rl_decode_spec rl_spec_def)
  moreover have "connack_properties_loop B no_connack_properties [0] =
      err ''Unknown property identifier''"
    using assms(1)
    by (subst connack_properties_loop.simps) (simp add: bytes_simps connack_property_def)
  ultimately have "connack_decode_properties B (varint (length (connack_props p)) @ connack_props p)
      = err ''Unknown property identifier''"
    using assms(2) by (simp add: connack_decode_properties_def connack_props_def varint_cases)
  then show ?thesis
    using connack_encode_frame [OF assms(1) p] connack_decode_prefix [OF assms(1) p]
    by (simp only: img andThen_simps simp_thms)
qed

theorem connack_without_properties_witness:
  "connack_encode list_bytes connack_default = ok [0x20, 4, 0, 0, 1, 0] \<and>
   connack_decode list_bytes [0x20, 4, 0, 0, 1, 0] = err ''Unknown property identifier''"
  using connack_without_properties [of list_bytes connack_default]
  by (simp add: connack_default_def)

end
