(* ===== verification/ClientPacket.thy ===== *)
theory ClientPacket
  imports Subscribe Publish Connack
begin

text \<open>
  \<open>protocol/mqtt.rs\<close>: the packets the broker accepts from a connected client, told apart by
  the upper half of their first byte; and what every decoded packet is like.
\<close>

datatype client_packet_v5 =
    CPublish publish_packet
  | CSubscribe subscribe_packet
  | CPingReq

definition PING_RES :: bytes where
  "PING_RES = [0x0D]"

text \<open>\<open>buffer[0]\<close> panics on an empty buffer.\<close>

definition client_packet_decode :: "bytes_crate \<Rightarrow> bytes \<Rightarrow> (malformed, client_packet_v5) run" where
  "client_packet_decode B buffer =
     (case buffer of [] \<Rightarrow> panic | b0 # _ \<Rightarrow>
       let ctrl_packet = drop_bit 4 b0 in
       if ctrl_packet = 0x08 then
         andThen (subscribe_decode B buffer) (\<lambda>p. ok (CSubscribe p))
       else if ctrl_packet = 0x03 then
         andThen (mapErr (\<lambda>_. MalformedPacket) (publish_decode B buffer)) (\<lambda>p. ok (CPublish p))
       else if ctrl_packet = 0x0C then ok CPingReq
       else err ProtocolError)"

lemma returns_client_packet_decode:
  assumes "bytes_doc B"
  shows "\<exists>y. client_packet_decode B b = Some y"
proof (cases b)
  case Nil
  then show ?thesis by (simp add: client_packet_decode_def)
next
  case (Cons b0 bs)
  show ?thesis
    unfolding client_packet_decode_def Cons list.case Let_def
    by (intro returns_intros returns_subscribe_decode returns_publish_decode assms)
qed

lemma client_packet_decode_publish:
  assumes "client_packet_decode B b = ok (CPublish p)"
  shows "publish_decode B b = ok p"
  using assms
  by (auto simp: client_packet_decode_def Let_def andThen_eq_ok mapErr_eq_ok
      split: list.splits if_splits)

section \<open>What a decoded packet is\<close>

text \<open>
  The types of the decoded packets and of their properties: strings are valid and fit their length field, and
  an optional field is there exactly if its flag says so.
\<close>

definition data_ok :: "bytes \<Rightarrow> bool" where
  "data_ok d \<longleftrightarrow> length d \<le> 65535"

definition connect_properties_typed :: "connect_properties \<Rightarrow> bool" where
  "connect_properties_typed q \<longleftrightarrow> pred_option pairs_ok (cp_user_properties q) \<and>
     pred_option str_ok (cp_authentication_method q) \<and> pred_option data_ok (cp_authentication_data q)"

definition publish_properties_typed :: "publish_properties \<Rightarrow> bool" where
  "publish_properties_typed q \<longleftrightarrow> pred_option str_ok (pp_response_topic q) \<and>
     pred_option data_ok (pp_correlation_data q) \<and> pred_option pairs_ok (pp_user_properties q) \<and>
     pred_option str_ok (pp_content_type q)"

definition connect_typed :: "connect_packet \<Rightarrow> bool" where
  "connect_typed c \<longleftrightarrow> c_protocol_name c = lit ''MQTT'' \<and> c_protocol_level c = 5 \<and> c_properties c \<noteq> None \<and>
     pred_option connect_properties_typed (c_properties c) \<and>
     pred_option connect_properties_typed (c_will_properties c) \<and>
     str_ok (c_client_id c) \<and> pred_option str_ok (c_will_topic c) \<and> pred_option data_ok (c_will_payload c) \<and>
     pred_option str_ok (c_username c) \<and> pred_option data_ok (c_password c) \<and>
     (c_will_properties c \<noteq> None \<longleftrightarrow> c_connect_flags c AND 0x04 > 0) \<and>
     (c_will_topic c \<noteq> None \<longleftrightarrow> c_connect_flags c AND 0x04 > 0) \<and>
     (c_will_payload c \<noteq> None \<longleftrightarrow> c_connect_flags c AND 0x04 > 0) \<and>
     (c_username c \<noteq> None \<longleftrightarrow> c_connect_flags c AND 0x80 > 0) \<and>
     (c_password c \<noteq> None \<longleftrightarrow> c_connect_flags c AND 0x40 > 0)"

definition client_packet_typed :: "client_packet_v5 \<Rightarrow> bool" where
  "client_packet_typed packet =
     (case packet of
        CPublish p \<Rightarrow> str_ok (p_topic p) \<and> (p_packet_id p \<noteq> None \<longleftrightarrow> p_qos p \<noteq> QoS0) \<and>
          pred_option publish_properties_typed (p_properties p)
      | CSubscribe s \<Rightarrow> list_all (\<lambda>sub. str_ok (sub_topic sub)) (sp_list s)
      | CPingReq \<Rightarrow> True)"

lemma decode_binary_data_typed:
  assumes "bytes_doc B" and "decode_binary_data B b = ok (s, r)"
  shows "data_ok s"
proof -
  from assms obtain h l t where t: "s = take (unat (dec16 h l)) t" "unat (dec16 h l) \<le> length t"
    by (auto simp: decode_binary_data_def bytes_doc_def need_eq_ok split: list.splits if_splits)
  then show ?thesis using unat_u16_less [of "dec16 h l"] by (simp add: data_ok_def)
qed

text \<open>The loops over the properties: each property read keeps the record well-typed.\<close>

lemma decode_string_pair_typed:
  assumes "bytes_doc B" and "decode_string_pair B b = ok (p, r)"
  shows "str_ok (fst p)" and "str_ok (snd p)"
  using assms(2) by (auto simp: decode_string_pair_def andThen_eq_ok decode_utf8_string_ok(2) [OF assms(1)])

lemma push_pair_typed:
  "str_ok (fst v) \<Longrightarrow> str_ok (snd v) \<Longrightarrow> pred_option pairs_ok ps \<Longrightarrow> pred_option pairs_ok (push_pair v ps)"
  by (cases v; cases ps) (auto simp: push_pair_def pairs_ok_def)

lemmas property_reads = decode_utf8_string_ok(2) decode_binary_data_typed decode_string_pair_typed

lemma connect_property_typed:
  assumes "bytes_doc B" and "connect_property B i p b = ok (p', r)" and "connect_properties_typed p"
  shows "connect_properties_typed p'"
  using assms(2,3)
  by (auto simp: connect_property_def connect_properties_typed_def andThen_eq_ok need_eq_ok
      intro!: push_pair_typed split: if_splits dest: property_reads [OF assms(1)])

lemma publish_property_typed:
  assumes "bytes_doc B" and "publish_property B i p b = ok (p', r)" and "publish_properties_typed p"
  shows "publish_properties_typed p'"
  using assms(2,3)
  by (auto simp: publish_property_def publish_properties_typed_def andThen_eq_ok need_eq_ok
      intro!: push_pair_typed split: if_splits dest: property_reads [OF assms(1)])

lemma connect_loop_typed:
  assumes B: "bytes_doc B"
  shows "connect_properties_loop B p b = ok p' \<Longrightarrow> connect_properties_typed p \<Longrightarrow> connect_properties_typed p'"
proof (induction b arbitrary: p rule: length_induct)
  case (1 b)
  show ?case
  proof (cases "b = []")
    case False
    then obtain i b1 q b2 where step: "get_u8 B b = Some (i, b1)" "connect_property B i p b1 = ok (q, b2)"
      "connect_properties_loop B q b2 = ok p'"
      using 1(2) [unfolded connect_properties_loop.simps [of B p b]] by (auto simp: need_eq_ok andThen_eq_ok)
    then have "length b2 < length b" using get_u8_shrinks [OF B] connect_property_shrinks [OF B] less_trans by blast
    then show ?thesis using 1(1) step(3) connect_property_typed [OF B step(2) 1(3)] by blast
  qed (use 1(2,3) connect_properties_loop.simps [of B p "[]"] in simp)
qed

lemma publish_loop_typed:
  assumes B: "bytes_doc B"
  shows "publish_properties_loop B p b = ok p' \<Longrightarrow> publish_properties_typed p \<Longrightarrow> publish_properties_typed p'"
proof (induction b arbitrary: p rule: length_induct)
  case (1 b)
  show ?case
  proof (cases "b = []")
    case False
    then obtain i b1 q b2 where step: "get_u8 B b = Some (i, b1)" "publish_property B i p b1 = ok (q, b2)"
      "publish_properties_loop B q b2 = ok p'"
      using 1(2) [unfolded publish_properties_loop.simps [of B p b]] by (auto simp: need_eq_ok andThen_eq_ok)
    then have "length b2 < length b" using get_u8_shrinks [OF B] publish_property_shrinks [OF B] less_trans by blast
    then show ?thesis using 1(1) step(3) publish_property_typed [OF B step(2) 1(3)] by blast
  qed (use 1(2,3) publish_properties_loop.simps [of B p "[]"] in simp)
qed

lemma connect_decode_properties_typed:
  assumes "bytes_doc B" and "connect_decode_properties B b = ok (q, r)"
  shows "connect_properties_typed q"
  using assms(2) connect_loop_typed [OF assms(1), of no_connect_properties]
  by (auto simp: connect_decode_properties_def andThen_eq_ok need_eq_ok connect_properties_typed_def
      no_connect_properties_def)

lemma publish_properties_decode_typed:
  assumes "bytes_doc B" and "publish_properties_decode B b = ok (q, r)"
  shows "pred_option publish_properties_typed q"
  using assms(2) publish_loop_typed [OF assms(1), of no_publish_properties]
  by (auto simp: publish_properties_decode_def andThen_eq_ok need_eq_ok publish_properties_typed_def
      no_publish_properties_def split: if_splits)

lemma publish_decode_properties:
  assumes "publish_decode B b = ok p"
  obtains b1 b2 where "publish_properties_decode B b1 = ok (p_properties p, b2)"
  using assms unfolding publish_decode_def Let_def
  by (elim andThen_okE need_okE prod_okE if_okE err_okE) auto

lemma publish_decode_typed:
  assumes "bytes_doc B" and "publish_decode B b = ok p"
  shows "pred_option publish_properties_typed (p_properties p)"
  using publish_decode_properties [OF assms(2)] publish_properties_decode_typed [OF assms(1)] by blast

lemma connect_will_typed:
  assumes "bytes_doc B" and "connect_will B flags b = ok ((props, topic, payload), r)"
  shows "pred_option connect_properties_typed props \<and> pred_option str_ok topic \<and> pred_option data_ok payload \<and>
    (props \<noteq> None \<longleftrightarrow> flags AND 0x04 > 0) \<and> (topic \<noteq> None \<longleftrightarrow> flags AND 0x04 > 0) \<and>
    (payload \<noteq> None \<longleftrightarrow> flags AND 0x04 > 0)"
  using assms(2)
  by (auto simp: connect_will_def andThen_eq_ok decode_utf8_string_ok(2) [OF assms(1)]
      connect_decode_properties_typed [OF assms(1)] decode_binary_data_typed [OF assms(1)] split: if_splits)

lemma connect_username_typed:
  assumes "bytes_doc B" and "connect_username B flags b = ok (user, r)"
  shows "pred_option str_ok user \<and> (user \<noteq> None \<longleftrightarrow> flags AND 0x80 > 0)"
  using assms(2)
  by (auto simp: connect_username_def andThen_eq_ok decode_utf8_string_ok(2) [OF assms(1)] split: if_splits)

lemma connect_password_typed:
  assumes "bytes_doc B" and "connect_password B flags b = ok (pass, r)"
  shows "pred_option data_ok pass \<and> (pass \<noteq> None \<longleftrightarrow> flags AND 0x40 > 0)"
  using assms(2)
  by (auto simp: connect_password_def andThen_eq_ok decode_binary_data_typed [OF assms(1)] split: if_splits)

lemma connect_decode_parts:
  assumes "connect_decode B b = ok c"
  obtains b1 b2 b3 b4 b5 where "decode_utf8_string B b1 = ok (c_client_id c, b2)"
    and "connect_will B (c_connect_flags c) b2 = ok ((c_will_properties c, c_will_topic c, c_will_payload c), b3)"
    and "connect_username B (c_connect_flags c) b3 = ok (c_username c, b4)"
    and "connect_password B (c_connect_flags c) b4 = ok (c_password c, b5)"
    and "c_protocol_name c = lit ''MQTT''" and "c_protocol_level c = 5"
    and "\<exists>b6 q b7. connect_decode_properties B b6 = ok (q, b7) \<and> c_properties c = Some q"
  using assms unfolding connect_decode_def Let_def
  by (elim andThen_okE need_okE prod_okE if_okE err_okE) (simp; fail | fastforce)+

lemma connect_decode_typed:
  assumes "bytes_doc B" and "connect_decode B b = ok c"
  shows "connect_typed c"
  using assms(2)
proof (rule connect_decode_parts)
  fix b1 b2 b3 b4 b5
  assume parts: "decode_utf8_string B b1 = ok (c_client_id c, b2)"
    "connect_will B (c_connect_flags c) b2 = ok ((c_will_properties c, c_will_topic c, c_will_payload c), b3)"
    "connect_username B (c_connect_flags c) b3 = ok (c_username c, b4)"
    "connect_password B (c_connect_flags c) b4 = ok (c_password c, b5)"
    "c_protocol_name c = lit ''MQTT''" "c_protocol_level c = 5"
    "\<exists>b6 q b7. connect_decode_properties B b6 = ok (q, b7) \<and> c_properties c = Some q"
  then have "c_properties c \<noteq> None" "pred_option connect_properties_typed (c_properties c)"
    using connect_decode_properties_typed [OF assms(1)] by auto
  then show ?thesis
    unfolding connect_typed_def
    using parts(5,6) decode_utf8_string_ok(2) [OF assms(1) parts(1)] connect_will_typed [OF assms(1) parts(2)]
      connect_username_typed [OF assms(1) parts(3)] connect_password_typed [OF assms(1) parts(4)] by blast
qed

lemma split_to_u16:
  assumes "bytes_doc B" and "split_to B (unat (n :: u16)) b = Some (s, r)"
  shows "length s \<le> 65535"
  using assms unat_u16_less [of n] by (auto simp: bytes_doc_def split: if_splits)

lemma subscriptions_loop_typed:
  assumes B: "bytes_doc B" and "subscriptions_loop B subs b = ok subs'"
    and "list_all (\<lambda>sub. str_ok (sub_topic sub)) subs"
  shows "list_all (\<lambda>sub. str_ok (sub_topic sub)) subs'"
  using assms(2,3)
proof (induction b arbitrary: subs rule: measure_induct_rule [where f = length])
  case (less b)
  show ?case
  proof (cases "b = []")
    case False
    then obtain n b1 t b2 o' b3 q where step: "get_u16 B b = Some (n, b1)"
      "split_to B (unat n) b1 = Some (t, b2)" "utf8_valid t" "get_u8 B b2 = Some (o', b3)"
      "subscriptions_loop B (subs @ [\<lparr>sub_topic = t, sub_max_qos = q\<rparr>]) b3 = ok subs'"
      using less.prems(1) [unfolded subscriptions_loop.simps [of B subs b]]
      by (auto simp: need_eq_ok andThen_eq_ok split: if_splits)
    have "length b3 < length b"
      using get_u16_shrinks [OF B step(1)] get_u8_shrinks [OF B step(4)] step(2)
      by (auto simp: split_to_doc [OF B] split: if_splits)
    from less.IH [OF this step(5)] show ?thesis
      using less.prems(2) split_to_u16 [OF B step(2)] step(3) by (simp add: str_ok_def)
  next
    case True
    have "subscriptions_loop B subs [] = ok subs" by (subst subscriptions_loop.simps) simp
    then show ?thesis using less.prems True by simp
  qed
qed

lemma subscribe_decode_typed:
  assumes "bytes_doc B" and "subscribe_decode B b = ok s"
  shows "list_all (\<lambda>sub. str_ok (sub_topic sub)) (sp_list s)"
  using assms(2) unfolding subscribe_decode_def subscribe_skip_header_def
  by (elim andThen_okE need_okE prod_okE if_okE err_okE)
    (auto dest: subscriptions_loop_typed [OF assms(1)])


lemma client_packet_typed_decode:
  assumes "bytes_doc B" and "client_packet_decode B b = ok packet"
  shows "client_packet_typed packet"
  using assms(2) publish_decode_topic [OF assms(1)] publish_decode_packet_id subscribe_decode_typed [OF assms(1)]
    publish_decode_typed [OF assms(1)]
  by (auto simp: client_packet_decode_def client_packet_typed_def Let_def andThen_eq_ok mapErr_eq_ok
      split: list.splits if_splits)

section \<open>Properties\<close>

text \<open>C25: Every decoder of the protocol layer terminates on every buffer: the loops over
  properties and topic filters always reach a packet, an error or a panic.\<close>

theorem decoders_return:
  assumes "bytes_doc B"
  shows "connect_decode B b \<noteq> None \<and> publish_decode B b \<noteq> None \<and> subscribe_decode B b \<noteq> None \<and>
    client_packet_decode B b \<noteq> None"
  using returns_connect_decode [OF assms, of b] returns_publish_decode [OF assms, of b]
    returns_subscribe_decode [OF assms, of b] returns_client_packet_decode [OF assms, of b]
  by auto

theorem decoders_return_witness:
  "connect_decode list_bytes [0x10, 0xFF] \<noteq> None \<and> publish_decode list_bytes [0x10, 0xFF] \<noteq> None \<and>
   subscribe_decode list_bytes [0x10, 0xFF] \<noteq> None \<and>
   client_packet_decode list_bytes [0x10, 0xFF] \<noteq> None"
  by (rule decoders_return) simp

text \<open>A packet from a client is taken by the upper half of its first byte: 8 is a SUBSCRIBE, 3
  a PUBLISH (whose errors all become a malformed packet), 12 a ping that nothing else is read
  from; any other type is a protocol error.\<close>

theorem client_packet_dispatch:
  "client_packet_decode B (b0 # r) =
     (if drop_bit 4 b0 = 8 then andThen (subscribe_decode B (b0 # r)) (\<lambda>p. ok (CSubscribe p))
      else if drop_bit 4 b0 = 3 then
        andThen (mapErr (\<lambda>_. MalformedPacket) (publish_decode B (b0 # r))) (\<lambda>p. ok (CPublish p))
      else if drop_bit 4 b0 = 12 then ok CPingReq
      else err ProtocolError)"
  by (simp add: client_packet_decode_def Let_def)

text \<open>C24: Whatever the bytes, a packet that a decoder accepts is well-typed: every string in it,
  those of its properties included, is valid UTF-8 of at most 65535 bytes, and so long are its binary
  data fields; a CONNECT has the will, the user name and the password its flags announce and is
  of version 5, and a PUBLISH has an identifier exactly if its quality of service is above 0.\<close>

theorem decoded_packets_typed:
  assumes "bytes_doc B"
  shows "(connect_decode B b = ok c \<longrightarrow> connect_typed c) \<and>
    (client_packet_decode B b = ok packet \<longrightarrow> client_packet_typed packet)"
  using connect_decode_typed [OF assms] client_packet_typed_decode [OF assms] by blast

definition typed_sample :: bytes where
  "typed_sample = [0x82, 0x10, 0x00, 0x01, 0x00, 0x00, 0x0A, 0x74, 0x65, 0x73, 0x74, 0x2F, 0x74, 0x6F, 0x70, 0x69,
     0x63, 0x00]"

theorem decoded_packets_typed_witness:
  "client_packet_typed (CSubscribe \<lparr>sp_id = 1, sp_list = [\<lparr>sub_topic = lit ''test/topic'', sub_max_qos = QoS0\<rparr>]\<rparr>)"
proof -
  have "client_packet_decode list_bytes typed_sample =
      ok (CSubscribe \<lparr>sp_id = 1, sp_list = [\<lparr>sub_topic = lit ''test/topic'', sub_max_qos = QoS0\<rparr>]\<rparr>)"
    by code_simp
  then show ?thesis
    by (rule decoded_packets_typed [OF list_bytes_doc, THEN conjunct2, THEN mp])
qed

end
