(* ===== verification/LinkedList.thy ===== *)
theory LinkedList
  imports Prelude "HOL-Library.Multiset"
begin

text \<open>
  The lock-free list of \<open>ds/linked_list.rs\<close>, on a heap of nodes.  A thread inside \<open>append\<close>,
  \<open>iter_exchange\<close> or \<open>take_first\<close> is a program counter with its local pointers, and
  one step of it is one atomic operation of the source (a load, a compare-and-exchange, or taking a
  node out of its box).  The steps of several threads interleave in any order (sequential
  consistency: the weaker orderings the source asks for allow more executions, not fewer).  Using a
  null pointer or a node already freed is a memory fault: the step gives \<open>None\<close>.
\<close>

datatype 'a node = Node (val: 'a) (nxt: "nat option")

record 'a lheap =
  head :: "nat option"
  cells :: "nat \<Rightarrow> 'a node option"

definition list_new :: "'a lheap" where
  "list_new = \<lparr>head = None, cells = (\<lambda>_. None)\<rparr>"

text \<open>
  Where a thread is: before the first statement of a call with its argument; in \<open>append\<close> with the
  new node, before loading the head (\<open>AppendHead\<close>), before exchanging a null head, before
  loading the head again for \<open>iter_exchange\<close>; in \<open>iter_exchange\<close> before the loop condition,
  before the second load of the loop body, before the final exchange; in \<open>take_first\<close> before
  loading the next pointer, before the exchange, before freeing the node; or back with a result.
\<close>

datatype 'a pc =
    AppendCall 'a
  | AppendHead nat
  | AppendCasHead nat
  | AppendIter nat
  | IterNext nat "nat option"
  | IterAdvance nat nat
  | IterCas nat nat
  | AppendDone
  | TakeCall
  | TakeNext nat
  | TakeCas nat "nat option"
  | TakeFree nat
  | TakeDone "'a option"

fun finished :: "'a pc \<Rightarrow> bool" where
  "finished AppendDone = True"
| "finished (TakeDone _) = True"
| "finished _ = False"

section \<open>One atomic step of a thread\<close>

definition deref :: "'a lheap \<Rightarrow> nat option \<Rightarrow> 'a node option" where
  "deref h p = Option.bind p (cells h)"

text \<open>
  The body of \<open>append\<close>: the first argument is the address the allocator gives to the new node.
\<close>

fun append_step :: "nat \<Rightarrow> 'a pc \<Rightarrow> 'a lheap \<Rightarrow> ('a pc \<times> 'a lheap) option" where
  "append_step a (AppendCall v) h = Some (AppendHead a, h\<lparr>cells := (cells h)(a := Some (Node v None))\<rparr>)"
| "append_step a (AppendHead new) h =
     Some (if head h = None then AppendCasHead new else AppendIter new, h)"
| "append_step a (AppendCasHead new) h =
     (if head h = None then Some (AppendDone, h\<lparr>head := Some new\<rparr>) else Some (AppendHead new, h))"
| "append_step a (AppendIter new) h = Some (IterNext new (head h), h)"
| "append_step a _ h = None"

fun iter_exchange_step :: "'a pc \<Rightarrow> 'a lheap \<Rightarrow> ('a pc \<times> 'a lheap) option" where
  "iter_exchange_step (IterNext new cur) h =
     Option.bind (deref h cur) (\<lambda>n.
       Some (if nxt n = None then IterCas new (the cur) else IterAdvance new (the cur), h))"
| "iter_exchange_step (IterAdvance new cur) h =
     Option.bind (cells h cur) (\<lambda>n. Some (IterNext new (nxt n), h))"
| "iter_exchange_step (IterCas new cur) h =
     Option.bind (cells h cur) (\<lambda>n.
       if nxt n = None
       then Some (AppendDone, h\<lparr>cells := (cells h)(cur := Some (Node (val n) (Some new)))\<rparr>)
       else Some (AppendHead new, h))"
| "iter_exchange_step _ h = None"

fun take_first_step :: "'a pc \<Rightarrow> 'a lheap \<Rightarrow> ('a pc \<times> 'a lheap) option" where
  "take_first_step TakeCall h =
     (case head h of None \<Rightarrow> Some (TakeDone None, h) | Some p \<Rightarrow> Some (TakeNext p, h))"
| "take_first_step (TakeNext p) h = Option.bind (cells h p) (\<lambda>n. Some (TakeCas p (nxt n), h))"
| "take_first_step (TakeCas p next) h =
     (if head h = Some p then Some (TakeFree p, h\<lparr>head := next\<rparr>) else Some (TakeDone None, h))"
| "take_first_step (TakeFree p) h =
     Option.bind (cells h p) (\<lambda>n. Some (TakeDone (Some (val n)), h\<lparr>cells := (cells h)(p := None)\<rparr>))"
| "take_first_step _ h = None"

fun thread_step :: "nat \<Rightarrow> 'a pc \<Rightarrow> 'a lheap \<Rightarrow> ('a pc \<times> 'a lheap) option" where
  "thread_step a pc h =
     (case pc of
        AppendCall _ \<Rightarrow> append_step a pc h
      | AppendHead _ \<Rightarrow> append_step a pc h
      | AppendCasHead _ \<Rightarrow> append_step a pc h
      | AppendIter _ \<Rightarrow> append_step a pc h
      | IterNext _ _ \<Rightarrow> iter_exchange_step pc h
      | IterAdvance _ _ \<Rightarrow> iter_exchange_step pc h
      | IterCas _ _ \<Rightarrow> iter_exchange_step pc h
      | _ \<Rightarrow> take_first_step pc h)"

section \<open>A thread on its own\<close>

text \<open>The calls run to their end with nobody in between; \<open>None\<close> is a fault or no return.\<close>

partial_function (option) run_thread :: "nat \<Rightarrow> 'a pc \<Rightarrow> 'a lheap \<Rightarrow> ('a pc \<times> 'a lheap) option" where
  "run_thread a pc h =
     (if finished pc then Some (pc, h)
      else Option.bind (thread_step a pc h) (\<lambda>r. run_thread a (fst r) (snd r)))"

declare run_thread.simps [code]

definition list_append :: "nat \<Rightarrow> 'a lheap \<Rightarrow> 'a \<Rightarrow> 'a lheap option" where
  "list_append a h v = map_option snd (run_thread a (AppendCall v) h)"

definition take_first :: "'a lheap \<Rightarrow> ('a option \<times> 'a lheap) option" where
  "take_first h = map_option (\<lambda>(pc, h). (case pc of TakeDone r \<Rightarrow> r | _ \<Rightarrow> None, h))
     (run_thread 0 TakeCall h)"

lemma run_step:
  "\<not> finished pc \<Longrightarrow> thread_step a pc h = Some (pc', h') \<Longrightarrow> run_thread a pc h = run_thread a pc' h'"
  by (subst run_thread.simps) simp

lemma run_done [simp]: "finished pc \<Longrightarrow> run_thread a pc h = Some (pc, h)"
  by (subst run_thread.simps) simp

subsection \<open>The chain of nodes and its values\<close>

fun chain :: "(nat \<Rightarrow> 'a node option) \<Rightarrow> nat option \<Rightarrow> nat list \<Rightarrow> bool" where
  "chain m p [] \<longleftrightarrow> p = None"
| "chain m p (a # as) \<longleftrightarrow> p = Some a \<and> (\<exists>n. m a = Some n \<and> chain m (nxt n) as)"

definition vals :: "(nat \<Rightarrow> 'a node option) \<Rightarrow> nat list \<Rightarrow> 'a list" where
  "vals m as = map (\<lambda>a. val (the (m a))) as"

definition holds_list :: "'a lheap \<Rightarrow> nat list \<Rightarrow> bool" where
  "holds_list h as \<longleftrightarrow> chain (cells h) (head h) as \<and> distinct as"

lemma chain_dom: "chain m p as \<Longrightarrow> a \<in> set as \<Longrightarrow> \<exists>n. m a = Some n"
  by (induction as arbitrary: p) auto

lemma chain_cong: "chain m p as \<Longrightarrow> \<forall>a \<in> set as. m' a = m a \<Longrightarrow> chain m' p as"
  by (induction as arbitrary: p) auto

lemma vals_cong: "\<forall>a \<in> set as. m' a = m a \<Longrightarrow> vals m' as = vals m as"
  by (simp add: vals_def)

lemma chain_None [simp]: "chain m None as \<longleftrightarrow> as = []"
  by (cases as) auto

lemma chain_Some: "chain m (Some p) as \<longleftrightarrow>
    (\<exists>n bs. as = p # bs \<and> m p = Some n \<and> chain m (nxt n) bs)"
  by (cases as) auto

lemma chain_not_None: "chain m p (xs @ [l]) \<Longrightarrow> p \<noteq> None"
  by (cases xs) auto

text \<open>Inside a chain, a null next pointer is at the last node and any other is inside the chain.\<close>

lemma chain_split:
  "chain m p (xs @ a # ys) \<Longrightarrow> \<exists>n. m a = Some n \<and> chain m (nxt n) ys"
  by (induction xs arbitrary: p) auto

lemma chain_next:
  assumes "chain m p as" and "a \<in> set as" and "m a = Some n"
  shows "nxt n = None \<Longrightarrow> \<exists>xs. as = xs @ [a]" and "nxt n = Some b \<Longrightarrow> b \<in> set as"
proof -
  obtain xs ys where s: "as = xs @ a # ys" using split_list assms(2) by metis
  then have ys: "chain m (nxt n) ys" using chain_split assms(1,3) by fastforce
  show "nxt n = None \<Longrightarrow> \<exists>xs. as = xs @ [a]" using s ys by auto
  show "nxt n = Some b \<Longrightarrow> b \<in> set as" using s ys by (cases ys) auto
qed

text \<open>Hanging a new node on the last one.\<close>

lemma chain_hang:
  assumes "chain m p (xs @ [a])" and "distinct (xs @ [a])" and "new \<notin> set (xs @ [a])"
    and "m a = Some n" and "m new = Some k" and "nxt k = None"
  shows "chain (m(a := Some (Node (val n) (Some new)))) p (xs @ [a, new])"
  using assms by (induction xs arbitrary: p) auto

lemma vals_hang:
  assumes "distinct (xs @ [a])" and "new \<notin> set (xs @ [a])" and "m a = Some n" and "m new = Some k"
  shows "vals (m(a := Some (Node (val n) (Some new)))) (xs @ [a, new]) = vals m (xs @ [a]) @ [val k]"
  using assms by (auto simp: vals_def)

subsection \<open>The calls on their own are those of a queue\<close>

text \<open>The list holds exactly these values, first to last, and the heap no other node.\<close>

definition represents :: "'a lheap \<Rightarrow> 'a list \<Rightarrow> bool" where
  "represents h xs \<longleftrightarrow>
     (\<exists>as. holds_list h as \<and> dom (cells h) = set as \<and> xs = vals (cells h) as)"

lemma run_iter:
  "chain (cells h) p (xs @ [l]) \<Longrightarrow> run_thread a (IterNext new p) h = run_thread a (IterCas new l) h"
proof (induction xs arbitrary: p)
  case Nil
  then show ?case by (auto simp: run_step deref_def)
next
  case (Cons x xs)
  then obtain n where n: "p = Some x" "cells h x = Some n" "chain (cells h) (nxt n) (xs @ [l])" by auto
  note chain_not_None [OF n(3)]
  then have "run_thread a (IterNext new p) h = run_thread a (IterAdvance new x) h"
    using n by (simp add: run_step deref_def)
  also have "\<dots> = run_thread a (IterNext new (nxt n)) h" using n by (simp add: run_step)
  finally show ?case using Cons.IH [OF n(3)] by simp
qed

lemma run_append_empty:
  "head h = None \<Longrightarrow> run_thread a (AppendHead new) h = Some (AppendDone, h\<lparr>head := Some new\<rparr>)"
  by (simp add: run_step)

lemma run_append_last:
  assumes "chain (cells h) (head h) (xs @ [l])" and "cells h l = Some n"
  shows "run_thread a (AppendHead new) h =
    Some (AppendDone, h\<lparr>cells := (cells h)(l := Some (Node (val n) (Some new)))\<rparr>)"
proof -
  obtain c where "head h = Some c" using chain_not_None [OF assms(1)] by blast
  then have "run_thread a (AppendHead new) h = run_thread a (IterCas new l) h"
    using run_iter [OF assms(1)] by (simp add: run_step)
  moreover have "nxt n = None" using chain_split [OF assms(1)] assms(2) by simp
  ultimately show ?thesis using assms(2) by (simp add: run_step)
qed

lemma list_append_spec:
  assumes "represents h xs" and "cells h a = None"
  shows "\<exists>h'. list_append a h v = Some h' \<and> represents h' (xs @ [v]) \<and>
    dom (cells h') = insert a (dom (cells h))"
proof -
  obtain as where as: "chain (cells h) (head h) as" "distinct as" "dom (cells h) = set as"
    "xs = vals (cells h) as"
    using assms(1) by (auto simp: represents_def holds_list_def)
  let ?m = "(cells h)(a := Some (Node v None))"
  let ?h = "h\<lparr>cells := ?m\<rparr>"
  have a: "a \<notin> set as" using as(3) assms(2) by auto
  have m: "chain ?m (head h) as" "vals ?m as = vals (cells h) as"
    using a chain_cong [OF as(1), of ?m] vals_cong [of as ?m "cells h"] by auto
  have run: "list_append a h v = map_option snd (run_thread a (AppendHead a) ?h)"
    by (simp add: list_append_def run_step)
  show ?thesis
  proof (cases as rule: rev_exhaust)
    case Nil
    then have hd: "head h = None" using as(1) by simp
    have "represents (?h\<lparr>head := Some a\<rparr>) (xs @ [v])"
      using as Nil by (auto simp: represents_def holds_list_def vals_def intro!: exI [of _ "[a]"])
    then show ?thesis using run run_append_empty [of ?h] hd by (simp add: insert_commute)
  next
    case (snoc ys l)
    then obtain n where n: "?m l = Some n" using chain_dom [OF m(1), of l] by auto
    let ?m' = "?m(l := Some (Node (val n) (Some a)))"
    have "chain ?m' (head h) (as @ [a])"
      using chain_hang [of ?m "head h" ys l a n "Node v None"] m(1) as(2) a n snoc by simp
    moreover have "vals ?m' (as @ [a]) = xs @ [v]"
      using vals_hang [of ys l a ?m n "Node v None"] m(2) as(2,4) a n snoc by simp
    moreover have "dom ?m' = set (as @ [a])" using as(3) snoc by auto
    ultimately have "represents (?h\<lparr>cells := ?m'\<rparr>) (xs @ [v])"
      using as(2) a unfolding represents_def holds_list_def
      by (intro exI [of _ "as @ [a]"]) simp
    moreover have "run_thread a (AppendHead a) ?h = Some (AppendDone, ?h\<lparr>cells := ?m'\<rparr>)"
      using run_append_last [of ?h ys l n] m(1) n snoc by simp
    moreover have "dom ?m' = insert a (dom (cells h))" using as(3) snoc by auto
    ultimately show ?thesis using run by simp
  qed
qed

lemma take_first_empty: "represents h [] \<Longrightarrow> take_first h = Some (None, h)"
  by (auto simp: represents_def holds_list_def vals_def take_first_def run_step)

lemma take_first_spec:
  assumes "represents h (x # xs)"
  shows "\<exists>h'. take_first h = Some (Some x, h') \<and> represents h' xs \<and> dom (cells h') \<subseteq> dom (cells h)"
proof -
  obtain a as where as: "chain (cells h) (head h) (a # as)" "distinct (a # as)"
    "dom (cells h) = set (a # as)" "x # xs = vals (cells h) (a # as)"
    using assms by (auto simp: represents_def holds_list_def vals_def Cons_eq_map_conv)
  then obtain n where n: "head h = Some a" "cells h a = Some n" "chain (cells h) (nxt n) as" by auto
  let ?h = "h\<lparr>head := nxt n, cells := (cells h)(a := None)\<rparr>"
  have m: "chain ((cells h)(a := None)) (nxt n) as"
    using as(2) by (intro chain_cong [OF n(3)]) auto
  have "take_first h = Some (Some (val n), ?h)"
    using n by (simp add: take_first_def run_step)
  moreover have "val n = x" using as(4) n(2) by (simp add: vals_def)
  moreover have "represents ?h xs"
    using as(2-4) m by (auto simp: represents_def holds_list_def vals_def intro!: exI [of _ as])
  moreover have "dom (cells ?h) \<subseteq> dom (cells h)" by auto
  ultimately show ?thesis by blast
qed

lemma represents_new: "represents list_new []"
  by (simp add: represents_def holds_list_def list_new_def vals_def)

lemma represents_unique:
  assumes "represents h xs" and "represents h ys"
  shows "xs = ys"
  using assms
proof (induction xs arbitrary: h ys)
  case Nil
  have "take_first h = Some (None, h)" using Nil(1) by (rule take_first_empty)
  with Nil(2) show ?case
  proof (cases ys)
    case (Cons y zs)
    then obtain h' where "take_first h = Some (Some y, h')" using Nil(2) take_first_spec [of h y zs] by auto
    with \<open>take_first h = Some (None, h)\<close> show ?thesis by simp
  qed simp
next
  case (Cons x xs)
  obtain h' where h': "take_first h = Some (Some x, h')" "represents h' xs"
    using take_first_spec [OF Cons.prems(1)] by blast
  show ?case
  proof (cases ys)
    case Nil
    then have "take_first h = Some (None, h)" using Cons.prems(2) by (simp add: take_first_empty)
    then show ?thesis using h'(1) by simp
  next
    case (Cons y zs)
    then obtain h'' where "take_first h = Some (Some y, h'')" "represents h'' zs"
      using Cons.prems(2) take_first_spec [of h y zs] by auto
    moreover have "xs = zs"
      by (rule Cons.IH [of h']) (use h' calculation in simp_all)
    ultimately show ?thesis using h' Cons by simp
  qed
qed

section \<open>The contract of a queue\<close>

text \<open>
  What the message queue relies on: appending adds at the end, taking gives the first value or
  nothing, and an address is fresh until it is given to an append.
\<close>

locale fifo_queue =
  fixes repr :: "'s \<Rightarrow> 'v list \<Rightarrow> bool"
    and fresh :: "'a \<Rightarrow> 's \<Rightarrow> bool"
    and enq :: "'a \<Rightarrow> 's \<Rightarrow> 'v \<Rightarrow> 's option"
    and deq :: "'s \<Rightarrow> ('v option \<times> 's) option"
  assumes enq_law: "repr q xs \<Longrightarrow> fresh a q \<Longrightarrow> \<exists>q'. enq a q v = Some q' \<and> repr q' (xs @ [v]) \<and>
      (\<forall>b. fresh b q \<longrightarrow> b \<noteq> a \<longrightarrow> fresh b q')"
    and deq_nil: "repr q [] \<Longrightarrow> \<exists>q'. deq q = Some (None, q') \<and> repr q' [] \<and>
      (\<forall>b. fresh b q \<longrightarrow> fresh b q')"
    and deq_cons: "repr q (x # xs) \<Longrightarrow> \<exists>q'. deq q = Some (Some x, q') \<and> repr q' xs \<and>
      (\<forall>b. fresh b q \<longrightarrow> fresh b q')"

interpretation list: fifo_queue represents "\<lambda>a h. cells h a = None" list_append take_first
proof
  fix h :: "'a lheap" and xs a v
  assume h: "represents h xs" "cells h a = None"
  from list_append_spec [OF this, of v]
  show "\<exists>q'. list_append a h v = Some q' \<and> represents q' (xs @ [v]) \<and>
      (\<forall>b. cells h b = None \<longrightarrow> b \<noteq> a \<longrightarrow> cells q' b = None)"
    by (metis (no_types, lifting) domIff insertE)
next
  fix h :: "'a lheap" and x xs
  assume "represents h (x # xs)"
  from take_first_spec [OF this]
  show "\<exists>q'. take_first h = Some (Some x, q') \<and> represents q' xs \<and>
      (\<forall>b. cells h b = None \<longrightarrow> cells q' b = None)"
    by (metis (no_types, lifting) domIff subsetD)
qed (use take_first_empty in blast)

end
