(* ===== verification/MsgQueue.thy ===== *)
theory MsgQueue
  imports LinkedList
begin

text \<open>
  The message queue of \<open>message_broker/message.rs\<close>: the list of theory \<open>LinkedList\<close> and a
  slot for the waker of the task that waits for a message.  The first part runs \<open>enqueue\<close>, one
  poll of \<open>dequeue\<close> and \<open>clear\<close> one at a time; the second part lets a poll and the enqueues of
  other tasks interleave, each list operation being one step.
\<close>

record ('a, 'w) mqueue =
  mq_q :: "'a lheap"
  mq_s :: "'w option"

datatype 'a poll = Ready 'a | Pending

definition mqueue_new :: "('a, 'w) mqueue" where
  "mqueue_new = \<lparr>mq_q = list_new, mq_s = None\<rparr>"

text \<open>\<open>enqueue\<close>: append, then take the waker out of its slot and wake it (the second component).\<close>

definition enqueue :: "nat \<Rightarrow> ('a, 'w) mqueue \<Rightarrow> 'a \<Rightarrow> (('a, 'w) mqueue \<times> 'w option) option" where
  "enqueue a mq v = map_option (\<lambda>l. (mq\<lparr>mq_q := l, mq_s := None\<rparr>, mq_s mq)) (list_append a (mq_q mq) v)"

text \<open>\<open>DequeueMessage::poll\<close> of a task whose waker is \<open>w\<close>.\<close>

definition poll_dequeue :: "'w \<Rightarrow> ('a, 'w) mqueue \<Rightarrow> ('a poll \<times> ('a, 'w) mqueue) option" where
  "poll_dequeue w mq = map_option (\<lambda>(r, l). case r of
       Some msg \<Rightarrow> (Ready msg, mq\<lparr>mq_q := l\<rparr>)
     | None \<Rightarrow> (Pending, mq\<lparr>mq_q := l, mq_s := Some w\<rparr>)) (take_first (mq_q mq))"

text \<open>\<open>Cleanup::clear\<close>: take messages until there is none.\<close>

partial_function (option) clear_loop :: "('s \<Rightarrow> ('v option \<times> 's) option) \<Rightarrow> 's \<Rightarrow> 's option" where
  "clear_loop deq q =
     Option.bind (deq q) (\<lambda>r. if fst r = None then Some (snd r) else clear_loop deq (snd r))"

declare clear_loop.simps [code]

definition queue_clear :: "('a, 'w) mqueue \<Rightarrow> ('a, 'w) mqueue option" where
  "queue_clear mq = map_option (\<lambda>l. mq\<lparr>mq_q := l\<rparr>) (clear_loop take_first (mq_q mq))"

section \<open>Calls one at a time\<close>

datatype ('a, 'v) queue_call = Enq 'a 'v | Deq

fun run_calls :: "('a \<Rightarrow> 's \<Rightarrow> 'v \<Rightarrow> 's option) \<Rightarrow> ('s \<Rightarrow> ('v option \<times> 's) option) \<Rightarrow>
    ('a, 'v) queue_call list \<Rightarrow> 's \<Rightarrow> ('v option list \<times> 's) option" where
  "run_calls enq deq [] q = Some ([], q)"
| "run_calls enq deq (Enq a v # cs) q = Option.bind (enq a q v) (run_calls enq deq cs)"
| "run_calls enq deq (Deq # cs) q =
     Option.bind (deq q) (\<lambda>(r, q). map_option (\<lambda>(rs, q). (r # rs, q)) (run_calls enq deq cs q))"

text \<open>The same calls on a list of values.\<close>

fun spec_calls :: "('a, 'v) queue_call list \<Rightarrow> 'v list \<Rightarrow> 'v option list \<times> 'v list" where
  "spec_calls [] xs = ([], xs)"
| "spec_calls (Enq _ v # cs) xs = spec_calls cs (xs @ [v])"
| "spec_calls (Deq # cs) [] = (let (rs, ys) = spec_calls cs [] in (None # rs, ys))"
| "spec_calls (Deq # cs) (x # xs) = (let (rs, ys) = spec_calls cs xs in (Some x # rs, ys))"

fun given :: "('a, 'v) queue_call list \<Rightarrow> 'a list" where
  "given [] = []"
| "given (Enq a _ # cs) = a # given cs"
| "given (Deq # cs) = given cs"

context fifo_queue
begin

lemma run_calls_spec:
  assumes "repr q xs" and "distinct (given cs)" and "\<forall>a \<in> set (given cs). fresh a q"
  shows "\<exists>q'. run_calls enq deq cs q = Some (fst (spec_calls cs xs), q') \<and> repr q' (snd (spec_calls cs xs))"
  using assms
proof (induction cs xs arbitrary: q rule: spec_calls.induct)
  case (2 a v cs xs)
  have "fresh a q" using "2.prems" by simp
  from enq_law [OF "2.prems"(1) this] obtain q' where q': "enq a q v = Some q'" "repr q' (xs @ [v])"
    "\<And>b. fresh b q \<Longrightarrow> b \<noteq> a \<Longrightarrow> fresh b q'" by blast
  have "\<forall>b \<in> set (given cs). fresh b q'" using "2.prems" q'(3) by auto
  from "2.IH" [OF q'(2) _ this] show ?case using q'(1) "2.prems" by simp
next
  case (3 cs)
  from deq_nil [OF "3.prems"(1)] obtain q' where q': "deq q = Some (None, q')" "repr q' []"
    "\<And>b. fresh b q \<Longrightarrow> fresh b q'" by blast
  have "\<forall>b \<in> set (given cs). fresh b q'" using "3.prems" q'(3) by simp
  from "3.IH" [OF q'(2) _ this] show ?case using q'(1) "3.prems" by (auto split: prod.splits)
next
  case (4 cs x xs)
  from deq_cons [OF "4.prems"(1)] obtain q' where q': "deq q = Some (Some x, q')" "repr q' xs"
    "\<And>b. fresh b q \<Longrightarrow> fresh b q'" by blast
  have "\<forall>b \<in> set (given cs). fresh b q'" using "4.prems" q'(3) by simp
  from "4.IH" [OF q'(2) _ this] show ?case using q'(1) "4.prems" by (auto split: prod.splits)
qed simp

lemma clear_loop_spec: "repr q xs \<Longrightarrow> \<exists>q'. clear_loop deq q = Some q' \<and> repr q' []"
proof (induction xs arbitrary: q)
  case Nil
  then show ?case using deq_nil by (subst clear_loop.simps) fastforce
next
  case (Cons x xs)
  then obtain q' where "deq q = Some (Some x, q')" "repr q' xs" using deq_cons by blast
  then show ?case using Cons.IH by (subst clear_loop.simps) simp
qed

end

text \<open>The queue with its waker: a stored waker means that there is nothing to take.\<close>

definition mq_repr :: "('a, 'w) mqueue \<Rightarrow> 'a list \<Rightarrow> bool" where
  "mq_repr mq xs \<longleftrightarrow> represents (mq_q mq) xs \<and> (mq_s mq \<noteq> None \<longrightarrow> xs = [])"

definition enqueue_q :: "nat \<Rightarrow> ('a, 'w) mqueue \<Rightarrow> 'a \<Rightarrow> ('a, 'w) mqueue option" where
  "enqueue_q a mq v = map_option fst (enqueue a mq v)"

definition dequeue_q :: "'w \<Rightarrow> ('a, 'w) mqueue \<Rightarrow> ('a option \<times> ('a, 'w) mqueue) option" where
  "dequeue_q w mq =
     map_option (\<lambda>(r, mq). (case r of Ready msg \<Rightarrow> Some msg | Pending \<Rightarrow> None, mq)) (poll_dequeue w mq)"

interpretation mqueue: fifo_queue mq_repr "\<lambda>a mq. cells (mq_q mq) a = None" enqueue_q "dequeue_q w" for w
proof
  fix mq :: "('a, 'b) mqueue" and xs a v
  assume "mq_repr mq xs" and "cells (mq_q mq) a = None"
  then show "\<exists>q'. enqueue_q a mq v = Some q' \<and> mq_repr q' (xs @ [v]) \<and>
      (\<forall>b. cells (mq_q mq) b = None \<longrightarrow> b \<noteq> a \<longrightarrow> cells (mq_q q') b = None)"
    using list.enq_law [of "mq_q mq" xs a v]
    by (auto simp: mq_repr_def enqueue_q_def enqueue_def)
next
  fix mq :: "('a, 'b) mqueue" and x xs and w
  assume "mq_repr mq (x # xs)"
  then show "\<exists>q'. dequeue_q w mq = Some (Some x, q') \<and> mq_repr q' xs \<and>
      (\<forall>b. cells (mq_q mq) b = None \<longrightarrow> cells (mq_q q') b = None)"
    using list.deq_cons [of "mq_q mq" x xs]
    by (auto simp: mq_repr_def dequeue_q_def poll_dequeue_def)
next
  fix mq :: "('a, 'b) mqueue" and w
  assume "mq_repr mq []"
  then show "\<exists>q'. dequeue_q w mq = Some (None, q') \<and> mq_repr q' [] \<and>
      (\<forall>b. cells (mq_q mq) b = None \<longrightarrow> cells (mq_q q') b = None)"
    by (simp add: mq_repr_def dequeue_q_def poll_dequeue_def take_first_empty)
qed

section \<open>A poll among enqueues\<close>

text \<open>
  The waiting task is between two looks at the queue (\<open>Polling\<close>), has found it empty and not yet
  stored its waker (\<open>FoundEmpty\<close>), or has returned \<open>Pending\<close> and sleeps.  \<open>unsent\<close> counts the
  enqueues that have appended and not yet looked at the waker.
\<close>

datatype waiter = Polling | FoundEmpty | Asleep

record 'v traffic =
  items :: "'v list"
  waker_set :: bool
  woken :: bool
  unsent :: nat
  waiter :: waiter
  sent :: "'v list"
  received :: "'v list"

inductive qstep :: "'v traffic \<Rightarrow> 'v traffic \<Rightarrow> bool" where
  append: "qstep s (s\<lparr>items := items s @ [v], sent := sent s @ [v], unsent := Suc (unsent s)\<rparr>)"
| signal: "qstep s (s\<lparr>unsent := unsent s - 1, waker_set := False, woken := woken s \<or> waker_set s\<rparr>)"
    if "0 < unsent s"
| take: "qstep s (s\<lparr>items := xs, received := received s @ [x]\<rparr>)"
    if "waiter s = Polling" "items s = x # xs"
| find_empty: "qstep s (s\<lparr>waiter := FoundEmpty\<rparr>)" if "waiter s = Polling" "items s = []"
| sleep: "qstep s (s\<lparr>waker_set := True, waiter := Asleep\<rparr>)" if "waiter s = FoundEmpty"
| wake: "qstep s (s\<lparr>waiter := Polling, woken := False\<rparr>)" if "waiter s = Asleep" "woken s"

inductive_cases qstepE: "qstep s s'"

definition traffic_new :: "'v traffic" where
  "traffic_new = \<lparr>items = [], waker_set = False, woken = False, unsent = 0, waiter = Polling,
     sent = [], received = []\<rparr>"

abbreviation qsteps :: "'v traffic \<Rightarrow> 'v traffic \<Rightarrow> bool" where
  "qsteps \<equiv> qstep\<^sup>*\<^sup>*"

lemma qsteps_order: "qsteps traffic_new s \<Longrightarrow> sent s = received s @ items s"
  by (induction rule: rtranclp_induct) (auto simp: traffic_new_def elim!: qstepE)

lemma qsteps_sleeper: "qsteps traffic_new s \<Longrightarrow> waiter s = Asleep \<Longrightarrow> woken s \<or> waker_set s"
  by (induction rule: rtranclp_induct) (auto simp: traffic_new_def elim!: qstepE)

lemma finds_empty: "qsteps traffic_new (traffic_new\<lparr>waiter := FoundEmpty\<rparr>)"
  by (intro r_into_rtranclp find_empty) (simp_all add: traffic_new_def)

lemma falls_asleep: "qsteps traffic_new (traffic_new\<lparr>waiter := Asleep, waker_set := True\<rparr>)"
proof -
  have "qstep (traffic_new\<lparr>waiter := FoundEmpty\<rparr>) (traffic_new\<lparr>waiter := Asleep, waker_set := True\<rparr>)"
    using sleep [of "traffic_new\<lparr>waiter := FoundEmpty\<rparr>"] by (simp add: traffic_new_def)
  with finds_empty show ?thesis by (rule rtranclp.rtrancl_into_rtrancl)
qed

section \<open>Properties\<close>

text \<open>C10: Enqueues and polls that run one at a time, in any order, are the calls of a first-in
  first-out queue: each poll is ready with the oldest message not yet given out, and pending exactly
  when there is none; the waker is stored only while there is no message.\<close>

theorem queue_refines_fifo:
  assumes "mq_repr mq xs" and "distinct (given cs)"
    and "\<forall>a \<in> set (given cs). cells (mq_q mq) a = None"
  shows "\<exists>mq'. run_calls enqueue_q (dequeue_q w) cs mq = Some (fst (spec_calls cs xs), mq') \<and>
    mq_repr mq' (snd (spec_calls cs xs))"
  using assms by (rule mqueue.run_calls_spec)

lemma mqueue_new_repr: "mq_repr mqueue_new []"
  by (simp add: mq_repr_def mqueue_new_def represents_new)

theorem queue_refines_fifo_witness:
  "\<exists>mq'. run_calls enqueue_q (dequeue_q (0::nat)) [Deq, Enq 3 ''m'', Enq 5 ''n'', Deq] mqueue_new =
      Some (fst (spec_calls [Deq, Enq (3::nat) ''m'', Enq 5 ''n'', Deq] []), mq') \<and>
    mq_repr mq' (snd (spec_calls [Deq, Enq (3::nat) ''m'', Enq 5 ''n'', Deq] []))"
  by (rule queue_refines_fifo [OF mqueue_new_repr]) (simp_all add: mqueue_new_def list_new_def)

text \<open>Clearing a queue ends, and leaves it empty with every node freed.\<close>

theorem clear_ends:
  assumes "represents (mq_q mq) xs"
  shows "\<exists>mq'. queue_clear mq = Some mq' \<and> represents (mq_q mq') [] \<and> dom (cells (mq_q mq')) = {}"
proof -
  obtain l where "clear_loop take_first (mq_q mq) = Some l" "represents l []"
    using list.clear_loop_spec [OF assms] by blast
  moreover from this(2) have "dom (cells l) = {}" by (auto simp: represents_def vals_def)
  ultimately show ?thesis by (simp add: queue_clear_def)
qed

theorem clear_ends_witness:
  "\<exists>mq'. queue_clear \<lparr>mq_q = \<lparr>head = Some 0, cells = [0 \<mapsto> Node (7::nat) None]\<rparr>, mq_s = None :: nat option\<rparr> =
      Some mq' \<and> represents (mq_q mq') [] \<and> dom (cells (mq_q mq')) = {}"
  by (rule clear_ends [where xs = "[7]"])
    (auto simp: represents_def holds_list_def vals_def intro!: exI [of _ "[0]"])

text \<open>However polls and enqueues interleave, messages are received in the order they were sent,
  none twice, and a message sent and not received is in the queue.\<close>

theorem messages_in_order:
  assumes "qsteps traffic_new s"
  shows "sent s = received s @ items s"
  using assms by (rule qsteps_order)

theorem messages_in_order_witness:
  "sent (traffic_new\<lparr>waiter := FoundEmpty\<rparr> :: nat traffic) =
   received (traffic_new\<lparr>waiter := FoundEmpty\<rparr> :: nat traffic) @
     items (traffic_new\<lparr>waiter := FoundEmpty\<rparr> :: nat traffic)"
  by (rule messages_in_order) (rule finds_empty)

text \<open>C39: A wake-up can be lost: an enqueue between a poll's look at the list and its storing of the
  waker leaves the task asleep with the message in the queue and nobody about to wake it.\<close>

theorem lost_wakeup:
  "\<exists>s. qsteps traffic_new s \<and> items s = [v] \<and> waiter s = Asleep \<and> \<not> woken s \<and> unsent s = 0"
proof -
  let ?e = "traffic_new\<lparr>waiter := FoundEmpty\<rparr> :: 'a traffic"
  let ?a = "?e\<lparr>items := [v], sent := [v], unsent := 1\<rparr>"
  let ?g = "?a\<lparr>unsent := 0\<rparr>"
  have "qstep traffic_new ?e" by (rule find_empty) (simp_all add: traffic_new_def)
  moreover have "qstep ?e ?a" using append [of ?e v] by (simp add: traffic_new_def)
  moreover have "qstep ?a ?g" using signal [of ?a] by (simp add: traffic_new_def)
  moreover have "qstep ?g (?g\<lparr>waker_set := True, waiter := Asleep\<rparr>)" by (rule sleep) simp
  ultimately have "qsteps traffic_new (?g\<lparr>waker_set := True, waiter := Asleep\<rparr>)"
    by (meson converse_rtranclp_into_rtranclp rtranclp.rtrancl_refl)
  then show ?thesis by (intro exI conjI) (assumption, simp_all add: traffic_new_def)
qed

text \<open>A lost wake-up lasts at most until the next message: in every reachable state in which the
  task sleeps, the next enqueue wakes it.\<close>

theorem next_enqueue_wakes:
  assumes "qsteps traffic_new s" and "waiter s = Asleep"
  shows "\<exists>s'. qsteps s s' \<and> sent s' = sent s @ [v] \<and> woken s' \<and> waiter s' = Asleep"
proof -
  let ?a = "s\<lparr>items := items s @ [v], sent := sent s @ [v], unsent := Suc (unsent s)\<rparr>"
  let ?g = "?a\<lparr>unsent := unsent ?a - 1, waker_set := False, woken := woken ?a \<or> waker_set ?a\<rparr>"
  have "qstep s ?a" by (rule append)
  moreover have "qstep ?a ?g" by (rule signal) simp
  ultimately have "qsteps s ?g" by (meson converse_rtranclp_into_rtranclp rtranclp.rtrancl_refl)
  moreover have "woken ?g" "waiter ?g = Asleep" "sent ?g = sent s @ [v]"
    using qsteps_sleeper [OF assms] assms(2) by simp_all
  ultimately show ?thesis by blast
qed

theorem next_enqueue_wakes_witness:
  "\<exists>s'. qsteps (traffic_new\<lparr>waiter := Asleep, waker_set := True\<rparr>) s' \<and>
    sent s' = sent (traffic_new\<lparr>waiter := Asleep, waker_set := True\<rparr>) @ [7::nat] \<and>
    woken s' \<and> waiter s' = Asleep"
  by (rule next_enqueue_wakes [OF falls_asleep]) simp

end
