(* ===== verification/Mediator.thy ===== *)
theory Mediator
  imports ClientLife Router ClientPacket MsgQueue
begin

text \<open>
  The mediator of \<open>message_broker/mediator.rs\<close>: the task that listens to a client
  (\<open>spawn_client\<close>), what it does with a packet (\<open>queue_message\<close>, \<open>subscribe_topics\<close>), and the
  observer that takes messages out of the queue, routes them and forwards them
  (\<open>Publish::forward\<close>).

  The functions are generic in the source, over the queue's insertion, the router and the way of
  sending; so they are here, with \<open>enq\<close>, \<open>subscribe\<close>, \<open>route\<close> and \<open>visit\<close>.  Reading from a socket
  with a timeout and writing to it are code of \<open>tokio\<close>: \<open>RT\<close> and \<open>W\<close>.
\<close>

record message =
  m_publisher :: "client_id option"
  m_packet :: publish_packet

section \<open>Publishing\<close>

definition queue_message :: "('q \<Rightarrow> message \<Rightarrow> 'q) \<Rightarrow> 'q \<Rightarrow> client_id \<Rightarrow> publish_packet \<Rightarrow> 'q" where
  "queue_message enq q clid packet =
     (let msg = \<lparr>m_publisher = None, m_packet = packet\<rparr>;
          msg = (if qos_code (p_qos (m_packet msg)) > 0 then msg\<lparr>m_publisher := Some clid\<rparr> else msg)
      in enq q msg)"

text \<open>\<open>packet.encode().unwrap()\<close>.\<close>

definition withEncoded :: "bytes_crate \<Rightarrow> publish_packet \<Rightarrow> 's \<Rightarrow> (bytes \<Rightarrow> (io_error, unit) run \<times> 's) \<Rightarrow>
    (io_error, unit) run \<times> 's" where
  "withEncoded B packet s f =
     (case publish_encode B packet of None \<Rightarrow> (None, s) | Some (Ok buffer) \<Rightarrow> f buffer | _ \<Rightarrow> (panic, s))"

text \<open>\<open>let _res = ...\<close>: an error is dropped.\<close>

definition ignoreErr :: "(io_error, unit) run \<times> 's \<Rightarrow> (io_error, unit) run \<times> 's" where
  "ignoreErr m = (case m of (Some (Err e), s) \<Rightarrow> (ok (), s) | r \<Rightarrow> r)"

definition downgrade :: "service_level \<Rightarrow> service_level \<Rightarrow> service_level" where
  "downgrade a b =
     (case qos_try_from (min (qos_code a) (qos_code b)) of Some (Ok q) \<Rightarrow> q | _ \<Rightarrow> qos_default)"

definition forward ::
    "bytes_crate \<Rightarrow>
     (client_id \<Rightarrow> ('k client \<Rightarrow> (io_error + unit) \<times> 'k client) \<Rightarrow> 's \<Rightarrow> (io_error + unit) option \<times> 's) \<Rightarrow>
     ('k \<Rightarrow> bytes \<Rightarrow> (io_error + unit) \<times> 'k) \<Rightarrow> 's \<Rightarrow> message \<Rightarrow> subscriber_instance \<Rightarrow>
     (io_error, unit) run \<times> 's" where
  "forward B visit W s msg subs =
     (let packet = m_packet msg;
          qos = downgrade (p_qos packet) (si_max_qos subs) in
      if qos = QoS0 then
        withEncoded B packet s (\<lambda>buffer. (ok (), qos0 visit W s (si_clid subs) buffer))
      else case m_publisher msg of None \<Rightarrow> (panic, s) | Some publisher_id \<Rightarrow>
        case p_packet_id packet of None \<Rightarrow> (panic, s) | Some packet_id \<Rightarrow>
        withEncoded B packet s (\<lambda>buffer. ignoreErr
          (case qos of
             QoS1 \<Rightarrow> qos1 B visit W s publisher_id (si_clid subs) packet_id buffer
           | QoS2 \<Rightarrow> qos2 B visit W s publisher_id (si_clid subs) packet_id buffer
           | QoS0 \<Rightarrow> (ok (), s))))"

text \<open>The observer's handling of one message; the forwarding task it spawns is run to its end.\<close>

definition observe ::
    "bytes_crate \<Rightarrow> ('ro \<Rightarrow> rstring \<Rightarrow> subscriber_instance option) \<Rightarrow>
     (client_id \<Rightarrow> ('k client \<Rightarrow> (io_error + unit) \<times> 'k client) \<Rightarrow> 's \<Rightarrow> (io_error + unit) option \<times> 's) \<Rightarrow>
     ('k \<Rightarrow> bytes \<Rightarrow> (io_error + unit) \<times> 'k) \<Rightarrow> 'ro \<Rightarrow> 's \<Rightarrow> message \<Rightarrow> (io_error, unit) run \<times> 's" where
  "observe B rt visit W router s msg =
     (case rt router (p_topic (m_packet msg)) of
        None \<Rightarrow> (ok (), s)
      | Some subs \<Rightarrow> forward B visit W s msg subs)"

section \<open>Subscribing\<close>

text \<open>The two writes of the \<open>join!\<close> are both made; a failure of either panics.\<close>

definition subscribe_topics ::
    "bytes_crate \<Rightarrow> 'f file_ops \<Rightarrow> ('k \<Rightarrow> bytes \<Rightarrow> (io_error + unit) \<times> 'k) \<Rightarrow>
     ('ro \<Rightarrow> client_id \<Rightarrow> subscribe list \<Rightarrow> (malformed + sub_ack_result list) \<times> 'ro) \<Rightarrow>
     io_error + 'f \<Rightarrow> 'ro \<Rightarrow> 'k client \<Rightarrow> subscribe_packet \<Rightarrow>
     (io_error, 'f) run \<times> 'ro \<times> 'k client" where
  "subscribe_topics B F W subscribe opened router client sub_packet =
     (let (res, router) = subscribe router (cl_clid client) (sp_list sub_packet) in
      case res of
        Inl e \<Rightarrow> (panic, router, client)
      | Inr recode \<Rightarrow>
          let response = \<lparr>sa_id = sp_id sub_packet, sa_properties = None, sa_return_codes = recode\<rparr> in
          (case subs_ack_encode B response of
             None \<Rightarrow> (None, router, client)
           | Some (Ok buffer) \<Rightarrow>
               let (net, k) = W (cl_socket client) buffer;
                   save = store_subscribe B F opened (sp_list sub_packet) in
               (case net of Inl e \<Rightarrow> andThen (unwrap save) (\<lambda>_. panic) | Inr _ \<Rightarrow> unwrap save,
                router, client\<lparr>cl_socket := k\<rparr>)
           | _ \<Rightarrow> (panic, router, client)))"

section \<open>Listening to a client\<close>

record ('k, 'q, 'ro, 'f) listener =
  li_client :: "'k client"
  li_len :: nat
  li_queue :: 'q
  li_router :: 'ro
  li_log :: 'f

text \<open>An entry of the client's log; a failure panics.\<close>

definition listener_log ::
    "bytes_crate \<Rightarrow> 'f file_ops \<Rightarrow> ('f \<Rightarrow> io_error + 'f) \<Rightarrow> ('k, 'q, 'ro, 'f) listener \<Rightarrow> wall \<Rightarrow>
       (io_error, bool \<times> ('k, 'q, 'ro, 'f) listener) run" where
  "listener_log B F open_log l ev =
     andThen (unwrap (log_session B F (open_log (li_log l)) [ev])) (\<lambda>f. ok (False, l\<lparr>li_log := f\<rparr>))"

text \<open>What is done with a packet of the client.\<close>

definition handle_packet ::
    "bytes_crate \<Rightarrow> 'f file_ops \<Rightarrow> ('k \<Rightarrow> bytes \<Rightarrow> (io_error + unit) \<times> 'k) \<Rightarrow>
     ('ro \<Rightarrow> client_id \<Rightarrow> subscribe list \<Rightarrow> (malformed + sub_ack_result list) \<times> 'ro) \<Rightarrow>
     ('q \<Rightarrow> message \<Rightarrow> 'q) \<Rightarrow> io_error + 'f \<Rightarrow> ('k, 'q, 'ro, 'f) listener \<Rightarrow> client_packet_v5 \<Rightarrow>
     (io_error, ('k, 'q, 'ro, 'f) listener) run" where
  "handle_packet B F W subscribe enq opened l packet =
     (case packet of
        CPingReq \<Rightarrow>
          let (r, k) = W (cl_socket (li_client l)) PING_RES
          in ok (l\<lparr>li_client := (li_client l)\<lparr>cl_socket := k\<rparr>\<rparr>)
      | CPublish p \<Rightarrow>
          ok (l\<lparr>li_queue := queue_message enq (li_queue l) (cl_clid (li_client l)) p\<rparr>)
      | CSubscribe p \<Rightarrow>
          let (r, ro, cl) = subscribe_topics B F W subscribe opened (li_router l) (li_client l) p
          in andThen r (\<lambda>_. ok (l\<lparr>li_router := ro, li_client := cl\<rparr>)))"

text \<open>
  One round of the loop \<open>'lis\<close>: the first component of the result says whether the loop goes on.
  \<open>t\<close> is the time at the start of the round, \<open>now'\<close> the time at a \<open>kill\<close>; \<open>li_len\<close> is the length of
  the read buffer, from which \<open>split_to\<close> takes what was read and to which \<open>put_bytes\<close>, at the end of
  the round, gives as much back.
\<close>

definition listen_round ::
    "bool \<Rightarrow> bytes_crate \<Rightarrow> 'f file_ops \<Rightarrow>
     ('k \<Rightarrow> nat \<Rightarrow> u64 \<Rightarrow> (io_error + bytes) \<times> 'k) \<Rightarrow> ('k \<Rightarrow> bytes \<Rightarrow> (io_error + unit) \<times> 'k) \<Rightarrow>
     ('ro \<Rightarrow> client_id \<Rightarrow> subscribe list \<Rightarrow> (malformed + sub_ack_result list) \<times> 'ro) \<Rightarrow>
     ('q \<Rightarrow> message \<Rightarrow> 'q) \<Rightarrow> ('f \<Rightarrow> io_error + 'f) \<Rightarrow> io_error + 'f \<Rightarrow> u64 \<Rightarrow> u64 \<Rightarrow>
     ('k, 'q, 'ro, 'f) listener \<Rightarrow> (io_error, bool \<times> ('k, 'q, 'ro, 'f) listener) run" where
  "listen_round checks B F RT W subscribe enq open_log opened t now' l =
     (let client = li_client l; session = cl_session client in
      if \<not> is_alive session t then
        need (uadd checks t 1) (\<lambda>t1.
        need (expiration_time checks session) (\<lambda>e.
        listener_log B F open_log l \<lparr>w_time = t1, w_value = DisconnectByServer e\<rparr>))
      else need (usub checks (s_ttl session) t) (\<lambda>dur.
        case RT (cl_socket client) (li_len l) dur of
          (Inl er, k) \<Rightarrow>
            let l = l\<lparr>li_client := client\<lparr>cl_socket := k\<rparr>\<rparr> in
            if kind er = IoTimedOut then ok (True, l)
            else need (uadd checks t 1) (\<lambda>t1.
              need (expiration_time checks session) (\<lambda>e.
              listener_log B F open_log l \<lparr>w_time = t1, w_value = ClientDisconnected e\<rparr>))
        | (Inr packet_buf, k) \<Rightarrow>
            let client = client\<lparr>cl_socket := k\<rparr> in
            if packet_buf = [] then
              need (kill checks session now') (\<lambda>s. ok (True, l\<lparr>li_client := client\<lparr>cl_session := s\<rparr>\<rparr>))
            else
              andThen (unwrap (client_packet_decode B packet_buf)) (\<lambda>packet_received.
              need (uadd checks t 1) (\<lambda>t1.
              case session_keep_alive checks session t1 of
                None \<Rightarrow> None
              | Some Panic \<Rightarrow> panic
              | Some (Err _) \<Rightarrow> ok (True, l\<lparr>li_client := client, li_len := li_len l - length packet_buf\<rparr>)
              | Some (Ok (s, _)) \<Rightarrow>
                  andThen (handle_packet B F W subscribe enq opened
                      (l\<lparr>li_client := client\<lparr>cl_session := s\<rparr>\<rparr>) packet_received) (\<lambda>l.
                  ok (True, l))))))"

section \<open>Taking clients in\<close>

text \<open>\<open>is_still_alive\<close>: whether the client is there, and alive.\<close>

definition is_still_alive :: "u64 \<Rightarrow> client_id \<Rightarrow> 'k clients \<Rightarrow> bool option \<times> 'k clients" where
  "is_still_alive t clid clients = search_mut_client clid (\<lambda>c. (is_alive (cl_session c) t, c)) clients"

text \<open>
  What \<open>register\<close> and \<open>try_restore_session\<close> do with the entry of a client just inserted: the
  callback gets its socket, and a listening task is spawned for it (the list of spawned clients).
\<close>

definition attend ::
    "('k \<Rightarrow> 'r \<times> 'k) \<Rightarrow> client_id \<Rightarrow> 'k clients \<Rightarrow> client_id list \<Rightarrow> ('r \<times> 'k clients \<times> client_id list) option" where
  "attend callback clid clients tasks =
     (case search_mut_client clid (\<lambda>c. let (r, k) = callback (cl_socket c) in (r, c\<lparr>cl_socket := k\<rparr>)) clients of
        (None, clients) \<Rightarrow> None
      | (Some r, clients) \<Rightarrow> Some (r, clients, tasks @ [clid]))"

definition register ::
    "u64 \<Rightarrow> ('k \<Rightarrow> 'r \<times> 'k) \<Rightarrow> 'k clients \<Rightarrow> client_id list \<Rightarrow> 'k client \<Rightarrow>
       (string, 'r \<times> 'k clients \<times> client_id list) run" where
  "register now callback clients tasks new_cl =
     (case clients_insert now clients new_cl of
        Inl e \<Rightarrow> err e
      | Inr clients \<Rightarrow> need (attend callback (cl_clid new_cl) clients tasks) ok)"

text \<open>\<open>try_restore_session\<close>, on the outcome of \<open>Client::restore\<close>.\<close>

definition try_restore_session ::
    "u64 \<Rightarrow> ('k \<Rightarrow> 'r \<times> 'k) \<Rightarrow> 'k clients \<Rightarrow> client_id list \<Rightarrow> (io_error, 'k client \<times> 'f) run \<Rightarrow>
       (io_error, ('r \<times> 'k clients \<times> client_id list) \<times> 'f) run" where
  "try_restore_session now callback clients tasks restore =
     andThen restore (\<lambda>(restored_client, log).
     case clients_insert now clients restored_client of
       Inl e \<Rightarrow> panic
     | Inr clients \<Rightarrow>
         (case attend callback (cl_clid restored_client) clients tasks of
            None \<Rightarrow> err (IoError IoOther (lit ''unknown error''))
          | Some r \<Rightarrow> ok (r, log)))"

lemma attend_entry:
  assumes "reg_ok cs" and "entry cs clid = Some c" and "callback (cl_socket c) = (r, k)"
  shows "\<exists>cs'. attend callback clid cs tasks = Some (r, cs', tasks @ [clid]) \<and> reg_ok cs' \<and>
    (\<forall>j. entry cs' j = (if j = clid then Some (c\<lparr>cl_socket := k\<rparr>) else entry cs j))"
  using search_mut_client_spec [OF assms(1), of "\<lambda>c. let (r, k) = callback (cl_socket c) in (r, c\<lparr>cl_socket := k\<rparr>)" clid]
    assms(2,3)
  by (auto simp: attend_def split: prod.splits)

lemma register_spec:
  assumes "reg_ok cs" and "callback (cl_socket new) = (r, k)"
  shows "if \<exists>c. entry cs (cl_clid new) = Some c \<and> is_alive (cl_session c) now
    then register now callback cs tasks new = err ''duplicate client id''
    else \<exists>cs'. register now callback cs tasks new = ok (r, cs', tasks @ [cl_clid new]) \<and> reg_ok cs' \<and>
      (\<forall>j. entry cs' j = (if j = cl_clid new then Some (new\<lparr>cl_socket := k\<rparr>) else entry cs j))"
proof (cases "\<exists>c. entry cs (cl_clid new) = Some c \<and> is_alive (cl_session c) now")
  case True
  then show ?thesis using clients_insert_spec [OF assms(1), of new now] by (simp add: register_def)
next
  case False
  then obtain cs1 where cs1: "clients_insert now cs new = Inr cs1" "reg_ok cs1"
    "\<And>j. entry cs1 j = (if j = cl_clid new then Some new else entry cs j)"
    using clients_insert_spec [OF assms(1), of new now] unfolding if_not_P [OF False] by blast
  then have "entry cs1 (cl_clid new) = Some new" by simp
  from attend_entry [where callback = callback, OF cs1(2) this assms(2), of tasks] show ?thesis
    unfolding if_not_P [OF False] using cs1 by (auto simp: register_def)
qed

lemma is_still_alive_spec:
  assumes "reg_ok cs"
  shows "is_still_alive t clid cs = (map_option (\<lambda>c. is_alive (cl_session c) t) (entry cs clid), cs)"
proof (cases "binary_search_by (\<lambda>c. clid_cmp (cl_clid c) clid) cs")
  case None
  then show ?thesis using binary_search_entry [OF assms, of clid]
    by (simp add: is_still_alive_def search_mut_client_def)
next
  case (Some i)
  then show ?thesis using binary_search_entry [OF assms, of clid]
    by (simp add: is_still_alive_def search_mut_client_def)
qed

section \<open>Lemmas on forwarding\<close>

lemma downgrade_min: "qos_code (downgrade a b) = min (qos_code a) (qos_code b)"
  by (cases a; cases b) (simp_all add: downgrade_def qos_try_from_def)

lemma downgrade_not_QoS0: "downgrade a b \<noteq> QoS0 \<Longrightarrow> a \<noteq> QoS0"
  by (cases a; cases b) (simp_all add: downgrade_def qos_try_from_def)

text \<open>A call that comes back with \<open>Ok\<close> or \<open>Err\<close>.\<close>

definition comes_back :: "(io_error, unit) run \<times> 's \<Rightarrow> bool" where
  "comes_back m \<longleftrightarrow> fst m = ok () \<or> (\<exists>e. fst m = err e)"

named_theorems comes_back_intros \<open>sequences of sends that come back\<close>

lemma comes_back_andAwait [comes_back_intros]:
  "(\<And>s. comes_back (f s)) \<Longrightarrow> comes_back (andAwait m f)"
  by (auto simp: comes_back_def andAwait_def split: sum.splits prod.splits)

lemma comes_back_withAck [comes_back_intros]:
  assumes "bytes_doc B" and "pa_properties ack = None" and "\<And>b. comes_back (f b)"
  shows "comes_back (withAck B ack s f)"
  using assms by (simp add: withAck_def puback_encode_plain)

lemma comes_back_ok [comes_back_intros]: "comes_back (ok (), s)"
  by (simp add: comes_back_def)

lemma qos1_comes_back: "bytes_doc B \<Longrightarrow> comes_back (qos1 B visit W s pub sub i p)"
  unfolding qos1_def Let_def by (intro comes_back_intros) simp_all

lemma qos2_comes_back: "bytes_doc B \<Longrightarrow> comes_back (qos2 B visit W s pub sub i p)"
  unfolding qos2_def Let_def by (intro comes_back_intros) simp_all

lemma ignoreErr_ok: "comes_back m \<Longrightarrow> fst (ignoreErr m) = ok ()"
  by (cases m) (auto simp: ignoreErr_def comes_back_def)

text \<open>The message that \<open>queue_message\<close> makes of a packet.\<close>

definition message_of :: "client_id \<Rightarrow> publish_packet \<Rightarrow> message" where
  "message_of clid p = \<lparr>m_publisher = (if p_qos p = QoS0 then None else Some clid), m_packet = p\<rparr>"

lemma queue_message_of: "queue_message enq q clid p = enq q (message_of clid p)"
  by (cases "p_qos p") (simp_all add: queue_message_def message_of_def)

lemma forward_ok:
  assumes "bytes_doc B" and "publish_encode B p = ok frame" and "p_packet_id p \<noteq> None \<longleftrightarrow> p_qos p \<noteq> QoS0"
  shows "fst (forward B visit W s (message_of clid p) subs) = ok ()"
proof (cases "downgrade (p_qos p) (si_max_qos subs) = QoS0")
  case True
  then show ?thesis using assms(2) by (simp add: forward_def message_of_def Let_def withEncoded_def)
next
  case False
  then have "p_qos p \<noteq> QoS0" by (rule downgrade_not_QoS0)
  moreover from this obtain i where "p_packet_id p = Some i" using assms(3) by auto
  ultimately show ?thesis
    using False assms(2) ignoreErr_ok [OF qos1_comes_back [OF assms(1)]]
      ignoreErr_ok [OF qos2_comes_back [OF assms(1)]]
    by (cases "downgrade (p_qos p) (si_max_qos subs)")
      (simp_all add: forward_def message_of_def Let_def withEncoded_def)
qed

section \<open>Lemmas on listening\<close>

lemma usub_le: "b \<le> a \<Longrightarrow> usub checks a b = Some (a - b)"
  by (simp add: usub_def not_less)

lemma uadd_1:
  fixes t :: u64
  assumes "unat t + 1 < 2 ^ 64"
  shows "uadd checks t 1 = Some (t + 1)" and "unat (t + 1) = unat t + 1"
  using uadd_Some(1) [of t 1 checks] uadd_Some(2) [of t 1] assms by simp_all

text \<open>A round in which a packet comes from a live client.\<close>

lemma listen_round_packet:
  assumes "is_alive (cl_session (li_client l)) t"
    and "RT (cl_socket (li_client l)) (li_len l) (s_ttl (cl_session (li_client l)) - t) = (Inr b, k)" and "b \<noteq> []"
    and "client_packet_decode B b = ok packet" and "unat t + 1 < 2 ^ 64"
  shows "listen_round checks B F RT W sub enq open_log opened t now' l =
    (case session_keep_alive checks (cl_session (li_client l)) (t + 1) of
       None \<Rightarrow> None | Some Panic \<Rightarrow> panic
     | Some (Err _) \<Rightarrow> ok (True, l\<lparr>li_client := (li_client l)\<lparr>cl_socket := k\<rparr>, li_len := li_len l - length b\<rparr>)
     | Some (Ok (s, _)) \<Rightarrow>
         andThen (handle_packet B F W sub enq opened
           (l\<lparr>li_client := (li_client l)\<lparr>cl_socket := k, cl_session := s\<rparr>\<rparr>) packet) (\<lambda>l. ok (True, l)))"
  using assms uadd_1 [OF assms(5)]
  by (simp add: listen_round_def Let_def is_alive_def usub_le)

lemma keep_alive_moves:
  assumes "unat t + 1 < unat (s_ttl s)" and "unat (s_keep_alive s) \<le> 43690" and "unat t + 1 < 2 ^ 63"
  shows "\<exists>ttl. session_keep_alive checks s (t + 1) = ok (s\<lparr>s_ttl := ttl\<rparr>, ttl) \<and>
    unat ttl = unat t + 1 + unat (s_keep_alive s) + unat (s_keep_alive s) div 2"
proof -
  have t1: "unat (t + 1) = unat t + 1" using assms(3) uadd_1 [of t] by simp
  obtain g where g: "grace checks (s_keep_alive s) = Some g"
    "unat g = unat (s_keep_alive s) + unat (s_keep_alive s) div 2"
    using grace_exact [OF assms(2)] by blast
  have u: "unat (ucast g :: u64) = unat g" by (rule unat_ucast_16_64)
  then have "unat (t + 1) + unat (ucast g :: u64) < 2 ^ LENGTH(64)"
    using assms(3) t1 unat_u16_less [of g] by simp
  note uadd_Some [OF this]
  then show ?thesis
    using assms(1) g u t1 by (simp add: session_keep_alive_def word_le_nat_alt)
qed

section \<open>A packet to try things on\<close>

definition plain_publish :: publish_packet where
  "plain_publish = \<lparr>p_dup = False, p_qos = QoS1, p_retain = False, p_topic = lit ''t'',
     p_packet_id = Some 7, p_payload = lit ''x'', p_properties = None\<rparr>"

definition plain_frame :: bytes where
  "plain_frame = [0x32, 0x07, 0x00, 0x01, 0x74, 0x00, 0x07, 0x00, 0x78]"

lemma plain_publish_ok: "publish_ok plain_publish"
  by (simp add: publish_ok_def plain_publish_def str_ok_def lit_def publish_body_def
      publish_props_image_def)

lemma plain_frame_image:
  "publish_fixed_header plain_publish # varint (length (publish_body plain_publish)) @ publish_body plain_publish =
     plain_frame"
  by (simp add: plain_publish_def plain_frame_def publish_fixed_header_def publish_body_def
      publish_props_image_def len_image_def enc16_def lit_def varint_cases)

lemma plain_encode: "publish_encode list_bytes plain_publish = ok plain_frame"
  using publish_encode_frame [OF list_bytes_doc plain_publish_ok] plain_frame_image by simp

lemma plain_decode: "client_packet_decode list_bytes plain_frame = ok (CPublish plain_publish)"
proof -
  have "publish_decode list_bytes plain_frame =
      ok ((publish_view plain_publish)\<lparr>p_payload := p_payload plain_publish @ []\<rparr>)"
    using publish_decode_frame [OF list_bytes_doc plain_publish_ok, of "[]"] plain_frame_image
    by (simp add: plain_publish_def)
  then show ?thesis
    by (simp add: client_packet_decode_def plain_frame_def publish_view_def plain_publish_def)
qed

section \<open>Properties\<close>

text \<open>Forwarding a message that a client sent never panics, whoever subscribes and whatever
  happens on the sockets: a decoded packet that can be encoded again has the publisher and the
  packet identifier that the chosen quality of service needs.\<close>

theorem forward_decoded:
  assumes "bytes_doc B" and "client_packet_decode B b = ok (CPublish p)" and "publish_encode B p = ok frame"
  shows "fst (forward B visit W s (message_of clid p) subs) = ok ()"
  using assms(1,3) publish_decode_packet_id [OF client_packet_decode_publish [OF assms(2)]]
  by (rule forward_ok)


theorem forward_decoded_witness:
  "fst (forward list_bytes search_mut_client log_write sample_registry
     (message_of (clid_new (lit ''a'')) plain_publish) \<lparr>si_clid = clid_new (lit ''z''), si_max_qos = QoS2\<rparr>) = ok ()"
  by (rule forward_decoded [OF list_bytes_doc plain_decode plain_encode])

text \<open>The quality of service of a delivery is the smaller of the message's and the subscription's;
  but only the exchange is chosen by it: to a subscriber at quality of service 0 the packet is
  written as it was published, its own quality of service and packet identifier included, and the
  publisher gets no acknowledgement.\<close>

theorem forward_downgrade:
  assumes "bytes_doc B" and "publish_ok p" and "reg_ok cs" and "entry cs (si_clid subs) = Some c"
    and "si_max_qos subs = QoS0"
    and "W (cl_socket c) (publish_fixed_header p # varint (length (publish_body p)) @ publish_body p) = (r, k)"
  shows "(\<forall>a b. qos_code (downgrade a b) = min (qos_code a) (qos_code b)) \<and>
    (\<exists>cs'. forward B search_mut_client W cs (message_of clid p) subs = (ok (), cs') \<and> reg_ok cs' \<and>
      (\<forall>j. entry cs' j = (if j = si_clid subs then Some (c\<lparr>cl_socket := k\<rparr>) else entry cs j)))"
proof -
  have "downgrade (p_qos p) (si_max_qos subs) = QoS0"
    using assms(5) by (cases "p_qos p") (simp_all add: downgrade_def qos_try_from_def)
  then show ?thesis
    using reg.pubish_found [where W = W, OF assms(3,4,6)] publish_encode_frame [OF assms(1,2)]
    by (auto simp: downgrade_min forward_def message_of_def Let_def withEncoded_def qos0_def)
qed

theorem forward_downgrade_witness:
  "(\<forall>a b. qos_code (downgrade a b) = min (qos_code a) (qos_code b)) \<and>
    (\<exists>cs'. forward list_bytes search_mut_client log_write sample_registry
        (message_of (clid_new (lit ''a'')) plain_publish)
        \<lparr>si_clid = clid_new (lit ''c''), si_max_qos = QoS0\<rparr> = (ok (), cs') \<and> reg_ok cs' \<and>
      (\<forall>j. entry cs' j = (if j = si_clid \<lparr>si_clid = clid_new (lit ''c''), si_max_qos = QoS0\<rparr>
         then Some (sample_client ''c'' 5\<lparr>cl_socket := [plain_frame]\<rparr>) else entry sample_registry j)))"
  by (rule forward_downgrade [OF list_bytes_doc plain_publish_ok sample_registry_ok, where r = "Inr ()"])
    (simp_all add: plain_frame_image entry_def sample_registry_def log_write_def sample_client_def lit_def)

definition route_of :: "subscriber_instance child \<Rightarrow> rstring \<Rightarrow> subscriber_instance option" where
  "route_of t topic = (case route t topic of Some r \<Rightarrow> r | None \<Rightarrow> None)"

lemma observe_routed:
  "route t (p_topic p) = Some (Some subs) \<Longrightarrow>
     observe B route_of visit W t s (message_of clid p) = forward B visit W s (message_of clid p) subs"
  by (simp add: observe_def route_of_def message_of_def)

lemma publish_delivered_spec:
  assumes "bytes_doc B" and "publish_ok p" and "reg_ok cs" and "pub \<noteq> si_clid subs"
    and "route t (p_topic p) = Some (Some subs)" and "downgrade (p_qos p) (si_max_qos subs) = QoS1"
    and "p_packet_id p = Some i"
    and "entry cs (si_clid subs) = Some c"
    and "W (cl_socket c) (publish_fixed_header p # varint (length (publish_body p)) @ publish_body p) = (Inr (), k)"
    and "entry cs pub = Some d" and "W (cl_socket d) (0x40 # 3 # enc16 i @ [0]) = (Inr (), l)"
  shows "\<exists>cs'. observe B route_of search_mut_client W t cs (message_of pub p) = (ok (), cs') \<and> reg_ok cs' \<and>
    (\<forall>j. entry cs' j = (if j = pub then Some (d\<lparr>cl_socket := l\<rparr>)
       else if j = si_clid subs then Some (c\<lparr>cl_socket := k\<rparr>) else entry cs j))"
proof -
  have "p_qos p \<noteq> QoS0" using downgrade_not_QoS0 [of "p_qos p" "si_max_qos subs"] assms(6) by simp
  then have "observe B route_of search_mut_client W t cs (message_of pub p) =
      ignoreErr (qos1 B search_mut_client W cs pub (si_clid subs) i
        (publish_fixed_header p # varint (length (publish_body p)) @ publish_body p))"
    unfolding observe_routed [OF assms(5)]
    using assms(6,7) publish_encode_frame [OF assms(1,2)]
    by (simp add: forward_def Let_def withEncoded_def message_of_def)
  then show ?thesis
    using reg.qos1_found [OF assms(1,3,4,8,9,10,11)] by (auto simp: ignoreErr_def)
qed

text \<open>A message at quality of service 1 on a subscribed topic goes the whole way: the observer
  finds the topic's subscriber, the subscriber's socket is written the packet, then the publisher's
  the PUBACK for it, and nobody else's anything.\<close>

theorem publish_delivered:
  assumes "bytes_doc B" and "publish_ok p" and "reg_ok cs" and "pub \<noteq> si_clid subs"
    and "route t (p_topic p) = Some (Some subs)" and "downgrade (p_qos p) (si_max_qos subs) = QoS1"
    and "p_packet_id p = Some i"
    and "entry cs (si_clid subs) = Some c"
    and "W (cl_socket c) (publish_fixed_header p # varint (length (publish_body p)) @ publish_body p) = (Inr (), k)"
    and "entry cs pub = Some d" and "W (cl_socket d) (0x40 # 3 # enc16 i @ [0]) = (Inr (), l)"
  shows "\<exists>cs'. observe B route_of search_mut_client W t cs (message_of pub p) = (ok (), cs') \<and> reg_ok cs' \<and>
    (\<forall>j. entry cs' j = (if j = pub then Some (d\<lparr>cl_socket := l\<rparr>)
       else if j = si_clid subs then Some (c\<lparr>cl_socket := k\<rparr>) else entry cs j))"
  by (rule publish_delivered_spec) (fact assms)+

definition sample_tree :: "subscriber_instance child" where
  "sample_tree = Child [(lit ''t'', Child [] (Some \<lparr>si_clid = clid_new (lit ''c''), si_max_qos = QoS2\<rparr>))] None"

lemma sample_route: "route sample_tree (p_topic plain_publish) =
    Some (Some \<lparr>si_clid = clid_new (lit ''c''), si_max_qos = QoS2\<rparr>)"
  by (simp add: route_def trie_get_val_sub_at sample_tree_def plain_publish_def lit_def slash_def)

theorem publish_delivered_witness:
  "\<exists>cs'. observe list_bytes route_of search_mut_client log_write sample_tree sample_registry
      (message_of (clid_new (lit ''a'')) plain_publish) = (ok (), cs') \<and> reg_ok cs' \<and>
    (\<forall>j. entry cs' j = (if j = clid_new (lit ''a'')
       then Some (sample_client ''a'' 100\<lparr>cl_socket := [0x40 # 3 # enc16 7 @ [0]]\<rparr>)
       else if j = si_clid \<lparr>si_clid = clid_new (lit ''c''), si_max_qos = QoS2\<rparr>
         then Some (sample_client ''c'' 5\<lparr>cl_socket := [plain_frame]\<rparr>) else entry sample_registry j))"
  by (rule publish_delivered [OF list_bytes_doc plain_publish_ok sample_registry_ok _ sample_route])
    (simp_all add: plain_frame_image entry_def sample_registry_def log_write_def sample_client_def lit_def,
     simp_all add: plain_publish_def downgrade_def qos_try_from_def)

lemma publish_queued_deadline:
  assumes "unat t + 1 < unat (s_ttl (cl_session (li_client l)))"
    and "unat (s_keep_alive (cl_session (li_client l))) \<le> 43690" and "unat t + 1 < 2 ^ 63"
    and "RT (cl_socket (li_client l)) (li_len l) (s_ttl (cl_session (li_client l)) - t) = (Inr b, k)" and "b \<noteq> []"
    and "client_packet_decode B b = ok (CPublish p)"
  shows "\<exists>ttl. listen_round checks B F RT W sub enq open_log opened t now' l =
      ok (True, l\<lparr>li_client := (li_client l)\<lparr>cl_socket := k,
        cl_session := (cl_session (li_client l))\<lparr>s_ttl := ttl\<rparr>\<rparr>,
        li_queue := enq (li_queue l) (message_of (cl_clid (li_client l)) p)\<rparr>) \<and>
    unat ttl = unat t + 1 + unat (s_keep_alive (cl_session (li_client l))) +
      unat (s_keep_alive (cl_session (li_client l))) div 2"
proof -
  have "is_alive (cl_session (li_client l)) t" using assms(1) by (simp add: is_alive_def word_le_nat_alt)
  moreover have "unat t + 1 < 2 ^ 64" using assms(3) by simp
  ultimately show ?thesis
    using keep_alive_moves [OF assms(1-3), of checks] assms(4-6)
    by (auto simp: listen_round_packet handle_packet_def queue_message_of)
qed

text \<open>A PUBLISH read from a client that is alive for at least two more seconds is queued as a
  message that carries the publisher exactly when it wants an acknowledgement; the client's
  deadline moves, the read buffer keeps its length and the loop goes on.\<close>

theorem publish_queued:
  assumes "unat t + 1 < unat (s_ttl (cl_session (li_client l)))"
    and "unat (s_keep_alive (cl_session (li_client l))) \<le> 43690" and "unat t + 1 < 2 ^ 63"
    and "RT (cl_socket (li_client l)) (li_len l) (s_ttl (cl_session (li_client l)) - t) = (Inr b, k)" and "b \<noteq> []"
    and "client_packet_decode B b = ok (CPublish p)"
  shows "\<exists>ttl. listen_round checks B F RT W sub enq open_log opened t now' l =
      ok (True, l\<lparr>li_client := (li_client l)\<lparr>cl_socket := k,
        cl_session := (cl_session (li_client l))\<lparr>s_ttl := ttl\<rparr>\<rparr>,
        li_queue := enq (li_queue l) (message_of (cl_clid (li_client l)) p)\<rparr>) \<and>
    unat t < unat ttl"
  using publish_queued_deadline [where checks = checks and F = F and RT = RT and W = W and sub = sub and enq = enq
      and open_log = open_log and opened = opened and now' = now', OF assms] by auto

definition sample_listener :: "(bytes list, message list, unit, unit) listener" where
  "sample_listener = \<lparr>li_client = sample_client ''a'' 100, li_len = 1024, li_queue = [], li_router = (),
     li_log = ()\<rparr>"

definition read_plain :: "bytes list \<Rightarrow> nat \<Rightarrow> u64 \<Rightarrow> (io_error + bytes) \<times> bytes list" where
  "read_plain k n dur = (Inr plain_frame, k)"

definition no_router :: "unit \<Rightarrow> client_id \<Rightarrow> subscribe list \<Rightarrow> (malformed + sub_ack_result list) \<times> unit" where
  "no_router r c subs = (Inl ProtocolError, r)"

definition no_files :: "unit file_ops" where
  "no_files = \<lparr>f_read = (\<lambda>f n. (Inr [], f)), f_set_len = (\<lambda>f n. (Inr (), f)),
     f_write_all = (\<lambda>f b. (Inr (), f))\<rparr>"

theorem publish_queued_witness:
  "\<exists>ttl. listen_round True list_bytes no_files read_plain log_write no_router (\<lambda>q m. q @ [m]) Inr (Inr ()) 50 51
      sample_listener =
      ok (True, sample_listener\<lparr>li_client := (li_client sample_listener)\<lparr>cl_socket := [],
        cl_session := (cl_session (li_client sample_listener))\<lparr>s_ttl := ttl\<rparr>\<rparr>,
        li_queue := li_queue sample_listener @ [message_of (cl_clid (li_client sample_listener)) plain_publish]\<rparr>) \<and>
    unat (50 :: u64) < unat ttl"
  by (rule publish_queued [OF _ _ _ _ _ plain_decode])
    (simp_all add: sample_listener_def sample_client_def read_plain_def, simp add: plain_frame_def)

text \<open>The new deadline of a client is counted from the beginning of the wait for its packet, not from
  the packet's arrival: a packet that arrives more than half a keep-alive interval (and a second)
  into the wait leaves the client dead one interval after it, so a client that pings once per
  interval is disconnected.\<close>

theorem punctual_client_dropped:
  assumes "unat t + 1 < unat (s_ttl (cl_session (li_client l)))"
    and "unat (s_keep_alive (cl_session (li_client l))) \<le> 43690" and "unat t + 1 < 2 ^ 63"
    and "RT (cl_socket (li_client l)) (li_len l) (s_ttl (cl_session (li_client l)) - t) = (Inr b, k)" and "b \<noteq> []"
    and "client_packet_decode B b = ok CPingReq"
  shows "\<exists>l'. listen_round checks B F RT W sub enq open_log opened t now' l = ok (True, l') \<and>
    (\<forall>arrival. unat t + 1 + unat (s_keep_alive (cl_session (li_client l))) div 2 < unat arrival \<longrightarrow>
       \<not> unat (s_ttl (cl_session (li_client l'))) \<ge>
         unat (arrival :: u64) + unat (s_keep_alive (cl_session (li_client l))))"
proof -
  have "is_alive (cl_session (li_client l)) t" using assms(1) by (simp add: is_alive_def word_le_nat_alt)
  moreover have "unat t + 1 < 2 ^ 64" using assms(3) by simp
  moreover obtain ttl where "session_keep_alive checks (cl_session (li_client l)) (t + 1) =
      ok ((cl_session (li_client l))\<lparr>s_ttl := ttl\<rparr>, ttl)"
    "unat ttl = unat t + 1 + unat (s_keep_alive (cl_session (li_client l))) +
       unat (s_keep_alive (cl_session (li_client l))) div 2"
    using keep_alive_moves [OF assms(1-3)] by blast
  ultimately show ?thesis
    using assms(4-6) by (simp add: listen_round_packet handle_packet_def split: prod.split)
qed

lemma ping_decode: "client_packet_decode list_bytes [0xC0, 0x00] = ok CPingReq"
  by (simp add: client_packet_decode_def)

theorem punctual_client_dropped_witness:
  "\<exists>l'. listen_round True list_bytes no_files (\<lambda>k n d. (Inr [0xC0, 0x00], k)) log_write no_router
      (\<lambda>q m. q @ [m]) Inr (Inr ()) 0 1 sample_listener = ok (True, l') \<and>
    (\<forall>arrival. unat (0 :: u64) + 1 + unat (s_keep_alive (cl_session (li_client sample_listener))) div 2 < unat arrival \<longrightarrow>
       \<not> unat (s_ttl (cl_session (li_client l'))) \<ge>
         unat (arrival :: u64) + unat (s_keep_alive (cl_session (li_client sample_listener))))"
  by (rule punctual_client_dropped [OF _ _ _ _ _ ping_decode])
    (simp_all add: sample_listener_def sample_client_def)

text \<open>A packet read from a client in the last second of its deadline is thrown away without an answer,
  and the bytes it took are missing from the read buffer from then on.\<close>

theorem last_second_packet_lost:
  assumes "is_alive (cl_session (li_client l)) t" and "unat (s_ttl (cl_session (li_client l))) \<le> unat t + 1"
    and "unat t + 1 < 2 ^ 64"
    and "RT (cl_socket (li_client l)) (li_len l) (s_ttl (cl_session (li_client l)) - t) = (Inr b, k)" and "b \<noteq> []"
    and "client_packet_decode B b = ok packet"
  shows "listen_round checks B F RT W sub enq open_log opened t now' l =
    ok (True, l\<lparr>li_client := (li_client l)\<lparr>cl_socket := k\<rparr>, li_len := li_len l - length b\<rparr>)"
proof -
  have "session_keep_alive checks (cl_session (li_client l)) (t + 1) = err ''already expired''"
    using assms(2) uadd_1 [OF assms(3)] by (simp add: session_keep_alive_def word_le_nat_alt)
  then show ?thesis using assms by (simp add: listen_round_packet)
qed

theorem last_second_packet_lost_witness:
  "listen_round True list_bytes no_files read_plain log_write no_router (\<lambda>q m. q @ [m]) Inr (Inr ()) 99 99
      sample_listener =
    ok (True, sample_listener\<lparr>li_client := (li_client sample_listener)\<lparr>cl_socket := []\<rparr>,
      li_len := li_len sample_listener - length plain_frame\<rparr>)"
  by (rule last_second_packet_lost [OF _ _ _ _ _ plain_decode])
    (simp_all add: sample_listener_def sample_client_def read_plain_def is_alive_def, simp add: plain_frame_def)

text \<open>Bytes of a live client that do not decode, because of a protocol error or of a panic inside
  the decoder, make the client's task panic: nothing is logged, answered or cleaned up.\<close>

theorem undecodable_panics:
  assumes "is_alive (cl_session (li_client l)) t"
    and "RT (cl_socket (li_client l)) (li_len l) (s_ttl (cl_session (li_client l)) - t) = (Inr b, k)" and "b \<noteq> []"
    and "bytes_doc B" and "\<And>packet. client_packet_decode B b \<noteq> ok packet"
  shows "listen_round checks B F RT W sub enq open_log opened t now' l = panic"
proof -
  obtain r where "client_packet_decode B b = Some r" using returns_client_packet_decode [OF assms(4)] by blast
  then have "unwrap (client_packet_decode B b) = (panic :: (io_error, client_packet_v5) run)"
    using assms(5) by (cases r) auto
  then show ?thesis
    using assms(1-3) by (simp add: listen_round_def Let_def is_alive_def usub_le)
qed

theorem undecodable_panics_witness:
  "listen_round True list_bytes no_files (\<lambda>k n d. (Inr [0xE0, 0x00], k)) log_write no_router
      (\<lambda>q m. q @ [m]) Inr (Inr ()) 50 51 sample_listener = panic"
  by (rule undecodable_panics [where b = "[0xE0, 0x00]"])
    (simp_all add: sample_listener_def sample_client_def is_alive_def client_packet_decode_def)

definition subscribe_of ::
    "(nat \<Rightarrow> bool) \<Rightarrow> subscriber_instance child \<Rightarrow> client_id \<Rightarrow> subscribe list \<Rightarrow>
       (malformed + sub_ack_result list) \<times> subscriber_instance child" where
  "subscribe_of cas t clid subs = (case router_subscribe cas t clid subs of Some r \<Rightarrow> r | None \<Rightarrow> (Inr [], t))"

lemma subscribe_handled_spec:
  assumes "bytes_doc B" and "trie_wf t" and "length (sp_list p) + 2 < 128"
    and "W (cl_socket cl) (0x90 # word_of_nat (length (sp_list p) + 2) # enc16 (sp_id p) @
       map (\<lambda>s. qos_code (sub_max_qos s)) (sp_list p)) = (Inr (), k)"
    and "store_subscribe B F opened (sp_list p) = ok f"
  shows "\<exists>t'. subscribe_topics B F W (subscribe_of (\<lambda>_. True)) opened t cl p =
      (ok f, t', cl\<lparr>cl_socket := k\<rparr>) \<and> trie_wf t' \<and>
    (\<forall>topic. route t' topic = (case route t topic of
       Some None \<Rightarrow> Some (map_option (\<lambda>s. \<lparr>si_clid = cl_clid cl, si_max_qos = sub_max_qos s\<rparr>)
         (find (\<lambda>s. sub_topic s = topic) (sp_list p)))
     | r \<Rightarrow> r))"
proof -
  obtain t' where t': "router_subscribe (\<lambda>_. True) t (cl_clid cl) (sp_list p) =
      Some (Inr (map (\<lambda>s. Inr (sub_max_qos s)) (sp_list p)), t')" "trie_wf t'"
    "\<And>topic. route t' topic = (case route t topic of
       Some None \<Rightarrow> Some (map_option (\<lambda>q. \<lparr>si_clid = cl_clid cl, si_max_qos = q\<rparr>)
         (granted (\<lambda>_. True) 0 (sp_list p) topic))
     | r \<Rightarrow> r)"
    using router_subscribe_spec [OF assms(2), of "\<lambda>_. True" "cl_clid cl" "sp_list p"] by blast
  have "subs_ack_encode B \<lparr>sa_id = sp_id p, sa_properties = None,
      sa_return_codes = map (\<lambda>s. Inr (sub_max_qos s)) (sp_list p)\<rparr> =
    ok (0x90 # word_of_nat (length (sp_list p) + 2) # enc16 (sp_id p) @
       map (\<lambda>s. qos_code (sub_max_qos s)) (sp_list p))"
    using suback_plain [OF assms(1), of "\<lparr>sa_id = sp_id p, sa_properties = None,
      sa_return_codes = map (\<lambda>s. Inr (sub_max_qos s)) (sp_list p)\<rparr>"] assms(3)
    by (simp add: ack_code_def comp_def)
  then have "subscribe_topics B F W (subscribe_of (\<lambda>_. True)) opened t cl p = (ok f, t', cl\<lparr>cl_socket := k\<rparr>)"
    using t'(1) assms(4,5) by (simp add: subscribe_topics_def subscribe_of_def Let_def)
  then show ?thesis using t'(2,3) by (simp only: granted_all) blast
qed

text \<open>C9: A SUBSCRIBE whose SUBACK has a body shorter than 2^28 bytes is handled completely by a task that
  runs alone, when the socket takes the SUBACK and the client's subscriptions file can be read in one
  piece (well-formed, less than 1024 bytes) and written.  Every subscription is granted the quality of
  service it asks for in the SUBACK; the file then holds, for each topic, the last subscription to it in
  the packet or else what it held before; and a topic that had a subscriber is routed to whom it was,
  one that was free to the client with the quality of service of the first subscription to it whose weak
  exchange in the tree did not fail spuriously (\<open>cas\<close>), and to nobody if there is none.\<close>

theorem subscribe_handled:
  assumes "bytes_doc B" and "trie_wf t" and "length (sp_list p) + 2 < 128 ^ 4"
    and "W (cl_socket cl) (0x90 # varint (length (sp_list p) + 2) @ enc16 (sp_id p) @
       map (\<lambda>s. qos_code (sub_max_qos s)) (sp_list p)) = (Inr (), k)"
    and "topics_ok m" and "distinct (map fst m)" and "length (subscribed_bytes B m) < 1024"
    and "f_read F f 1024 = (Inr (subscribed_bytes B m), f1)" and "f_set_len F f1 0 = (Inr (), f2)"
    and "f_write_all F f2 (subscribed_bytes B (fold update_sub (sp_list p) m)) = (Inr (), f3)"
  shows "\<exists>t'. subscribe_topics B F W (subscribe_of cas) (Inr f) t cl p = (ok f3, t', cl\<lparr>cl_socket := k\<rparr>) \<and>
    trie_wf t' \<and>
    (\<forall>topic. map_of (fold update_sub (sp_list p) m) topic =
      (case find (\<lambda>s. sub_topic s = topic) (rev (sp_list p)) of
         Some s \<Rightarrow> Some (sub_max_qos s) | None \<Rightarrow> map_of m topic)) \<and>
    (\<forall>topic. route t' topic = (case route t topic of
       Some None \<Rightarrow> Some (map_option (\<lambda>q. \<lparr>si_clid = cl_clid cl, si_max_qos = q\<rparr>)
         (granted cas 0 (sp_list p) topic))
     | r \<Rightarrow> r))"
proof -
  obtain t' where t': "router_subscribe cas t (cl_clid cl) (sp_list p) =
      Some (Inr (map (\<lambda>s. Inr (sub_max_qos s)) (sp_list p)), t')" "trie_wf t'"
    "\<And>topic. route t' topic = (case route t topic of
       Some None \<Rightarrow> Some (map_option (\<lambda>q. \<lparr>si_clid = cl_clid cl, si_max_qos = q\<rparr>)
         (granted cas 0 (sp_list p) topic))
     | r \<Rightarrow> r)"
    using router_subscribe_spec [OF assms(2), of cas "cl_clid cl" "sp_list p"] by blast
  have "subs_ack_encode B \<lparr>sa_id = sp_id p, sa_properties = None,
      sa_return_codes = map (\<lambda>s. Inr (sub_max_qos s)) (sp_list p)\<rparr> =
    ok (0x90 # varint (length (sp_list p) + 2) @ enc16 (sp_id p) @ map (\<lambda>s. qos_code (sub_max_qos s)) (sp_list p))"
    using subs_ack_encode_image [OF assms(1), of "\<lparr>sa_id = sp_id p, sa_properties = None,
      sa_return_codes = map (\<lambda>s. Inr (sub_max_qos s)) (sp_list p)\<rparr>"] assms(3)
    by (simp add: sub_ack_body_def sub_ack_props_def ack_code_def comp_def add.commute)
  then have "subscribe_topics B F W (subscribe_of cas) (Inr f) t cl p = (ok f3, t', cl\<lparr>cl_socket := k\<rparr>)"
    using t'(1) assms(4) store_subscribe_rewrites [OF assms(1,5-10)]
    by (simp add: subscribe_topics_def subscribe_of_def Let_def)
  then show ?thesis using t'(2,3) map_of_fold_update_sub by blast
qed

lemma store_sample:
  "store_subscribe list_bytes script_files (Inr ([], [])) [\<lparr>sub_topic = lit ''t'', sub_max_qos = QoS1\<rparr>] =
     ok ([], [subscribed_bytes list_bytes [(lit ''t'', QoS1)]])"
proof -
  have "get_subscribed script_files [] ([], []) = ok (0, [], ([], []))"
    by (simp add: get_subscribed_def get_subscribed_loop.simps script_files_def)
  then show ?thesis
    by (simp add: store_subscribe_def rewrite_subscribed_def write_subscribed_def update_sub_def
        script_files_def)
qed

definition two_subscriptions :: subscribe_packet where
  "two_subscriptions = \<lparr>sp_id = 9, sp_list = [\<lparr>sub_topic = lit ''t'', sub_max_qos = QoS1\<rparr>,
     \<lparr>sub_topic = lit ''t'', sub_max_qos = QoS2\<rparr>]\<rparr>"

theorem subscribe_handled_witness:
  "\<exists>t'. subscribe_topics list_bytes script_files log_write (subscribe_of (\<lambda>i. i \<noteq> 0))
      (Inr ([subscribed_bytes list_bytes sample_submap], [])) trie_new (sample_client ''a'' 100) two_subscriptions =
      (ok ([], [subscribed_bytes list_bytes (fold update_sub (sp_list two_subscriptions) sample_submap)]), t',
       sample_client ''a'' 100\<lparr>cl_socket := [0x90 # varint (length (sp_list two_subscriptions) + 2) @
         enc16 (sp_id two_subscriptions) @ map (\<lambda>s. qos_code (sub_max_qos s)) (sp_list two_subscriptions)]\<rparr>) \<and> trie_wf t' \<and>
    (\<forall>topic. map_of (fold update_sub (sp_list two_subscriptions) sample_submap) topic =
      (case find (\<lambda>s. sub_topic s = topic) (rev (sp_list two_subscriptions)) of
         Some s \<Rightarrow> Some (sub_max_qos s) | None \<Rightarrow> map_of sample_submap topic)) \<and>
    (\<forall>topic. route t' topic = (case route trie_new topic of
       Some None \<Rightarrow> Some (map_option (\<lambda>q. \<lparr>si_clid = cl_clid (sample_client ''a'' 100), si_max_qos = q\<rparr>)
         (granted (\<lambda>i. i \<noteq> 0) 0 (sp_list two_subscriptions) topic))
     | r \<Rightarrow> r))"
  by (rule subscribe_handled [OF list_bytes_doc _ _ _ sample_submap_ok, where ?f1.0 = "([], [])" and ?f2.0 = "([], [])"])
    (simp_all add: trie_new_def log_write_def sample_client_def two_subscriptions_def script_files_def)

text \<open>Registering a client is refused exactly when a client with its identifier is still alive;
  otherwise the client takes the place in the registry, its socket goes to the callback, a task is
  spawned for it, and the unwrapping of the lookup after the insertion never panics.\<close>

theorem register_takes_over:
  assumes "reg_ok cs" and "callback (cl_socket new) = (r, k)"
  shows "if fst (is_still_alive now (cl_clid new) cs) = Some True
    then register now callback cs tasks new = err ''duplicate client id''
    else \<exists>cs'. register now callback cs tasks new = ok (r, cs', tasks @ [cl_clid new]) \<and> reg_ok cs' \<and>
      (\<forall>j. entry cs' j = (if j = cl_clid new then Some (new\<lparr>cl_socket := k\<rparr>) else entry cs j))"
  using register_spec [where callback = callback, OF assms, of now tasks]
  by (simp add: is_still_alive_spec [OF assms(1)])

theorem register_takes_over_witness:
  "if fst (is_still_alive 50 (cl_clid (sample_client ''c'' 90)) sample_registry) = Some True
    then register 50 (\<lambda>k. ((), k @ [[0x20]])) sample_registry [] (sample_client ''c'' 90) = err ''duplicate client id''
    else \<exists>cs'. register 50 (\<lambda>k. ((), k @ [[0x20]])) sample_registry [] (sample_client ''c'' 90) =
        ok ((), cs', [] @ [cl_clid (sample_client ''c'' 90)]) \<and> reg_ok cs' \<and>
      (\<forall>j. entry cs' j = (if j = cl_clid (sample_client ''c'' 90)
         then Some (sample_client ''c'' 90\<lparr>cl_socket := [[0x20]]\<rparr>) else entry sample_registry j))"
  by (rule register_takes_over) (simp_all add: sample_client_def)

text \<open>A client that closes its connection is killed in one round, and the next round at that time or
  later logs its disconnection by the server, with the expiration time of its session, and ends
  the loop.\<close>

theorem closed_connection_ends:
  assumes "is_alive (cl_session (li_client l)) t"
    and "RT (cl_socket (li_client l)) (li_len l) (s_ttl (cl_session (li_client l)) - t) = (Inr [], k)"
    and "0 < now'" and "now' \<le> t2" and "unat t2 + 1 < 2 ^ 63"
    and "log_session B F (open_log (li_log l)) [\<lparr>w_time = t2 + 1,
      w_value = DisconnectByServer (ucast (s_expr_interval (cl_session (li_client l))) + (now' - 1))\<rparr>] = ok f"
  shows "\<exists>l1. listen_round checks B F RT W sub enq open_log opened t now' l = ok (True, l1) \<and>
    (\<exists>l2. listen_round checks B F RT W sub enq open_log opened t2 now'' l1 = ok (False, l2) \<and> li_log l2 = f)"
proof -
  let ?s = "(cl_session (li_client l))\<lparr>s_ttl := now' - 1\<rparr>"
  let ?l1 = "l\<lparr>li_client := (li_client l)\<lparr>cl_socket := k, cl_session := ?s\<rparr>\<rparr>"
  have "1 \<le> now'" using assms(3) by (simp add: word_le_nat_alt word_less_nat_alt)
  then have "kill checks (cl_session (li_client l)) now' = Some ?s" by (simp add: kill_def usub_le)
  then have "listen_round checks B F RT W sub enq open_log opened t now' l = ok (True, ?l1)"
    using assms(1,2) by (simp add: listen_round_def Let_def is_alive_def usub_le)
  moreover have "\<not> is_alive ?s t2"
    using pred_less_word [OF assms(3)] assms(4) by (auto simp: is_alive_def)
  moreover have "expiration_time checks ?s = Some (ucast (s_expr_interval (cl_session (li_client l))) + (now' - 1))"
  proof -
    have "unat (now' - 1) < 2 ^ 63"
      using pred_less_word [OF assms(3)] assms(4,5) by (simp add: word_less_nat_alt word_le_nat_alt)
    then have "unat (ucast (s_expr_interval (cl_session (li_client l))) :: u64) + unat (now' - 1) < 2 ^ LENGTH(64)"
      using unat_u32_less [of "s_expr_interval (cl_session (li_client l))"] by (simp add: unat_ucast_32_64)
    from uadd_Some(1) [OF this] show ?thesis by (simp add: expiration_time_def)
  qed
  moreover have "uadd checks t2 1 = Some (t2 + 1)" using uadd_1(1) [of t2] assms(5) by simp
  ultimately show ?thesis
    using assms(6) by (simp add: listen_round_def listener_log_def)
qed

theorem closed_connection_ends_witness:
  "\<exists>l1. listen_round True list_bytes no_files (\<lambda>k n d. (Inr [], k)) log_write no_router (\<lambda>q m. q @ [m])
      Inr (Inr ()) 50 60 sample_listener = ok (True, l1) \<and>
    (\<exists>l2. listen_round True list_bytes no_files (\<lambda>k n d. (Inr [], k)) log_write no_router (\<lambda>q m. q @ [m])
      Inr (Inr ()) 60 61 l1 = ok (False, l2) \<and> li_log l2 = ())"
  by (rule closed_connection_ends)
    (simp_all add: sample_listener_def sample_client_def is_alive_def log_session_def write_wall_def no_files_def)

end
