(* ===== verification/Handshake.thy ===== *)
theory Handshake
  imports Mediator Connack
begin

text \<open>
  Taking a connection in: \<open>connection/errors.rs\<close>, \<open>connection/line.rs\<close> (reading the CONNECT
  packet), and \<open>connection/handler.rs\<close> (what the CONNACK says, and starting or restoring the
  session).  Reading from the socket and writing to it are \<open>RT\<close> and \<open>W\<close>, the files of the client's
  directory \<open>F\<close> and \<open>opened\<close>, as in the theories before.
\<close>

section \<open>Connection errors\<close>

datatype error_kind = TimedOut | InvalidData | BrokenPipe | ConnectionAborted

datatype conn_error = Kind error_kind | Custom rstring error_kind

definition conn_error_new :: "error_kind \<Rightarrow> rstring option \<Rightarrow> conn_error" where
  "conn_error_new k msg = (case msg of Some msg \<Rightarrow> Custom msg k | None \<Rightarrow> Kind k)"

fun get_kind :: "conn_error \<Rightarrow> error_kind" where
  "get_kind (Custom msg k) = k"
| "get_kind (Kind k) = k"

fun kind_string :: "error_kind \<Rightarrow> rstring" where
  "kind_string BrokenPipe = lit ''broken pipe''"
| "kind_string ConnectionAborted = lit ''connection aborted''"
| "kind_string InvalidData = lit ''invalid data''"
| "kind_string TimedOut = lit ''timeout''"

fun conn_error_string :: "conn_error \<Rightarrow> rstring" where
  "conn_error_string (Custom msg k) = msg"
| "conn_error_string (Kind k) = kind_string k"

section \<open>The request\<close>

definition read_request ::
    "bytes_crate \<Rightarrow> ('k \<Rightarrow> nat \<Rightarrow> u64 \<Rightarrow> (io_error + bytes) \<times> 'k) \<Rightarrow> 'k \<Rightarrow>
       (conn_error, connect_packet) run \<times> 'k" where
  "read_request B RT conn =
     (case RT conn 256 3 of
        (Inl e, conn) \<Rightarrow> (panic, conn)
      | (Inr buffer, conn) \<Rightarrow>
          (mapErr (\<lambda>e. conn_error_new InvalidData (Some (lit e))) (connect_decode B buffer), conn))"

section \<open>The answer\<close>

definition MAX_QOS :: u8 where
  "MAX_QOS = 2"

record server_variable =
  sv_clid :: client_id
  sv_clean_start :: bool
  sv_keep_alive :: u16
  sv_protocol_level :: u8
  sv_expr_interval :: u32

definition collect :: "connect_packet \<Rightarrow> connack_packet \<Rightarrow> server_variable \<times> connack_packet" where
  "collect req res =
     (let is_generate_clid = (length (c_client_id req) = 0);
          clid = (if is_generate_clid then clid_new (lit ''raw_clid'') else clid_new (c_client_id req));
          srv_var = \<lparr>sv_clid = clid, sv_clean_start = clean_start req, sv_keep_alive = c_keep_alive req,
            sv_protocol_level = c_protocol_level req, sv_expr_interval = 0\<rparr> in
      case c_properties req of
        None \<Rightarrow> (srv_var, res)
      | Some req_prop \<Rightarrow>
          let srv_var = srv_var\<lparr>sv_expr_interval :=
                (case cp_session_expiry_interval req_prop of Some v \<Rightarrow> v | None \<Rightarrow> 0)\<rparr>;
              res_prop = no_connack_properties\<lparr>
                ck_session_expiry_interval := Some (sv_expr_interval srv_var),
                ck_assigned_client_identifier := (if is_generate_clid then Some (clid_id clid) else None),
                ck_receive_maximum := cp_receive_maximum req_prop,
                ck_maximum_qos := Some MAX_QOS,
                ck_maximum_packet_size := cp_maximum_packet_size req_prop,
                ck_topic_alias_maximum := cp_topic_alias_maximum req_prop,
                ck_user_properties := cp_user_properties req_prop,
                ck_server_keep_alive := Some (c_keep_alive req)\<rparr>
          in (srv_var, res\<lparr>k_properties := Some res_prop\<rparr>))"

text \<open>\<open>MqttConnectedResponse::connack\<close>: encode and write.\<close>

definition send_connack ::
    "bytes_crate \<Rightarrow> ('k \<Rightarrow> bytes \<Rightarrow> (io_error + unit) \<times> 'k) \<Rightarrow> connack_packet \<Rightarrow> 'k \<Rightarrow>
       (io_error, unit) run \<times> 'k" where
  "send_connack B W ack k =
     (case connack_encode B ack of
        None \<Rightarrow> (None, k)
      | Some Panic \<Rightarrow> (panic, k)
      | Some (Err e) \<Rightarrow> (err (IoError IoInvalidData (lit e)), k)
      | Some (Ok packet) \<Rightarrow>
          (case W k packet of (Inl e, k) \<Rightarrow> (err e, k) | (Inr _, k) \<Rightarrow> (ok (), k)))"

section \<open>The session\<close>

text \<open>
  What a connection uses of the \<open>BrokerMediator\<close>; its queue and its router are only handed on to the
  task that listens to the client (they are part of the \<open>world\<close> of theory \<open>Broker\<close>).
\<close>

record 'k broker =
  br_clients :: "'k clients"
  br_tasks :: "client_id list"

text \<open>The second half of \<open>start_session\<close>: a new client.\<close>

definition fresh_session ::
    "bool \<Rightarrow> bytes_crate \<Rightarrow> 'f file_ops \<Rightarrow> ('k \<Rightarrow> bytes \<Rightarrow> (io_error + unit) \<times> 'k) \<Rightarrow> u64 \<Rightarrow> rstring \<Rightarrow>
     (rstring \<Rightarrow> io_error + 'f) \<Rightarrow> 'k broker \<Rightarrow> connack_packet \<Rightarrow> u32 \<Rightarrow> 'k \<Rightarrow> server_variable \<Rightarrow>
     (string, 'k broker) run" where
  "fresh_session checks B F W now path opened b response connid conn srv_var =
     (let limit = (case k_properties response of
            Some v \<Rightarrow> limiter_new (ck_receive_maximum v) (ck_maximum_packet_size v) (ck_topic_alias_maximum v)
          | None \<Rightarrow> limiter_default) in
      andThen (unwrap (client_new checks B F now path opened connid conn (sv_clid srv_var)
        (sv_keep_alive srv_var) (sv_expr_interval srv_var) (sv_protocol_level srv_var) limit)) (\<lambda>(client, files).
      andThen (unwrap (register now (send_connack B W response) (br_clients b) (br_tasks b) client))
        (\<lambda>(cb, clients, tasks).
      andThen (unwrap cb) (\<lambda>_.
      ok \<lparr>br_clients = clients, br_tasks = tasks\<rparr>))))"

definition start_session ::
    "bool \<Rightarrow> bytes_crate \<Rightarrow> 'f file_ops \<Rightarrow> ('k \<Rightarrow> bytes \<Rightarrow> (io_error + unit) \<times> 'k) \<Rightarrow> u64 \<Rightarrow> rstring \<Rightarrow>
     bool \<Rightarrow> bool \<Rightarrow> (rstring \<Rightarrow> io_error + 'f) \<Rightarrow> 'k broker \<Rightarrow> connack_packet \<Rightarrow> u32 \<Rightarrow> 'k \<Rightarrow>
     server_variable \<Rightarrow> (string, 'k broker) run" where
  "start_session checks B F W now path dir_exists session_exists opened b response connid conn srv_var =
     (let (session, clients) = is_still_alive now (sv_clid srv_var) (br_clients b);
          b = b\<lparr>br_clients := clients\<rparr> in
      if session = Some True then err ''()''
      else if \<not> sv_clean_start srv_var then
        let (restored, bucket) = client_restore checks B F now now now path dir_exists session_exists opened
              (sv_clid srv_var) \<lparr>uc_conid = Some connid, uc_socket = Some conn\<rparr> in
        (case try_restore_session now (send_connack B W (response\<lparr>k_session_present := True\<rparr>))
              (br_clients b) (br_tasks b) restored of
           None \<Rightarrow> None
         | Some Panic \<Rightarrow> panic
         | Some (Ok ((fb, clients, tasks), log)) \<Rightarrow>
             andThen (unwrap fb) (\<lambda>_. ok \<lparr>br_clients = clients, br_tasks = tasks\<rparr>)
         | Some (Err e) \<Rightarrow>
             need (uc_socket bucket) (\<lambda>conn.
             fresh_session checks B F W now path opened b response connid conn srv_var))
      else fresh_session checks B F W now path opened b response connid conn srv_var)"

definition establish_connection ::
    "bool \<Rightarrow> bytes_crate \<Rightarrow> 'f file_ops \<Rightarrow> ('k \<Rightarrow> nat \<Rightarrow> u64 \<Rightarrow> (io_error + bytes) \<times> 'k) \<Rightarrow>
     ('k \<Rightarrow> bytes \<Rightarrow> (io_error + unit) \<times> 'k) \<Rightarrow> u64 \<Rightarrow> (client_id \<Rightarrow> rstring) \<Rightarrow> (client_id \<Rightarrow> bool \<times> bool) \<Rightarrow>
     (client_id \<Rightarrow> rstring \<Rightarrow> io_error + 'f) \<Rightarrow> 'k broker \<Rightarrow> u32 \<Rightarrow> 'k \<Rightarrow> (conn_error, 'k broker) run" where
  "establish_connection checks B F RT W now path exists opened b connid conn =
     (let (req, conn) = read_request B RT conn in
      andThen req (\<lambda>req_ack.
      let (srv_var, connack_packet) = collect req_ack connack_default; clid = sv_clid srv_var in
      unwrap (start_session checks B F W now (path clid) (fst (exists clid)) (snd (exists clid)) (opened clid)
        b connack_packet connid conn srv_var)))"

text \<open>The counter of connections: \<open>fetch_add\<close> wraps.\<close>

definition request_id :: "u32 \<Rightarrow> u32 \<times> u32" where
  "request_id access_total = (access_total, access_total + 1)"

section \<open>Lemmas\<close>

lemma send_connack_ok:
  assumes "connack_encode B ack = ok frame" and "W k frame = (Inr (), k')"
  shows "send_connack B W ack k = (ok (), k')"
  using assms by (simp add: send_connack_def)

lemma fresh_session_registers:
  assumes "reg_ok (br_clients b)"
    and "\<not> (\<exists>c. entry (br_clients b) (sv_clid srv) = Some c \<and> is_alive (cl_session c) now)"
    and "client_new checks B F now path opened connid conn (sv_clid srv) (sv_keep_alive srv)
      (sv_expr_interval srv) (sv_protocol_level srv)
      (case k_properties response of
         Some v \<Rightarrow> limiter_new (ck_receive_maximum v) (ck_maximum_packet_size v) (ck_topic_alias_maximum v)
       | None \<Rightarrow> limiter_default) = ok (cl, files)"
    and "connack_encode B response = ok frame" and "W conn frame = (Inr (), k)"
  shows "\<exists>cs. fresh_session checks B F W now path opened b response connid conn srv =
      ok \<lparr>br_clients = cs, br_tasks = br_tasks b @ [sv_clid srv]\<rparr> \<and> reg_ok cs \<and>
    (\<forall>j. entry cs j = (if j = sv_clid srv then Some (cl\<lparr>cl_socket := k\<rparr>) else entry (br_clients b) j))"
proof -
  have cl: "cl_clid cl = sv_clid srv" "cl_socket cl = conn" by (rule client_new_okE [OF assms(3)]; simp)+
  have cb: "send_connack B W response (cl_socket cl) = (ok (), k)"
    using send_connack_ok [OF assms(4)] assms(5) cl(2) by simp
  have free: "\<not> (\<exists>c. entry (br_clients b) (cl_clid cl) = Some c \<and> is_alive (cl_session c) now)"
    using assms(2) cl(1) by simp
  obtain cs where "register now (send_connack B W response) (br_clients b) (br_tasks b) cl =
      ok (ok (), cs, br_tasks b @ [cl_clid cl])" "reg_ok cs"
    "\<And>j. entry cs j = (if j = cl_clid cl then Some (cl\<lparr>cl_socket := k\<rparr>) else entry (br_clients b) j)"
    using register_spec [where callback = "send_connack B W response", OF assms(1) cb, of now "br_tasks b"]
    unfolding if_not_P [OF free] by blast
  then show ?thesis using assms(3) cl(1) by (simp add: fresh_session_def Let_def)
qed

lemma start_session_dead:
  assumes "reg_ok (br_clients b)" and "sv_clean_start srv"
    and "\<not> (\<exists>c. entry (br_clients b) (sv_clid srv) = Some c \<and> is_alive (cl_session c) now)"
  shows "start_session checks B F W now path d e opened b response connid conn srv =
    fresh_session checks B F W now path opened b response connid conn srv"
proof -
  obtain s where "is_still_alive now (sv_clid srv) (br_clients b) = (s, br_clients b)" "s \<noteq> Some True"
    using assms(3) is_still_alive_spec [OF assms(1), of now "sv_clid srv"]
    by (cases "entry (br_clients b) (sv_clid srv)") auto
  then show ?thesis using assms(2) by (simp add: start_session_def)
qed

lemma start_session_alive:
  assumes "reg_ok (br_clients b)" and "entry (br_clients b) (sv_clid srv) = Some c"
    and "is_alive (cl_session c) now"
  shows "start_session checks B F W now path d e opened b response connid conn srv = err ''()''"
  using assms(2,3) by (simp add: start_session_def is_still_alive_spec [OF assms(1)])

lemma length_collect_response:
  assumes "c_properties req = Some q" and "connect_props_ok q" and "length (connect_props_body q) \<le> 10000"
  shows "connack_ok (snd (collect req connack_default))"
proof -
  have p: "length (opt_image pairs_image (cp_user_properties q)) \<le> 10000"
    using assms(3) by (simp add: connect_props_body_def)
  obtain v where v: "snd (collect req connack_default) = connack_default\<lparr>k_properties := Some v\<rparr>"
    "v = no_connack_properties\<lparr>
        ck_session_expiry_interval := Some (case cp_session_expiry_interval q of Some v \<Rightarrow> v | None \<Rightarrow> 0),
        ck_assigned_client_identifier :=
          (if length (c_client_id req) = 0 then Some (lit ''raw_clid'') else None),
        ck_receive_maximum := cp_receive_maximum q, ck_maximum_qos := Some MAX_QOS,
        ck_maximum_packet_size := cp_maximum_packet_size q,
        ck_topic_alias_maximum := cp_topic_alias_maximum q,
        ck_user_properties := cp_user_properties q,
        ck_server_keep_alive := Some (c_keep_alive req)\<rparr>"
    using assms(1) by (simp add: collect_def Let_def)
  have "length (connack_props_body v) \<le> 10100"
    using p
    by (cases "cp_receive_maximum q"; cases "cp_maximum_packet_size q"; cases "cp_topic_alias_maximum q")
      (simp_all add: v(2) connack_props_body_def no_connack_properties_def lit_def)
  then have "length (connack_body (snd (collect req connack_default))) < 128 ^ 4"
    using length_varint [of "length (connack_props_body v)" 2]
    by (simp add: connack_body_def connack_props_def v(1))
  moreover have "connack_props_ok v"
    using assms(2) by (simp add: v(2) connack_props_ok_def connect_props_ok_def no_connack_properties_def
        str_ok_def lit_def)
  ultimately show ?thesis by (simp add: connack_ok_def v(1))
qed

lemma start_session_resumes:
  assumes "reg_ok (br_clients b)" and "\<not> sv_clean_start srv"
    and "\<not> (\<exists>c. entry (br_clients b) (sv_clid srv) = Some c \<and> is_alive (cl_session c) now)"
    and "client_restore checks B F now now now path d e opened (sv_clid srv)
      \<lparr>uc_conid = Some connid, uc_socket = Some conn\<rparr> = (ok (cl, log), bucket)"
    and "cl_clid cl = sv_clid srv" and "cl_socket cl = conn"
    and "connack_encode B (response\<lparr>k_session_present := True\<rparr>) = ok frame" and "W conn frame = (Inr (), k)"
  shows "\<exists>cs. start_session checks B F W now path d e opened b response connid conn srv =
      ok \<lparr>br_clients = cs, br_tasks = br_tasks b @ [sv_clid srv]\<rparr> \<and> reg_ok cs \<and>
    (\<forall>j. entry cs j = (if j = sv_clid srv then Some (cl\<lparr>cl_socket := k\<rparr>) else entry (br_clients b) j))"
proof -
  let ?cb = "send_connack B W (response\<lparr>k_session_present := True\<rparr>)"
  obtain s where s: "is_still_alive now (sv_clid srv) (br_clients b) = (s, br_clients b)" "s \<noteq> Some True"
    using assms(3) is_still_alive_spec [OF assms(1), of now "sv_clid srv"]
    by (cases "entry (br_clients b) (sv_clid srv)") auto
  have free: "\<not> (\<exists>c. entry (br_clients b) (cl_clid cl) = Some c \<and> is_alive (cl_session c) now)"
    using assms(3,5) by simp
  obtain cs1 where cs1: "clients_insert now (br_clients b) cl = Inr cs1" "reg_ok cs1"
    "\<And>j. entry cs1 j = (if j = cl_clid cl then Some cl else entry (br_clients b) j)"
    using clients_insert_spec [OF assms(1), of cl now] unfolding if_not_P [OF free] by blast
  have "entry cs1 (cl_clid cl) = Some cl" "?cb (cl_socket cl) = (ok (), k)"
    using cs1(3) send_connack_ok [OF assms(7), of W] assms(6,8) by simp_all
  note attend_entry [where callback = ?cb, OF cs1(2) this, of "br_tasks b"]
  then show ?thesis
    using s assms(2,4,5) cs1 by (auto simp: start_session_def try_restore_session_def)
qed

lemma connack_ok_present: "connack_ok (a\<lparr>k_session_present := s\<rparr>) = connack_ok a"
  by (simp add: connack_ok_def connack_body_def connack_props_def)

section \<open>Properties\<close>

text \<open>A CONNECT whose bytes do not come within three seconds, or that fails to be read, makes the
  task that accepts connections panic instead of reporting an error.\<close>

theorem silent_connection_panics:
  assumes "RT conn 256 3 = (Inl e, conn')"
  shows "establish_connection checks B F RT W now path exists opened b connid conn = panic"
  using assms by (simp add: establish_connection_def read_request_def)

definition no_broker :: "bytes list broker" where
  "no_broker = \<lparr>br_clients = [], br_tasks = []\<rparr>"

theorem silent_connection_panics_witness:
  "establish_connection True list_bytes no_files (\<lambda>k n d. (Inl (IoError IoTimedOut []), k)) log_write 50
     clid_id (\<lambda>c. (False, False)) (\<lambda>c n. Inr ()) no_broker 1 [] = panic"
  by (rule silent_connection_panics) simp

text \<open>A CONNECT with the identifier of a client that is still alive makes the task that accepts
  connections panic; the connected client is left as it is.\<close>

theorem second_connect_panics:
  assumes "RT conn 256 3 = (Inr frame, conn')" and "connect_decode B frame = ok req"
    and "reg_ok (br_clients b)" and "entry (br_clients b) (sv_clid (fst (collect req connack_default))) = Some c"
    and "is_alive (cl_session c) now"
  shows "establish_connection checks B F RT W now path exists opened b connid conn = panic"
proof -
  obtain srv ack where c: "collect req connack_default = (srv, ack)" by (cases "collect req connack_default")
  then have e: "entry (br_clients b) (sv_clid srv) = Some c" using assms(4) by simp
  have "start_session checks B F W now (path (sv_clid srv)) (fst (exists (sv_clid srv)))
      (snd (exists (sv_clid srv))) (opened (sv_clid srv)) b ack connid conn' srv = err ''()''"
    by (rule start_session_alive [OF assms(3) e assms(5)])
  then show ?thesis using assms(1,2) c by (simp add: establish_connection_def read_request_def Let_def)
qed

definition sample_connect :: "string \<Rightarrow> connect_packet" where
  "sample_connect name = \<lparr>c_protocol_name = lit ''MQTT'', c_protocol_level = 5, c_connect_flags = 0x02,
     c_keep_alive = 60, c_properties = Some no_connect_properties, c_client_id = lit name,
     c_will_properties = None, c_will_topic = None, c_will_payload = None, c_username = None,
     c_password = None\<rparr>"

lemma sample_connect_decode:
  assumes "length name \<le> 100" and "str_ok (lit name)"
  shows "connect_decode list_bytes (connect_image (sample_connect name) @ []) = ok (sample_connect name)"
  by (rule connect_decode_image_plain [OF list_bytes_doc])
    (use assms in \<open>simp_all add: sample_connect_def connect_ok_def no_connect_properties_def
      connect_props_ok_def connect_props_body_def connect_body_def connect_props_image_def
      len_prefix_def str_ok_def lit_def\<close>)

definition read_connect :: "string \<Rightarrow> bytes list \<Rightarrow> nat \<Rightarrow> u64 \<Rightarrow> (io_error + bytes) \<times> bytes list" where
  "read_connect name k n dur = (Inr (connect_image (sample_connect name) @ []), k)"

lemma read_connect_c:
  "connect_decode list_bytes (connect_image (sample_connect ''c'') @ []) = ok (sample_connect ''c'')"
  by (rule sample_connect_decode) (simp_all add: str_ok_def lit_def)

theorem second_connect_panics_witness:
  "establish_connection True list_bytes no_files (read_connect ''c'') log_write 3 clid_id
     (\<lambda>c. (False, False)) (\<lambda>c n. Inr ()) \<lparr>br_clients = sample_registry, br_tasks = []\<rparr> 9 [] = panic"
  by (rule second_connect_panics [where c = "sample_client ''c'' 5", OF _ read_connect_c])
    (simp_all add: read_connect_def sample_registry_ok,
     simp_all add: collect_def sample_connect_def no_connect_properties_def lit_def entry_def
       sample_registry_def sample_client_def is_alive_def Let_def)

lemma clean_connect_spec:
  assumes "bytes_doc B" and "connect_ok req" and "length (connect_body req) \<le> 10000"
    and "RT conn 256 3 = (Inr (connect_image req @ r), conn')"
    and "clean_start req" and "collect req connack_default = (srv, response)"
    and "reg_ok (br_clients b)"
    and "\<not> (\<exists>c. entry (br_clients b) (sv_clid srv) = Some c \<and> is_alive (cl_session c) now)"
    and "c_properties req = Some q"
    and "client_new checks B F now (path (sv_clid srv)) (opened (sv_clid srv)) connid conn' (sv_clid srv)
      (c_keep_alive req) (case cp_session_expiry_interval q of Some v \<Rightarrow> v | None \<Rightarrow> 0) 5
      (limiter_new (cp_receive_maximum q) (cp_maximum_packet_size q) (cp_topic_alias_maximum q)) =
        ok (cl, files)"
    and "W conn' (0x20 # varint (length (connack_body response)) @ connack_body response) = (Inr (), k)"
  shows "\<exists>cs. establish_connection checks B F RT W now path exists opened b connid conn =
      ok \<lparr>br_clients = cs, br_tasks = br_tasks b @ [sv_clid srv]\<rparr> \<and> reg_ok cs \<and>
    (\<forall>j. entry cs j = (if j = sv_clid srv then Some (cl\<lparr>cl_socket := k\<rparr>) else entry (br_clients b) j))"
proof -
  let ?c = "sv_clid srv"
  have q: "connect_props_ok q" "c_protocol_level req = 5" "length (connect_props_body q) \<le> 10000"
    using assms(2,3,9) by (auto simp: connect_ok_def connect_body_def connect_props_image_def)
  have ack: "connack_ok response" using length_collect_response [OF assms(9) q(1,3)] assms(6) by simp
  have srv: "sv_keep_alive srv = c_keep_alive req" "sv_protocol_level srv = 5" "sv_clean_start srv"
    "sv_expr_interval srv = (case cp_session_expiry_interval q of Some v \<Rightarrow> v | None \<Rightarrow> 0)"
    and lim: "(case k_properties response of
       Some v \<Rightarrow> limiter_new (ck_receive_maximum v) (ck_maximum_packet_size v) (ck_topic_alias_maximum v)
     | None \<Rightarrow> limiter_default) =
      limiter_new (cp_receive_maximum q) (cp_maximum_packet_size q) (cp_topic_alias_maximum q)"
    using assms(5,6,9) q(2) by (auto simp: collect_def Let_def no_connack_properties_def)
  have new: "client_new checks B F now (path ?c) (opened ?c) connid conn' ?c (sv_keep_alive srv)
      (sv_expr_interval srv) (sv_protocol_level srv) (case k_properties response of
       Some v \<Rightarrow> limiter_new (ck_receive_maximum v) (ck_maximum_packet_size v) (ck_topic_alias_maximum v)
     | None \<Rightarrow> limiter_default) = ok (cl, files)"
    using assms(10) by (simp only: srv lim)
  obtain cs where cs: "fresh_session checks B F W now (path ?c) (opened ?c) b response connid conn' srv =
      ok \<lparr>br_clients = cs, br_tasks = br_tasks b @ [?c]\<rparr>" "reg_ok cs"
    "\<forall>j. entry cs j = (if j = ?c then Some (cl\<lparr>cl_socket := k\<rparr>) else entry (br_clients b) j)"
    using fresh_session_registers [where W = W, OF assms(7,8) new connack_encode_frame [OF assms(1) ack] assms(11)]
    by blast
  have "start_session checks B F W now (path ?c) (fst (exists ?c)) (snd (exists ?c)) (opened ?c) b response
      connid conn' srv = ok \<lparr>br_clients = cs, br_tasks = br_tasks b @ [?c]\<rparr>"
    unfolding start_session_dead [OF assms(7) srv(3) assms(8)] by (rule cs(1))
  then have "establish_connection checks B F RT W now path exists opened b connid conn =
      ok \<lparr>br_clients = cs, br_tasks = br_tasks b @ [?c]\<rparr>"
    using assms(4,6) connect_decode_image_plain [OF assms(1,2)]
    by (simp add: establish_connection_def read_request_def Let_def)
  then show ?thesis using cs(2,3) by blast
qed

lemma fresh_connack: "collect req connack_default = (srv, response) \<Longrightarrow> take 2 (connack_body response) = [0, 0]"
  by (auto simp: connack_body_def collect_def Let_def connack_default_def split: option.splits)


definition expiring_connect :: connect_packet where
  "expiring_connect = sample_connect ''z''\<lparr>c_connect_flags := 0x22, c_keep_alive := 0,
     c_properties := Some (no_connect_properties\<lparr>cp_session_expiry_interval := Some 3600\<rparr>)\<rparr>"

definition expiring_answer :: connack_packet where
  "expiring_answer = connack_default\<lparr>k_properties := Some (no_connack_properties\<lparr>
     ck_session_expiry_interval := Some 3600, ck_maximum_qos := Some MAX_QOS, ck_server_keep_alive := Some 0\<rparr>)\<rparr>"

definition expiring_variable :: server_variable where
  "expiring_variable = \<lparr>sv_clid = clid_new (lit ''z''), sv_clean_start = True, sv_keep_alive = 0,
     sv_protocol_level = 5, sv_expr_interval = 3600\<rparr>"

lemma expiring_collect: "collect expiring_connect connack_default = (expiring_variable, expiring_answer)"
  by (simp add: collect_def Let_def expiring_connect_def sample_connect_def expiring_variable_def
      expiring_answer_def no_connect_properties_def no_connack_properties_def clean_start_def lit_def)

lemma expiring_ok: "connect_ok expiring_connect" "length (connect_body expiring_connect) \<le> 10000"
  by (simp_all add: expiring_connect_def sample_connect_def connect_ok_def no_connect_properties_def
      connect_props_ok_def str_ok_def lit_def connect_props_body_def connect_body_def
      connect_props_image_def len_prefix_def varint_cases enc32_def)

lemma expiring_simps:
  "c_properties expiring_connect = Some (no_connect_properties\<lparr>cp_session_expiry_interval := Some 3600\<rparr>)"
  "clean_start expiring_connect" "c_keep_alive expiring_connect = 0"
  "limiter_new None None None = limiter_default"
  by (simp_all add: expiring_connect_def sample_connect_def clean_start_def limiter_new_def limiter_default_def)

definition expiring_client :: "u32 \<Rightarrow> bytes list client" where
  "expiring_client connid = \<lparr>cl_conid = connid, cl_clid = clid_new (lit ''z''), cl_socket = [], cl_protocol_level = 5,
     cl_session = \<lparr>s_ttl = 1000, s_expr_interval = 3600, s_keep_alive = 60\<rparr>,
     cl_limit = limiter_default, cl_storage = lit ''z''\<rparr>"


lemma expiring_establish:
  "\<exists>cs. establish_connection True list_bytes script_files
      (\<lambda>k n d. (Inr (connect_image expiring_connect @ []), k)) log_write 1000 clid_id
      (\<lambda>c. (False, False)) (\<lambda>c. fresh_dir) no_broker connid [] =
      ok \<lparr>br_clients = cs, br_tasks = br_tasks no_broker @ [sv_clid expiring_variable]\<rparr> \<and> reg_ok cs \<and>
    (\<forall>j. entry cs j = (if j = sv_clid expiring_variable
       then Some (expiring_client connid\<lparr>cl_socket := [0x20 # varint (length (connack_body expiring_answer)) @
         connack_body expiring_answer]\<rparr>) else entry (br_clients no_broker) j))"
  by (rule clean_connect_spec [OF list_bytes_doc expiring_ok _ expiring_simps(2) expiring_collect
        _ _ expiring_simps(1)])
    (simp_all add: expiring_simps no_connect_properties_def no_broker_def reg_ok_def entry_def sample_new
      log_write_def expiring_variable_def expiring_client_def)


lemma sample_c_simps:
  "connect_ok (sample_connect ''y'')" "length (connect_body (sample_connect ''y'')) \<le> 10000"
  "\<not> clean_start (sample_connect ''y'')"
  by (simp_all add: clean_start_def sample_connect_def connect_ok_def no_connect_properties_def connect_props_ok_def str_ok_def
      lit_def connect_props_body_def connect_body_def connect_props_image_def len_prefix_def)

definition resumed_variable :: server_variable where
  "resumed_variable = \<lparr>sv_clid = clid_new (lit ''y''), sv_clean_start = False, sv_keep_alive = 60,
     sv_protocol_level = 5, sv_expr_interval = 0\<rparr>"

definition resumed_answer :: connack_packet where
  "resumed_answer = connack_default\<lparr>k_properties := Some (no_connack_properties\<lparr>
     ck_session_expiry_interval := Some 0, ck_maximum_qos := Some MAX_QOS, ck_server_keep_alive := Some 60\<rparr>)\<rparr>"

lemma resumed_collect: "collect (sample_connect ''y'') connack_default = (resumed_variable, resumed_answer)"
  by (simp add: collect_def Let_def sample_connect_def resumed_variable_def resumed_answer_def
      no_connect_properties_def no_connack_properties_def clean_start_def lit_def)

definition sample_restored :: restored where
  "sample_restored = \<lparr>rs_mdata = sample_metadata,
     rs_subs = map (\<lambda>(k, v). \<lparr>sub_topic = k, sub_max_qos = v\<rparr>) sample_submap\<rparr>"


text \<open>Every client that connects without an identifier is given the same one, so of such clients only
  one can be connected: the response tells it when the request has properties.\<close>

theorem anonymous_clients_collide:
  assumes "c_client_id req = []" and "c_client_id req' = []"
  shows "sv_clid (fst (collect req res)) = sv_clid (fst (collect req' res')) \<and>
    (\<forall>q. c_properties req = Some q \<longrightarrow>
       (\<exists>v. k_properties (snd (collect req res)) = Some v \<and>
          ck_assigned_client_identifier v = Some (lit ''raw_clid'')))"
  using assms by (auto simp: collect_def Let_def split: option.splits)

theorem anonymous_clients_collide_witness:
  "sv_clid (fst (collect (sample_connect []) connack_default)) =
     sv_clid (fst (collect (sample_connect []\<lparr>c_keep_alive := 5\<rparr>) connack_default)) \<and>
   (\<forall>q. c_properties (sample_connect []) = Some q \<longrightarrow>
       (\<exists>v. k_properties (snd (collect (sample_connect []) connack_default)) = Some v \<and>
          ck_assigned_client_identifier v = Some (lit ''raw_clid'')))"
  by (rule anonymous_clients_collide) (simp_all add: sample_connect_def lit_def)

end
