(* ===== verification/Server.thy ===== *)
theory Server
  imports Handshake
begin

text \<open>
  The server: \<open>Wire for Proxy\<close> (\<open>connection/handler.rs\<close>) and the accept loops of \<open>server.rs\<close>.  What the
  listener, the terminal and the TLS acceptor give is the list of events a loop goes through; a
  connection is handled to the end of its handshake before the next event is looked at, as the
  loops do.
\<close>

record 'k proxy =
  px_access_total :: u32
  px_broker :: "'k broker"

definition broker_new :: "'k broker" where
  "broker_new = \<lparr>br_clients = [], br_tasks = []\<rparr>"

definition proxy_new :: "'k broker \<Rightarrow> 'k proxy" where
  "proxy_new b = \<lparr>px_access_total = 1, px_broker = b\<rparr>"

text \<open>
  An accepted connection, with the time and the client's directory as they are found when its
  request is handled.
\<close>

record ('k, 'f) arrival =
  ar_conn :: 'k
  ar_now :: u64
  ar_path :: "client_id \<Rightarrow> rstring"
  ar_exists :: "client_id \<Rightarrow> bool \<times> bool"
  ar_opened :: "client_id \<Rightarrow> rstring \<Rightarrow> io_error + 'f"

datatype 'a incoming = Accepted 'a | AcceptFailed io_error | CtrlC

text \<open>\<open>connect\<close>: an error of \<open>establish_connection\<close> is ignored.\<close>

definition wire_connect ::
    "bool \<Rightarrow> bytes_crate \<Rightarrow> 'f file_ops \<Rightarrow> ('k \<Rightarrow> nat \<Rightarrow> u64 \<Rightarrow> (io_error + bytes) \<times> 'k) \<Rightarrow>
     ('k \<Rightarrow> bytes \<Rightarrow> (io_error + unit) \<times> 'k) \<Rightarrow> 'k proxy \<Rightarrow> ('k, 'f) arrival \<Rightarrow> (io_error, 'k proxy) run" where
  "wire_connect checks B F RT W p a =
     (let (connid, n) = request_id (px_access_total p); p = p\<lparr>px_access_total := n\<rparr> in
      case establish_connection checks B F RT W (ar_now a) (ar_path a) (ar_exists a) (ar_opened a)
          (px_broker p) connid (ar_conn a) of
        None \<Rightarrow> None
      | Some Panic \<Rightarrow> panic
      | Some (Err e) \<Rightarrow> ok p
      | Some (Ok b) \<Rightarrow> ok (p\<lparr>px_broker := b\<rparr>))"

text \<open>\<open>connect_with_tls\<close>: \<open>TLS\<close> is the handshake of the acceptor on the raw stream.\<close>

definition wire_connect_with_tls ::
    "bool \<Rightarrow> bytes_crate \<Rightarrow> 'f file_ops \<Rightarrow> ('k \<Rightarrow> nat \<Rightarrow> u64 \<Rightarrow> (io_error + bytes) \<times> 'k) \<Rightarrow>
     ('k \<Rightarrow> bytes \<Rightarrow> (io_error + unit) \<times> 'k) \<Rightarrow> ('k \<Rightarrow> io_error + 'k) \<Rightarrow> 'k proxy \<Rightarrow> ('k, 'f) arrival \<Rightarrow>
     (io_error, 'k proxy) run" where
  "wire_connect_with_tls checks B F RT W TLS p a =
     (case TLS (ar_conn a) of
        Inl e \<Rightarrow> ok (p\<lparr>px_access_total := snd (request_id (px_access_total p))\<rparr>)
      | Inr stream \<Rightarrow> wire_connect checks B F RT W p (a\<lparr>ar_conn := stream\<rparr>))"

text \<open>The loops over what comes in; at the end of the list the loop is still waiting.\<close>

fun accept_unsecure :: "('p \<Rightarrow> 'a \<Rightarrow> (io_error, 'p) run) \<Rightarrow> 'p \<Rightarrow> 'a incoming list \<Rightarrow> (io_error, 'p) run" where
  "accept_unsecure connect p [] = ok p"
| "accept_unsecure connect p (Accepted a # es) = andThen (connect p a) (\<lambda>p. accept_unsecure connect p es)"
| "accept_unsecure connect p (AcceptFailed e # es) = panic"
| "accept_unsecure connect p (CtrlC # es) = ok p"

text \<open>The secured loop returns the error of \<open>accept\<close>; it does not listen to the terminal.\<close>

fun accept_secure ::
    "('p \<Rightarrow> 'a \<Rightarrow> (io_error, 'p) run) \<Rightarrow> 'p \<Rightarrow> (io_error + 'a) list \<Rightarrow> (io_error, 'p) run" where
  "accept_secure connect p [] = ok p"
| "accept_secure connect p (Inr a # es) = andThen (connect p a) (\<lambda>p. accept_secure connect p es)"
| "accept_secure connect p (Inl e # es) = err e"

text \<open>\<open>TcpListener::bind(&addr).await?\<close> gives a listener, that is what it will see, or an error.\<close>

definition bind_unsecure ::
    "('p \<Rightarrow> 'a \<Rightarrow> (io_error, 'p) run) \<Rightarrow> io_error + 'a incoming list \<Rightarrow> 'p \<Rightarrow> (io_error, 'p) run" where
  "bind_unsecure connect listener p =
     (case listener of Inl e \<Rightarrow> err e | Inr es \<Rightarrow> accept_unsecure connect p es)"

definition bind_secure ::
    "('p \<Rightarrow> 'a \<Rightarrow> (io_error, 'p) run) \<Rightarrow> io_error + (io_error + 'a) list \<Rightarrow> 'p \<Rightarrow> (io_error, 'p) run" where
  "bind_secure connect listener p =
     (case listener of Inl e \<Rightarrow> err e | Inr es \<Rightarrow> accept_secure connect p es)"

section \<open>The registry between connections\<close>

text \<open>
  The registry is sorted without duplicates, its clients are exactly those for which a listening
  task has been spawned, and the clients \<open>D\<close> are among them.
\<close>

definition attended :: "client_id set \<Rightarrow> 'k clients \<Rightarrow> client_id list \<Rightarrow> bool" where
  "attended D cs tasks \<longleftrightarrow>
     reg_ok cs \<and> (\<forall>j. entry cs j \<noteq> None \<longleftrightarrow> j \<in> set tasks) \<and> D \<subseteq> set tasks"

lemma entry_registered:
  assumes "reg_ok cs"
  shows "cl_clid ` set cs = {j. entry cs j \<noteq> None}"
proof -
  have "entry cs (cl_clid c) \<noteq> None" if "c \<in> set cs" for c
    using that entry_nth [OF assms] by (auto simp: in_set_conv_nth)
  moreover have "j \<in> cl_clid ` set cs" if "entry cs j \<noteq> None" for j
    using that entry_SomeD [of cs j] by (auto simp: in_set_conv_nth)
  ultimately show ?thesis by auto
qed

lemma attend_keeps:
  assumes "reg_ok cs" and "attend cb clid cs tasks = Some (r, cs', tasks')"
  shows "reg_ok cs' \<and> tasks' = tasks @ [clid] \<and> (\<forall>j. entry cs' j \<noteq> None \<longleftrightarrow> entry cs j \<noteq> None)"
proof (cases "entry cs clid")
  case None
  let ?f = "\<lambda>c. let (r, k) = cb (cl_socket c) in (r, c\<lparr>cl_socket := k\<rparr>)"
  have "\<And>c. cl_clid (snd (?f c)) = cl_clid c" by (simp split: prod.splits)
  from search_mut_client_spec [OF assms(1) this, of clid] None
  have "search_mut_client clid ?f cs = (None, cs)" by simp
  then have "attend cb clid cs tasks = None" by (simp add: attend_def)
  then show ?thesis using assms(2) by simp
next
  case (Some c)
  obtain r0 k where "cb (cl_socket c) = (r0, k)" by (cases "cb (cl_socket c)")
  from attend_entry [where callback = cb, OF assms(1) Some this, of tasks] show ?thesis
    using assms(2) Some by auto
qed

lemma insert_keeps:
  assumes "reg_ok cs" and "clients_insert now cs new = Inr cs'"
  shows "reg_ok cs' \<and> (\<forall>j. entry cs' j \<noteq> None \<longleftrightarrow> j = cl_clid new \<or> entry cs j \<noteq> None)"
  using clients_insert_spec [OF assms(1), of new now] assms(2) by (auto split: if_splits)

lemma insert_attend_keeps:
  assumes "attended D cs tasks" and "clients_insert now cs new = Inr cs1"
    and "attend cb (cl_clid new) cs1 tasks = Some (r, cs', tasks')"
  shows "attended D cs' tasks'"
proof -
  have 1: "reg_ok cs1" "\<And>j. entry cs1 j \<noteq> None \<longleftrightarrow> j = cl_clid new \<or> entry cs j \<noteq> None"
    using insert_keeps [OF _ assms(2)] assms(1) by (simp_all add: attended_def)
  have "reg_ok cs'" "tasks' = tasks @ [cl_clid new]" "\<And>j. entry cs' j \<noteq> None \<longleftrightarrow> entry cs1 j \<noteq> None"
    using attend_keeps [OF 1(1) assms(3)] by simp_all
  then show ?thesis using 1(2) assms(1) by (auto simp: attended_def)
qed

lemma register_keeps:
  assumes "attended D cs tasks" and "register now cb cs tasks new = ok (r, cs', tasks')"
  shows "attended D cs' tasks'"
proof (cases "clients_insert now cs new")
  case (Inr cs1)
  then have "attend cb (cl_clid new) cs1 tasks = Some (r, cs', tasks')"
    using assms(2) by (simp add: register_def need_eq_ok)
  then show ?thesis by (rule insert_attend_keeps [OF assms(1) Inr])
qed (use assms(2) in \<open>simp add: register_def\<close>)

lemma try_restore_keeps:
  assumes "attended D cs tasks" and "try_restore_session now cb cs tasks m = ok ((r, cs', tasks'), log)"
  shows "attended D cs' tasks'"
proof -
  obtain cl l where m: "m = ok (cl, l)"
    using assms(2) by (auto simp: try_restore_session_def andThen_eq_ok)
  show ?thesis
  proof (cases "clients_insert now cs cl")
    case (Inr cs1)
    then have "attend cb (cl_clid cl) cs1 tasks = Some (r, cs', tasks')"
      using assms(2) m by (auto simp: try_restore_session_def split: option.splits)
    then show ?thesis by (rule insert_attend_keeps [OF assms(1) Inr])
  qed (use assms(2) m in \<open>simp add: try_restore_session_def\<close>)
qed

definition broker_ok :: "client_id set \<Rightarrow> 'k broker \<Rightarrow> bool" where
  "broker_ok D b \<longleftrightarrow> attended D (br_clients b) (br_tasks b)"

lemma fresh_session_keeps:
  assumes "broker_ok D b" and "fresh_session checks B F W now path opened b response connid conn srv = ok b'"
  shows "broker_ok D b'"
proof -
  obtain cl cb cs tasks where "register now (send_connack B W response) (br_clients b) (br_tasks b) cl =
      ok (cb, cs, tasks)" "b' = \<lparr>br_clients = cs, br_tasks = tasks\<rparr>"
    using assms(2) unfolding fresh_session_def Let_def
    by (elim andThen_okE prod_okE) (auto simp: unwrap_eq_ok)
  then show ?thesis using register_keeps assms(1) by (simp add: broker_ok_def)
qed

lemma start_session_keeps:
  assumes b: "broker_ok D b"
    and s: "start_session checks B F W now path d e opened b response connid conn srv = ok b'"
  shows "broker_ok D b'"
proof -
  let ?restore = "client_restore checks B F now now now path d e opened (sv_clid srv)
    \<lparr>uc_conid = Some connid, uc_socket = Some conn\<rparr>"
  let ?attempt = "try_restore_session now (send_connack B W (response\<lparr>k_session_present := True\<rparr>))
    (br_clients b) (br_tasks b) (fst ?restore)"
  obtain a where a: "is_still_alive now (sv_clid srv) (br_clients b) = (a, br_clients b)"
    using b by (simp add: is_still_alive_spec broker_ok_def attended_def)
  have fresh: "broker_ok D b'" if "fresh_session checks B F W now path opened b response connid k srv = ok b'" for k
    using fresh_session_keeps [OF b that] .
  show ?thesis
  proof (cases "?attempt")
    case (Some r)
    show ?thesis
    proof (cases r)
      case (Ok x)
      obtain fb cs tasks log where x: "x = ((fb, cs, tasks), log)" by (cases x) auto
      have "broker_ok D \<lparr>br_clients = cs, br_tasks = tasks\<rparr>"
        using try_restore_keeps [of D "br_clients b" "br_tasks b"] b Some Ok x by (auto simp: broker_ok_def)
      then show ?thesis using s a Some Ok x fresh
        by (auto simp: start_session_def Let_def andThen_eq_ok unwrap_eq_ok split: if_splits prod.splits)
    next
      case (Err _)
      then show ?thesis using s a Some fresh
        by (auto simp: start_session_def Let_def need_eq_ok split: if_splits prod.splits)
    qed (use s a Some fresh in \<open>auto simp: start_session_def split: if_splits prod.splits\<close>)
  qed (use s a fresh in \<open>auto simp: start_session_def split: if_splits prod.splits\<close>)
qed

section \<open>What the loops rely on\<close>

text \<open>
  An accept loop asks one thing of its \<open>Wire\<close>: handling a connection keeps what holds between
  connections.
\<close>

locale wire =
  fixes connect :: "'p \<Rightarrow> 'a \<Rightarrow> (io_error, 'p) run" and inv :: "'p \<Rightarrow> bool"
  assumes connect_keeps: "inv p \<Longrightarrow> connect p a = ok p' \<Longrightarrow> inv p'"
begin

lemma accept_unsecure_keeps: "inv p \<Longrightarrow> accept_unsecure connect p es = ok p' \<Longrightarrow> inv p'"
proof (induction es arbitrary: p)
  case (Cons e es)
  then show ?case by (cases e) (auto simp: andThen_eq_ok intro: connect_keeps)
qed simp

lemma accept_secure_keeps: "inv p \<Longrightarrow> accept_secure connect p es = ok p' \<Longrightarrow> inv p'"
proof (induction es arbitrary: p)
  case (Cons e es)
  then show ?case by (cases e) (auto simp: andThen_eq_ok intro: connect_keeps)
qed simp

lemma unsecure_keeps: "inv p \<Longrightarrow> bind_unsecure connect listener p = ok p' \<Longrightarrow> inv p'"
  by (cases listener) (auto simp: bind_unsecure_def intro: accept_unsecure_keeps)

lemma secure_keeps: "inv p \<Longrightarrow> bind_secure connect listener p = ok p' \<Longrightarrow> inv p'"
  by (cases listener) (auto simp: bind_secure_def intro: accept_secure_keeps)

end

lemma establish_keeps:
  assumes "broker_ok D b"
    and "establish_connection checks B F RT W now path exists opened b connid conn = ok b'"
  shows "broker_ok D b'"
  using assms unfolding establish_connection_def Let_def
  by (elim andThen_okE prod_okE) (auto simp: unwrap_eq_ok split: prod.splits elim!: andThen_okE
      intro: start_session_keeps)

lemma wire_connect_keeps:
  assumes "broker_ok D (px_broker p)" and "wire_connect checks B F RT W p a = ok p'"
  shows "broker_ok D (px_broker p')"
  using assms by (auto simp: wire_connect_def request_id_def Let_def intro: establish_keeps
      split: option.splits outcome.splits)

lemma wire_connect_with_tls_keeps:
  assumes "broker_ok D (px_broker p)" and "wire_connect_with_tls checks B F RT W TLS p a = ok p'"
  shows "broker_ok D (px_broker p')"
  using assms by (auto simp: wire_connect_with_tls_def intro: wire_connect_keeps split: sum.splits)

interpretation plain: wire "wire_connect checks B F RT W" "\<lambda>p. broker_ok D (px_broker p)"
  for D checks B F RT W
  by unfold_locales (rule wire_connect_keeps)

interpretation tls: wire "wire_connect_with_tls checks B F RT W TLS" "\<lambda>p. broker_ok D (px_broker p)"
  for D checks B F RT W TLS
  by unfold_locales (rule wire_connect_with_tls_keeps)

lemma broker_new_ok: "broker_ok {} broker_new"
  by (simp add: broker_ok_def attended_def broker_new_def reg_ok_def entry_def)

section \<open>Properties\<close>

lemma served_clients_spec:
  "(bind_unsecure (wire_connect checks B F RT W) listener (proxy_new broker_new) = ok p \<or>
    bind_secure (wire_connect_with_tls checks B F RT W TLS) tls_listener (proxy_new broker_new) = ok p) \<longrightarrow>
   sorted_wrt (<) (map cl_clid (br_clients (px_broker p))) \<and>
   cl_clid ` set (br_clients (px_broker p)) = set (br_tasks (px_broker p))"
proof
  assume "bind_unsecure (wire_connect checks B F RT W) listener (proxy_new broker_new) = ok p \<or>
    bind_secure (wire_connect_with_tls checks B F RT W TLS) tls_listener (proxy_new broker_new) = ok p"
  moreover have "broker_ok {} (px_broker (proxy_new broker_new))"
    using broker_new_ok by (simp add: proxy_new_def)
  ultimately have ok: "broker_ok {} (px_broker p)"
    using plain.unsecure_keeps tls.secure_keeps by blast
  then have reg: "reg_ok (br_clients (px_broker p))"
    and tasks: "\<And>j. j \<in> set (br_tasks (px_broker p)) \<longleftrightarrow> entry (br_clients (px_broker p)) j \<noteq> None"
    by (simp_all add: broker_ok_def attended_def)
  have "cl_clid ` set (br_clients (px_broker p)) = set (br_tasks (px_broker p))"
    using entry_registered [OF reg] tasks by blast
  with reg show "sorted_wrt (<) (map cl_clid (br_clients (px_broker p))) \<and>
      cl_clid ` set (br_clients (px_broker p)) = set (br_tasks (px_broker p))"
    by (simp add: reg_ok_def)
qed

text \<open>C8: Whatever connects to a new server, by either accept loop and with whatever requests, as long as
  it runs its registry is sorted without duplicates and its clients are exactly those that a task
  has been spawned to listen to.\<close>

theorem served_clients_attended:
  "(bind_unsecure (wire_connect checks B F RT W) listener (proxy_new broker_new) = ok p \<or>
    bind_secure (wire_connect_with_tls checks B F RT W TLS) tls_listener (proxy_new broker_new) = ok p) \<longrightarrow>
   sorted_wrt (<) (map cl_clid (br_clients (px_broker p))) \<and>
   cl_clid ` set (br_clients (px_broker p)) = set (br_tasks (px_broker p))"
  by (rule served_clients_spec)

definition expiring_arrival :: "(bytes list, bytes list \<times> bytes list) arrival" where
  "expiring_arrival = \<lparr>ar_conn = [], ar_now = 1000, ar_path = clid_id, ar_exists = (\<lambda>c. (False, False)),
     ar_opened = (\<lambda>c. fresh_dir)\<rparr>"

text \<open>The server that serves one well-formed CONNECT, and then is interrupted.\<close>

definition served_one :: "bytes list proxy \<Rightarrow> bool" where
  "served_one p \<longleftrightarrow>
     bind_unsecure (wire_connect True list_bytes script_files
       (\<lambda>k n d. (Inr (connect_image expiring_connect @ []), k)) log_write)
       (Inr [Accepted expiring_arrival, CtrlC]) (proxy_new broker_new) = ok p \<and> br_clients (px_broker p) \<noteq> []"

lemma served_one_exists: "\<exists>p. served_one p"
proof -
  obtain cs where cs: "establish_connection True list_bytes script_files
      (\<lambda>k n d. (Inr (connect_image expiring_connect @ []), k)) log_write 1000 clid_id
      (\<lambda>c. (False, False)) (\<lambda>c. fresh_dir) broker_new 1 [] =
      ok \<lparr>br_clients = cs, br_tasks = br_tasks no_broker @ [sv_clid expiring_variable]\<rparr>"
    "entry cs (sv_clid expiring_variable) \<noteq> None"
    using expiring_establish [of 1] by (auto simp: broker_new_def no_broker_def)
  have "cs \<noteq> []" using cs(2) by (auto simp: entry_def)
  then show ?thesis
    using cs(1) by (simp add: served_one_def bind_unsecure_def wire_connect_def request_id_def expiring_arrival_def proxy_new_def)
qed

theorem served_clients_attended_witness:
  "\<exists>p :: bytes list proxy. br_clients (px_broker p) \<noteq> [] \<and>
     sorted_wrt (<) (map cl_clid (br_clients (px_broker p))) \<and>
     cl_clid ` set (br_clients (px_broker p)) = set (br_tasks (px_broker p))"
proof -
  obtain p where "served_one p" using served_one_exists ..
  then show ?thesis
    using served_clients_attended [of True list_bytes script_files
        "\<lambda>k n d. (Inr (connect_image expiring_connect @ []), k)" log_write
        "Inr [Accepted expiring_arrival, CtrlC]" p] by (auto simp: served_one_def)
qed

text \<open>C40: One client that connects and sends nothing for three seconds ends the server: the accept loop
  panics at its connection, and whoever comes after it is not served.\<close>

theorem silent_client_stops_server:
  assumes "accept_unsecure (wire_connect checks B F RT W) p (map Accepted served) = ok p'"
    and "RT (ar_conn a) 256 3 = (Inl e, k)"
  shows "bind_unsecure (wire_connect checks B F RT W) (Inr (map Accepted served @ Accepted a # rest)) p = panic"
  unfolding bind_unsecure_def sum.case using assms(1)
proof (induction served arbitrary: p)
  case Nil
  then show ?case
    using assms(2) by (simp add: wire_connect_def request_id_def establish_connection_def read_request_def)
next
  case (Cons x served)
  then show ?case by (auto simp: andThen_eq_ok)
qed

theorem silent_client_stops_server_witness:
  "bind_unsecure (wire_connect True list_bytes no_files (\<lambda>k n d. (Inl (IoError IoTimedOut []), k)) log_write)
     (Inr (map Accepted [] @ Accepted
       \<lparr>ar_conn = [], ar_now = 50, ar_path = clid_id, ar_exists = (\<lambda>c. (False, False)), ar_opened = (\<lambda>c n. Inr ())\<rparr> #
     [Accepted \<lparr>ar_conn = [], ar_now = 54, ar_path = clid_id, ar_exists = (\<lambda>c. (False, False)),
        ar_opened = (\<lambda>c n. Inr ())\<rparr>])) (proxy_new broker_new) = panic"
  by (rule silent_client_stops_server) simp_all

end
