(* ===== verification/Socket.thy ===== *)
theory Socket
  imports Prelude
begin

text \<open>
  Sockets: the connection before its CONNECT packet is read (\<open>SocketConnection\<close> of
  \<open>connection/line.rs\<close>), the client's socket with its two halves (\<open>Socket\<close> of
  \<open>message_broker/client/clobj.rs\<close>) and reading with a timeout (\<open>SocketReader\<close> of
  \<open>connection/mod.rs\<close>).  The streams and their splitting are code of \<open>tokio\<close> and \<open>tokio_rustls\<close>:
  what a read of a stream gives within a number of seconds (\<open>None\<close> when it is still waiting then),
  and what a write gives, are parameters, one for TCP and one for TLS.
\<close>

type_synonym 'k reader = "'k \<Rightarrow> nat \<Rightarrow> u64 \<Rightarrow> (io_error + bytes) option \<times> 'k"
type_synonym 'k writer = "'k \<Rightarrow> bytes \<Rightarrow> (io_error + unit) \<times> 'k"

text \<open>\<open>SocketReader::read_timeout\<close>; \<open>elapsed\<close> is the text of \<open>tokio\<close>'s error.\<close>

definition read_timeout :: "rstring \<Rightarrow> 'k reader \<Rightarrow> 'k \<Rightarrow> nat \<Rightarrow> u64 \<Rightarrow> (io_error + bytes) \<times> 'k" where
  "read_timeout elapsed read k n dur =
     (case read k n dur of
        (Some v, k) \<Rightarrow> (v, k)
      | (None, k) \<Rightarrow> (Inl (IoError IoTimedOut elapsed), k))"

section \<open>Before the handshake\<close>

datatype ('s, 'p) socket_connection = Secure 's | Plain 'p

fun conn_read :: "'s reader \<Rightarrow> 'p reader \<Rightarrow> ('s, 'p) socket_connection reader" where
  "conn_read RS RP (Plain p) n dur = (let (r, p) = RP p n dur in (r, Plain p))"
| "conn_read RS RP (Secure s) n dur = (let (r, s) = RS s n dur in (r, Secure s))"

fun conn_write_all :: "'s writer \<Rightarrow> 'p writer \<Rightarrow> ('s, 'p) socket_connection writer" where
  "conn_write_all WS WP (Plain p) buffer = (let (r, p) = WP p buffer in (r, Plain p))"
| "conn_write_all WS WP (Secure s) buffer = (let (r, s) = WS s buffer in (r, Secure s))"

section \<open>A client's socket\<close>

datatype ('s, 'p) socket_inner = SecuredHalf 's | PlainHalf 'p

record ('sr, 'sw, 'pr, 'pw) socket =
  sk_r :: "('sr, 'pr) socket_inner"
  sk_w :: "('sw, 'pw) socket_inner"

fun socket_new ::
    "('s \<Rightarrow> 'sr \<times> 'sw) \<Rightarrow> ('p \<Rightarrow> 'pr \<times> 'pw) \<Rightarrow> ('s, 'p) socket_connection \<Rightarrow> ('sr, 'sw, 'pr, 'pw) socket" where
  "socket_new split_s split_p (Plain p) =
     (let (r, w) = split_p p in \<lparr>sk_r = PlainHalf r, sk_w = PlainHalf w\<rparr>)"
| "socket_new split_s split_p (Secure s) =
     (let (r, w) = split_s s in \<lparr>sk_r = SecuredHalf r, sk_w = SecuredHalf w\<rparr>)"

definition socket_write_all :: "'sw writer \<Rightarrow> 'pw writer \<Rightarrow> ('sr, 'sw, 'pr, 'pw) socket writer" where
  "socket_write_all WS WP k buffer =
     (case sk_w k of
        PlainHalf p \<Rightarrow> let (r, p) = WP p buffer in (r, k\<lparr>sk_w := PlainHalf p\<rparr>)
      | SecuredHalf s \<Rightarrow> let (r, s) = WS s buffer in (r, k\<lparr>sk_w := SecuredHalf s\<rparr>))"

definition socket_read :: "'sr reader \<Rightarrow> 'pr reader \<Rightarrow> ('sr, 'sw, 'pr, 'pw) socket reader" where
  "socket_read RS RP k n dur =
     (case sk_r k of
        PlainHalf p \<Rightarrow> let (r, p) = RP p n dur in (r, k\<lparr>sk_r := PlainHalf p\<rparr>)
      | SecuredHalf s \<Rightarrow> let (r, s) = RS s n dur in (r, k\<lparr>sk_r := SecuredHalf s\<rparr>))"

section \<open>What a socket promises\<close>

text \<open>
  Reading does not disturb what is to be written, nor writing what is to be read; and each gives what
  the stream behind it gives.
\<close>

locale duplex =
  fixes wellformed :: "'k \<Rightarrow> bool"
    and read_half :: "'k \<Rightarrow> 'r" and write_half :: "'k \<Rightarrow> 'w"
    and rd :: "'k reader" and wr :: "'k writer"
    and R :: "'r reader" and W :: "'w writer"
  assumes read_law: "wellformed k \<Longrightarrow> \<exists>k'. rd k n dur = (fst (R (read_half k) n dur), k') \<and> wellformed k' \<and>
      read_half k' = snd (R (read_half k) n dur) \<and> write_half k' = write_half k"
    and write_law: "wellformed k \<Longrightarrow> \<exists>k'. wr k b = (fst (W (write_half k) b), k') \<and> wellformed k' \<and>
      write_half k' = snd (W (write_half k) b) \<and> read_half k' = read_half k"
begin

lemma timeout_law:
  assumes "wellformed k"
  shows "\<exists>k'. read_timeout elapsed rd k n dur = (fst (read_timeout elapsed R (read_half k) n dur), k') \<and>
    wellformed k' \<and> read_half k' = snd (R (read_half k) n dur) \<and> write_half k' = write_half k"
  using read_law [OF assms, of n dur] by (auto simp: read_timeout_def split: option.splits prod.splits)

text \<open>A read and a write commute.\<close>

lemma read_then_write:
  assumes "wellformed k"
  shows "\<exists>k1 k2. rd k n dur = (fst (R (read_half k) n dur), k1) \<and>
    wr k1 b = (fst (W (write_half k) b), k2) \<and> fst (wr k b) = fst (W (write_half k) b) \<and>
    fst (rd (snd (wr k b)) n dur) = fst (R (read_half k) n dur)"
proof -
  obtain k1 where k1: "rd k n dur = (fst (R (read_half k) n dur), k1)" "wellformed k1" "write_half k1 = write_half k"
    using read_law [OF assms, of n dur] by blast
  obtain k2 where k2: "wr k1 b = (fst (W (write_half k) b), k2)" using write_law [OF k1(2), of b] k1(3) by auto
  obtain k3 where k3: "wr k b = (fst (W (write_half k) b), k3)" "wellformed k3" "read_half k3 = read_half k"
    using write_law [OF assms, of b] by blast
  obtain k4 where "rd k3 n dur = (fst (R (read_half k) n dur), k4)" using read_law [OF k3(2), of n dur] k3(3) by auto
  then show ?thesis using k1(1) k2 k3(1) by simp
qed

end

text \<open>A client's socket over one kind of stream; the halves of the other kind do not occur.\<close>

fun plain_half :: "('s, 'p) socket_inner \<Rightarrow> 'p option" where
  "plain_half (PlainHalf p) = Some p"
| "plain_half (SecuredHalf s) = None"

fun secured_half :: "('s, 'p) socket_inner \<Rightarrow> 's option" where
  "secured_half (SecuredHalf s) = Some s"
| "secured_half (PlainHalf p) = None"

definition plain_socket :: "('sr, 'sw, 'pr, 'pw) socket \<Rightarrow> bool" where
  "plain_socket k \<longleftrightarrow> plain_half (sk_r k) \<noteq> None \<and> plain_half (sk_w k) \<noteq> None"

definition secured_socket :: "('sr, 'sw, 'pr, 'pw) socket \<Rightarrow> bool" where
  "secured_socket k \<longleftrightarrow> secured_half (sk_r k) \<noteq> None \<and> secured_half (sk_w k) \<noteq> None"

interpretation tcp_socket: duplex plain_socket "\<lambda>k. the (plain_half (sk_r k))" "\<lambda>k. the (plain_half (sk_w k))"
  "socket_read RS RP" "socket_write_all WS WP" RP WP for RS RP WS WP
  by unfold_locales
    (auto simp: plain_socket_def socket_read_def socket_write_all_def case_prod_unfold Let_def split: socket_inner.splits)

interpretation tls_socket: duplex secured_socket "\<lambda>k. the (secured_half (sk_r k))" "\<lambda>k. the (secured_half (sk_w k))"
  "socket_read RS RP" "socket_write_all WS WP" RS WS for RS RP WS WP
  by unfold_locales
    (auto simp: secured_socket_def socket_read_def socket_write_all_def case_prod_unfold Let_def split: socket_inner.splits)

text \<open>A socket to which nothing comes lets every read time out.\<close>

lemma silent_socket:
  assumes "\<forall>s n dur. fst (RS s n dur) = None" and "\<forall>p n dur. fst (RP p n dur) = None"
  shows "\<exists>e k'. read_timeout elapsed (socket_read RS RP) k n dur = (Inl e, k') \<and> kind e = IoTimedOut"
  using assms
  by (auto simp: read_timeout_def socket_read_def case_prod_unfold Let_def split: socket_inner.split)

section \<open>Properties\<close>

text \<open>Splitting a connection keeps its kind, and its halves work side by side: a client's socket made from a
  TCP connection reads what the read half of that connection gives, a timeout when nothing has
  come within the time, writes to its write half, and neither changes what the other sees; TLS
  code is never called.\<close>

theorem plain_socket_duplex:
  assumes "split_p p = (r, w)"
  shows "\<exists>k1 k2. read_timeout elapsed (socket_read RS RP) (socket_new split_s split_p (Plain p)) n dur =
      ((case fst (RP r n dur) of Some v \<Rightarrow> v | None \<Rightarrow> Inl (IoError IoTimedOut elapsed)), k1) \<and>
    socket_write_all WS WP k1 b = (fst (WP w b), k2) \<and>
    sk_r k2 = PlainHalf (snd (RP r n dur)) \<and> sk_w k2 = PlainHalf (snd (WP w b))"
  using assms
  by (auto simp: read_timeout_def socket_read_def socket_write_all_def case_prod_unfold Let_def split: option.split)

theorem plain_socket_duplex_witness:
  "\<exists>k1 k2. read_timeout [] (socket_read (\<lambda>s n d. (Some (Inr []), s)) (\<lambda>r n d. (None, r)))
        (socket_new (\<lambda>s :: nat. (s, s)) (\<lambda>p :: bytes list. (p, p)) (Plain [])) 1024 3 =
      ((case fst ((None :: (io_error + bytes) option, [] :: bytes list)) of Some v \<Rightarrow> v
        | None \<Rightarrow> Inl (IoError IoTimedOut [])), k1) \<and>
    socket_write_all (\<lambda>s b. (Inr (), s)) (\<lambda>w b. (Inr (), w @ [b])) k1 [0x20] =
      (fst (Inr () :: io_error + unit, [] @ [[0x20 :: u8]]), k2) \<and>
    sk_r k2 = PlainHalf (snd ((None :: (io_error + bytes) option, [] :: bytes list))) \<and>
    sk_w k2 = PlainHalf (snd (Inr () :: io_error + unit, [] @ [[0x20 :: u8]]))"
  using plain_socket_duplex [where split_p = "\<lambda>p :: bytes list. (p, p)" and p = "[]" and r = "[]" and w = "[]"
    and elapsed = "[]" and RS = "\<lambda>s n d. (Some (Inr []), s)" and RP = "\<lambda>r n d. (None, r)"
    and WS = "\<lambda>s b. (Inr (), s)" and WP = "\<lambda>w b. (Inr (), w @ [b])" and split_s = "\<lambda>s :: nat. (s, s)"
    and n = 1024 and dur = 3 and b = "[0x20]"] by simp

end
