(* ===== verification/Listening.thy ===== *)
theory Listening
  imports Mediator Socket
begin

text \<open>
  The listening task of \<open>message_broker/mediator.rs\<close> from its start to its end: \<open>spawn_client\<close> makes
  the rounds of theory \<open>Mediator\<close> until one of them ends the loop.  What the clock shows is a list:
  the time at the start of each round and, for a round that kills the session, the time then.
\<close>

fun listen ::
    "bool \<Rightarrow> bytes_crate \<Rightarrow> 'f file_ops \<Rightarrow>
     ('k \<Rightarrow> nat \<Rightarrow> u64 \<Rightarrow> (io_error + bytes) \<times> 'k) \<Rightarrow> ('k \<Rightarrow> bytes \<Rightarrow> (io_error + unit) \<times> 'k) \<Rightarrow>
     ('ro \<Rightarrow> client_id \<Rightarrow> subscribe list \<Rightarrow> (malformed + sub_ack_result list) \<times> 'ro) \<Rightarrow>
     ('q \<Rightarrow> message \<Rightarrow> 'q) \<Rightarrow> ('f \<Rightarrow> io_error + 'f) \<Rightarrow> io_error + 'f \<Rightarrow> (u64 \<times> u64) list \<Rightarrow>
     ('k, 'q, 'ro, 'f) listener \<Rightarrow> (io_error, bool \<times> ('k, 'q, 'ro, 'f) listener) run" where
  "listen checks B F RT W subscribe enq open_log opened [] l = ok (True, l)"
| "listen checks B F RT W subscribe enq open_log opened ((t, now') # clock) l =
     andThen (listen_round checks B F RT W subscribe enq open_log opened t now' l) (\<lambda>(goes_on, l).
     if goes_on then listen checks B F RT W subscribe enq open_log opened clock l else ok (False, l))"

definition spawn_client ::
    "bool \<Rightarrow> bytes_crate \<Rightarrow> 'f file_ops \<Rightarrow>
     ('k \<Rightarrow> nat \<Rightarrow> u64 \<Rightarrow> (io_error + bytes) \<times> 'k) \<Rightarrow> ('k \<Rightarrow> bytes \<Rightarrow> (io_error + unit) \<times> 'k) \<Rightarrow>
     ('ro \<Rightarrow> client_id \<Rightarrow> subscribe list \<Rightarrow> (malformed + sub_ack_result list) \<times> 'ro) \<Rightarrow>
     ('q \<Rightarrow> message \<Rightarrow> 'q) \<Rightarrow> ('f \<Rightarrow> io_error + 'f) \<Rightarrow> io_error + 'f \<Rightarrow> (u64 \<times> u64) list \<Rightarrow>
     'k client \<Rightarrow> 'q \<Rightarrow> 'ro \<Rightarrow> 'f \<Rightarrow> (io_error, bool \<times> ('k, 'q, 'ro, 'f) listener) run" where
  "spawn_client checks B F RT W subscribe enq open_log opened clock client msg_queue router log =
     listen checks B F RT W subscribe enq open_log opened clock
       \<lparr>li_client = client, li_len = 1024, li_queue = msg_queue, li_router = router, li_log = log\<rparr>"

section \<open>Lemmas\<close>

text \<open>A socket whose next reads give these frames, into any buffer that they fit.\<close>

fun frames :: "('k \<Rightarrow> nat \<Rightarrow> u64 \<Rightarrow> (io_error + bytes) \<times> 'k) \<Rightarrow> nat \<Rightarrow> 'k \<Rightarrow> bytes list \<Rightarrow> bool" where
  "frames RT n k [] = True"
| "frames RT n k (b # bs) = (b \<noteq> [] \<and> (\<exists>k'. (\<forall>dur. RT k n dur = (Inr b, k')) \<and> frames RT n k' bs))"

text \<open>
  Times at which a client with this keep-alive interval is heard in time: each round begins more
  than a second before the deadline that the round before has set.
\<close>

fun timely :: "nat \<Rightarrow> nat \<Rightarrow> (u64 \<times> u64) list \<Rightarrow> bool" where
  "timely ka deadline [] = True"
| "timely ka deadline ((t, _) # clock) =
     (unat t + 1 < deadline \<and> unat t + 1 < 2 ^ 63 \<and> timely ka (unat t + 1 + ka + ka div 2) clock)"

lemma listen_goes_on:
  "listen_round checks B F RT W sub enq open_log opened t now' l = ok (True, l') \<Longrightarrow>
   listen checks B F RT W sub enq open_log opened ((t, now') # clock) l =
     listen checks B F RT W sub enq open_log opened clock l'"
  by simp

lemma listen_ends:
  "listen_round checks B F RT W sub enq open_log opened t now' l = ok (False, l') \<Longrightarrow>
   listen checks B F RT W sub enq open_log opened ((t, now') # clock) l = ok (False, l')"
  by simp

text \<open>What a client publishes in time is queued, one message for each packet, in order.\<close>

lemma listen_publishes:
  assumes "length clock = length ps"
    and "timely (unat (s_keep_alive (cl_session (li_client l)))) (unat (s_ttl (cl_session (li_client l)))) clock"
    and "unat (s_keep_alive (cl_session (li_client l))) \<le> 43690"
    and "frames RT (li_len l) (cl_socket (li_client l)) (map fst ps)"
    and "\<forall>(b, p) \<in> set ps. client_packet_decode B b = ok (CPublish p)"
  shows "\<exists>k ttl. listen checks B F RT W sub enq open_log opened clock l =
    ok (True, l\<lparr>li_client := (li_client l)\<lparr>cl_socket := k, cl_session := (cl_session (li_client l))\<lparr>s_ttl := ttl\<rparr>\<rparr>,
      li_queue := foldl enq (li_queue l) (map (message_of (cl_clid (li_client l)) \<circ> snd) ps)\<rparr>)"
  using assms
proof (induction clock ps arbitrary: l rule: list_induct2')
  case 1
  show ?case
    by (rule exI [of _ "cl_socket (li_client l)"], rule exI [of _ "s_ttl (cl_session (li_client l))"]) simp
next
  case (4 c clock bp ps)
  obtain t now' where c: "c = (t, now')" by fastforce
  obtain b p where bp: "bp = (b, p)" by fastforce
  let ?cl = "li_client l"
  obtain k where b: "b \<noteq> []" and k: "\<And>dur. RT (cl_socket ?cl) (li_len l) dur = (Inr b, k)" "frames RT (li_len l) k (map fst ps)"
    using "4.prems"(4) bp by auto
  have t: "unat t + 1 < unat (s_ttl (cl_session ?cl))" "unat t + 1 < 2 ^ 63" using "4.prems"(2) c by simp_all
  have p: "client_packet_decode B b = ok (CPublish p)" using "4.prems"(5) bp by simp
  obtain ttl where ttl: "listen_round checks B F RT W sub enq open_log opened t now' l =
      ok (True, l\<lparr>li_client := ?cl\<lparr>cl_socket := k, cl_session := (cl_session ?cl)\<lparr>s_ttl := ttl\<rparr>\<rparr>,
        li_queue := enq (li_queue l) (message_of (cl_clid ?cl) p)\<rparr>)"
    "unat ttl = unat t + 1 + unat (s_keep_alive (cl_session ?cl)) + unat (s_keep_alive (cl_session ?cl)) div 2"
    using publish_queued_deadline [where checks = checks and F = F and RT = RT and W = W and sub = sub and enq = enq
      and open_log = open_log and opened = opened and now' = now',
      OF t(1) "4.prems"(3) t(2) k(1) b p] by blast
  let ?l = "l\<lparr>li_client := ?cl\<lparr>cl_socket := k, cl_session := (cl_session ?cl)\<lparr>s_ttl := ttl\<rparr>\<rparr>,
        li_queue := enq (li_queue l) (message_of (cl_clid ?cl) p)\<rparr>"
  have "\<exists>k ttl. listen checks B F RT W sub enq open_log opened clock ?l =
    ok (True, ?l\<lparr>li_client := (li_client ?l)\<lparr>cl_socket := k, cl_session := (cl_session (li_client ?l))\<lparr>s_ttl := ttl\<rparr>\<rparr>,
      li_queue := foldl enq (li_queue ?l) (map (message_of (cl_clid (li_client ?l)) \<circ> snd) ps)\<rparr>)"
    using "4.prems" c bp k ttl(2) by (intro "4.IH") simp_all
  then show ?case unfolding c listen_goes_on [OF ttl(1)] bp by (simp add: comp_def)
qed simp_all

lemma silent_round:
  assumes "is_alive (cl_session (li_client l)) t"
    and "RT (cl_socket (li_client l)) (li_len l) (s_ttl (cl_session (li_client l)) - t) = (Inl e, k)"
    and "kind e = IoTimedOut"
  shows "listen_round checks B F RT W sub enq open_log opened t now' l =
    ok (True, l\<lparr>li_client := (li_client l)\<lparr>cl_socket := k\<rparr>\<rparr>)"
  using assms by (simp add: listen_round_def Let_def is_alive_def usub_le)

lemma dead_round:
  assumes "\<not> is_alive (cl_session (li_client l)) t" and "unat t + 1 < 2 ^ 64"
    and "unat (s_ttl (cl_session (li_client l))) < 2 ^ 63"
    and "log_session B F (open_log (li_log l)) [\<lparr>w_time = t + 1, w_value = DisconnectByServer
      (ucast (s_expr_interval (cl_session (li_client l))) + s_ttl (cl_session (li_client l)))\<rparr>] = ok f"
  shows "listen_round checks B F RT W sub enq open_log opened t now' l = ok (False, l\<lparr>li_log := f\<rparr>)"
proof -
  let ?s = "cl_session (li_client l)"
  have "unat (ucast (s_expr_interval ?s) :: u64) + unat (s_ttl ?s) < 2 ^ LENGTH(64)"
    using assms(3) unat_u32_less [of "s_expr_interval ?s"] by (simp add: unat_ucast_32_64)
  from uadd_Some(1) [OF this]
  have "expiration_time checks ?s = Some (ucast (s_expr_interval ?s) + s_ttl ?s)"
    by (simp add: expiration_time_def)
  then show ?thesis
    using assms(1,4) uadd_1 [OF assms(2)] by (simp add: listen_round_def Let_def listener_log_def)
qed

lemma listen_silent:
  assumes "\<forall>k n dur. \<exists>e k'. RT k n dur = (Inl e, k') \<and> kind e = IoTimedOut"
    and "\<forall>(t, _) \<in> set clock. is_alive (cl_session (li_client l)) t"
    and "\<not> is_alive (cl_session (li_client l)) t" and "unat t + 1 < 2 ^ 64"
    and "unat (s_ttl (cl_session (li_client l))) < 2 ^ 63"
    and "log_session B F (open_log (li_log l)) [\<lparr>w_time = t + 1, w_value = DisconnectByServer
      (ucast (s_expr_interval (cl_session (li_client l))) + s_ttl (cl_session (li_client l)))\<rparr>] = ok f"
  shows "\<exists>k. listen checks B F RT W sub enq open_log opened (clock @ (t, now') # later) l =
    ok (False, l\<lparr>li_client := (li_client l)\<lparr>cl_socket := k\<rparr>, li_log := f\<rparr>)"
  using assms(2-)
proof (induction clock arbitrary: l)
  case Nil
  from Nil.prems(2-) have "listen_round checks B F RT W sub enq open_log opened t now' l = ok (False, l\<lparr>li_log := f\<rparr>)"
    by (rule dead_round)
  then show ?case by (intro exI [of _ "cl_socket (li_client l)"]) simp
next
  case (Cons c clock)
  obtain t' now'' where c: "c = (t', now'')" by fastforce
  obtain e k where e: "RT (cl_socket (li_client l)) (li_len l) (s_ttl (cl_session (li_client l)) - t') = (Inl e, k)"
    "kind e = IoTimedOut" using assms(1) by blast
  have "is_alive (cl_session (li_client l)) t'" using Cons.prems(1) c by simp
  note r = silent_round [where RT = RT and l = l, OF this e]
  let ?l = "l\<lparr>li_client := (li_client l)\<lparr>cl_socket := k\<rparr>\<rparr>"
  have "\<exists>k. listen checks B F RT W sub enq open_log opened (clock @ (t, now') # later) ?l =
    ok (False, ?l\<lparr>li_client := (li_client ?l)\<lparr>cl_socket := k\<rparr>, li_log := f\<rparr>)"
    using Cons.prems by (intro Cons.IH) simp_all
  then show ?case unfolding c append_Cons listen_goes_on [OF r] by simp
qed

section \<open>Properties\<close>

text \<open>C6: A client whose keep-alive interval is at most 43690 seconds sends any number of PUBLISH packets, each
  read whole in a round of its own that begins more than one second before the deadline that the packet
  before it has set.  Then its listening task queues exactly one message for each, in the order they
  were sent and with the client as publisher when they ask for an acknowledgement; the task goes on,
  and its read buffer has all its 1024 bytes again.  (In a round that begins at the last second before the deadline a
  packet is lost: theorem \<open>last_second_packet_lost\<close>.)\<close>

theorem publishes_queued:
  assumes "length clock = length ps"
    and "timely (unat (s_keep_alive (cl_session cl))) (unat (s_ttl (cl_session cl))) clock"
    and "unat (s_keep_alive (cl_session cl)) \<le> 43690"
    and "frames RT 1024 (cl_socket cl) (map fst ps)"
    and "\<forall>(b, p) \<in> set ps. client_packet_decode B b = ok (CPublish p)"
  shows "\<exists>l. spawn_client checks B F RT W sub enq open_log opened clock cl q router log = ok (True, l) \<and>
    li_queue l = foldl enq q (map (message_of (cl_clid cl) \<circ> snd) ps) \<and> li_len l = 1024 \<and>
    (\<exists>k ttl. li_client l = cl\<lparr>cl_socket := k, cl_session := (cl_session cl)\<lparr>s_ttl := ttl\<rparr>\<rparr>)"
proof -
  let ?l = "\<lparr>li_client = cl, li_len = 1024, li_queue = q, li_router = router, li_log = log\<rparr>"
  let ?l' = "\<lambda>k ttl. ?l\<lparr>li_client := cl\<lparr>cl_socket := k, cl_session := (cl_session cl)\<lparr>s_ttl := ttl\<rparr>\<rparr>,
        li_queue := foldl enq q (map (message_of (cl_clid cl) \<circ> snd) ps)\<rparr>"
  obtain k ttl where "listen checks B F RT W sub enq open_log opened clock ?l = ok (True, ?l' k ttl)"
    using listen_publishes [where l = ?l, simplified, OF assms,
      of checks F W sub enq open_log opened] by (elim exE) simp
  then have "spawn_client checks B F RT W sub enq open_log opened clock cl q router log = ok (True, ?l' k ttl)"
    by (simp add: spawn_client_def)
  moreover have "li_client (?l' k ttl) = cl\<lparr>cl_socket := k, cl_session := (cl_session cl)\<lparr>s_ttl := ttl\<rparr>\<rparr>"
    by simp
  ultimately show ?thesis by (intro exI [of _ "?l' k ttl"] conjI) (assumption, simp, simp, blast)
qed

lemma read_plain_frames: "frames read_plain n k [plain_frame, plain_frame]"
  by (simp add: read_plain_def) (simp add: plain_frame_def)

theorem publishes_queued_witness:
  "\<exists>l. spawn_client True list_bytes no_files read_plain log_write no_router (\<lambda>q m. q @ [m]) Inr (Inr ())
      [(50, 51), (138, 139)] (sample_client ''a'' 100) [] () () = ok (True, l) \<and>
    li_queue l = foldl (\<lambda>q m. q @ [m]) []
      (map (message_of (cl_clid (sample_client ''a'' 100)) \<circ> snd)
        [(plain_frame, plain_publish), (plain_frame, plain_publish)]) \<and> li_len l = 1024 \<and>
    (\<exists>k ttl. li_client l = sample_client ''a'' 100\<lparr>cl_socket := k,
      cl_session := (cl_session (sample_client ''a'' 100))\<lparr>s_ttl := ttl\<rparr>\<rparr>)"
  by (rule publishes_queued) (simp_all add: sample_client_def read_plain_frames plain_decode del: frames.simps)

text \<open>C35: A client that sends nothing is dropped: while its session lives its listening task waits, each wait
  for a read of its socket ending with a timeout, and the first round that begins after the deadline
  logs the disconnection by the server, with the time the session expires, and ends the task.
  Nothing is queued or subscribed to on its behalf.\<close>

theorem silent_client_dropped:
  assumes "\<forall>s n dur. fst (RS s n dur) = None" and "\<forall>p n dur. fst (RP p n dur) = None"
    and "\<forall>(t, _) \<in> set clock. unat t \<le> unat (s_ttl (cl_session cl))"
    and "unat (s_ttl (cl_session cl)) < unat t" and "unat t + 1 < 2 ^ 63"
    and "log_session B F (open_log log) [\<lparr>w_time = t + 1, w_value = DisconnectByServer
      (ucast (s_expr_interval (cl_session cl)) + s_ttl (cl_session cl))\<rparr>] = ok f"
  shows "\<exists>l. spawn_client checks B F (read_timeout elapsed (socket_read RS RP)) W sub enq open_log opened
        (clock @ (t, now') # later) cl q router log = ok (False, l) \<and>
      li_log l = f \<and> li_queue l = q \<and> li_router l = router"
proof -
  let ?RT = "read_timeout elapsed (socket_read RS RP)"
  let ?l = "\<lparr>li_client = cl, li_len = 1024, li_queue = q, li_router = router, li_log = log\<rparr>"
  have "\<forall>(t, _) \<in> set clock. is_alive (cl_session (li_client ?l)) t" and "\<not> is_alive (cl_session (li_client ?l)) t"
    and "unat t + 1 < 2 ^ 64" and "unat (s_ttl (cl_session (li_client ?l))) < 2 ^ 63"
    using assms(3-5) by (auto simp: is_alive_def word_le_nat_alt)
  moreover have "\<forall>k n dur. \<exists>e k'. ?RT k n dur = (Inl e, k') \<and> kind e = IoTimedOut"
    using silent_socket [OF assms(1,2)] by blast
  moreover have "log_session B F (open_log (li_log ?l)) [\<lparr>w_time = t + 1, w_value = DisconnectByServer
      (ucast (s_expr_interval (cl_session (li_client ?l))) + s_ttl (cl_session (li_client ?l)))\<rparr>] = ok f"
    using assms(6) by simp
  ultimately have "\<exists>k. listen checks B F ?RT W sub enq open_log opened (clock @ (t, now') # later) ?l =
      ok (False, ?l\<lparr>li_client := (li_client ?l)\<lparr>cl_socket := k\<rparr>, li_log := f\<rparr>)"
    by (intro listen_silent)
  then obtain k where "spawn_client checks B F ?RT W sub enq open_log opened (clock @ (t, now') # later) cl q router log =
      ok (False, ?l\<lparr>li_client := cl\<lparr>cl_socket := k\<rparr>, li_log := f\<rparr>)"
    by (elim exE) (simp add: spawn_client_def)
  then show ?thesis by (intro exI [of _ "?l\<lparr>li_client := cl\<lparr>cl_socket := k\<rparr>, li_log := f\<rparr>"]) simp
qed

definition silent_sample :: "(unit, unit, bytes list, bytes list) socket client" where
  "silent_sample = \<lparr>cl_conid = 1, cl_clid = clid_new (lit ''a''),
     cl_socket = socket_new (\<lambda>_ :: unit. ((), ())) (\<lambda>_ :: unit. ([], [])) (Plain ()), cl_protocol_level = 5,
     cl_session = \<lparr>s_ttl = 100, s_expr_interval = 0, s_keep_alive = 60\<rparr>,
     cl_limit = limiter_default, cl_storage = []\<rparr>"

theorem silent_client_dropped_witness:
  "\<exists>l. spawn_client True list_bytes no_files (read_timeout [] (socket_read (\<lambda>s n d. (None, s)) (\<lambda>p n d. (None, p))))
      (socket_write_all (\<lambda>s b. (Inr (), s)) log_write) no_router (\<lambda>q m. q @ [m]) Inr (Inr ())
      ([(50, 51), (100, 100)] @ (101, 101) # []) silent_sample [] () () =
      ok (False, l) \<and> li_log l = () \<and> li_queue l = [] \<and> li_router l = ()"
  by (rule silent_client_dropped)
    (simp_all add: silent_sample_def log_session_def write_wall_def no_files_def)

end
