(* ===== verification/Observer.thy ===== *)
theory Observer
  imports Listening
begin

text \<open>
  The observer of \<open>message_broker/mediator.rs\<close> as a whole: the loop that waits for a message or for
  the interruption of the program, with the message queue of theory \<open>MsgQueue\<close>, the registry and the
  tasks.  What the \<open>select!\<close> sees is a list of events.  A forwarding task that the loop spawns is run
  to its end before the next event, and a panic in it stays there.
\<close>

datatype observer_event = Interrupt u64 | PollQueue

record ('k, 'w) observed =
  ob_queue :: "(message, 'w) mqueue"
  ob_clients :: "'k clients"
  ob_tasks :: "client_id list"
  ob_aborted :: "client_id list"
  ob_dropped :: "'k dropped list"

text \<open>
  \<open>Tasks::clear\<close> calls \<open>abort\<close> on every join handle in turn (the handles stay in their vector), the
  registry logs and drops its clients, the queue drops its messages.  \<open>ob_aborted\<close> is the list of the
  tasks on which \<open>abort\<close> was called, \<open>ob_dropped\<close> what was dropped.  The first component of the result
  says whether the loop goes on.
\<close>

definition tasks_clear :: "client_id list \<Rightarrow> client_id list \<Rightarrow> client_id list" where
  "tasks_clear tasks aborted = fold (\<lambda>v aborted. aborted @ [v]) tasks aborted"

lemma tasks_clear_all: "tasks_clear tasks aborted = aborted @ tasks"
  by (induction tasks arbitrary: aborted) (simp_all add: tasks_clear_def)

fun observer ::
    "bool \<Rightarrow> bytes_crate \<Rightarrow> 'f file_ops \<Rightarrow> (rstring \<Rightarrow> io_error + 'f) \<Rightarrow>
     ('ro \<Rightarrow> rstring \<Rightarrow> subscriber_instance option) \<Rightarrow>
     ('k \<Rightarrow> bytes \<Rightarrow> (io_error + unit) \<times> 'k) \<Rightarrow> 'w \<Rightarrow> 'ro \<Rightarrow> observer_event list \<Rightarrow> ('k, 'w) observed \<Rightarrow>
     (io_error, bool \<times> ('k, 'w) observed) run" where
  "observer checks B F slog rt W w router [] st = ok (True, st)"
| "observer checks B F slog rt W w router (Interrupt now # es) st =
     (let st = st\<lparr>ob_aborted := tasks_clear (ob_tasks st) (ob_aborted st)\<rparr> in
      andThen (clients_clear checks B F slog now (ob_clients st)) (\<lambda>(cs, clients).
      case queue_clear (ob_queue st) of
        None \<Rightarrow> None
      | Some q \<Rightarrow> ok (False, st\<lparr>ob_clients := clients, ob_dropped := ob_dropped st @ cs, ob_queue := q\<rparr>)))"
| "observer checks B F slog rt W w router (PollQueue # es) st =
     (case poll_dequeue w (ob_queue st) of
        None \<Rightarrow> None
      | Some (Pending, q) \<Rightarrow> observer checks B F slog rt W w router es (st\<lparr>ob_queue := q\<rparr>)
      | Some (Ready msg, q) \<Rightarrow>
          let (r, clients) = observe B rt search_mut_client W router (ob_clients st) msg
          in observer checks B F slog rt W w router es (st\<lparr>ob_queue := q, ob_clients := clients\<rparr>))"

section \<open>Lemmas\<close>

text \<open>What the observer makes of messages: each is routed and forwarded, one after the other.\<close>

definition deliver_all ::
    "bytes_crate \<Rightarrow> ('ro \<Rightarrow> rstring \<Rightarrow> subscriber_instance option) \<Rightarrow>
     ('k \<Rightarrow> bytes \<Rightarrow> (io_error + unit) \<times> 'k) \<Rightarrow> 'ro \<Rightarrow> message list \<Rightarrow> 'k clients \<Rightarrow> 'k clients" where
  "deliver_all B rt W router = fold (\<lambda>m cs. snd (observe B rt search_mut_client W router cs m))"

lemma poll_ready:
  assumes "mq_repr mq (m # ms)"
  shows "\<exists>q. poll_dequeue w mq = Some (Ready m, q) \<and> mq_repr q ms"
proof -
  obtain l where "take_first (mq_q mq) = Some (Some m, l)" "represents l ms"
    using assms list.deq_cons [of "mq_q mq" m ms] by (auto simp: mq_repr_def)
  then show ?thesis using assms by (simp add: poll_dequeue_def mq_repr_def)
qed

lemma poll_pending:
  assumes "mq_repr mq []"
  shows "\<exists>q. poll_dequeue w mq = Some (Pending, q) \<and> mq_repr q []"
  using assms by (simp add: mq_repr_def poll_dequeue_def take_first_empty)

lemma queue_clear_spec:
  assumes "mq_repr mq ms"
  shows "\<exists>q. queue_clear mq = Some q \<and> mq_repr q []"
proof -
  obtain l where "clear_loop take_first (mq_q mq) = Some l" "represents l []"
    using list.clear_loop_spec [of "mq_q mq" ms] assms by (auto simp: mq_repr_def)
  then show ?thesis by (simp add: queue_clear_def mq_repr_def)
qed

lemma observer_ready:
  assumes "poll_dequeue w (ob_queue st) = Some (Ready m, q)"
  shows "observer checks B F slog rt W w router (PollQueue # es) st =
    observer checks B F slog rt W w router es
      (st\<lparr>ob_queue := q, ob_clients := deliver_all B rt W router [m] (ob_clients st)\<rparr>)"
  using assms by (simp add: deliver_all_def case_prod_unfold)

lemma observer_polls:
  assumes "mq_repr (ob_queue st) ms"
  shows "\<exists>q. observer checks B F slog rt W w router (replicate n PollQueue @ es) st =
      observer checks B F slog rt W w router es
        (st\<lparr>ob_queue := q, ob_clients := deliver_all B rt W router (take n ms) (ob_clients st)\<rparr>) \<and>
    mq_repr q (drop n ms)"
  using assms
proof (induction n arbitrary: st ms)
  case 0
  then show ?case by (intro exI [of _ "ob_queue st"]) (simp add: deliver_all_def)
next
  case (Suc n)
  show ?case
  proof (cases ms)
    case Nil
    with Suc.prems have "mq_repr (ob_queue st) []" by simp
    from poll_pending [OF this, of w] obtain q where
      q: "poll_dequeue w (ob_queue st) = Some (Pending, q)" "mq_repr q []" by (elim exE conjE)
    have "mq_repr (ob_queue (st\<lparr>ob_queue := q\<rparr>)) []" using q(2) by simp
    from Suc.IH [OF this] show ?thesis using q(1) Nil by (simp add: deliver_all_def)
  next
    case (Cons m ms')
    with Suc.prems have "mq_repr (ob_queue st) (m # ms')" by simp
    from poll_ready [OF this, of w] obtain q where
      q: "poll_dequeue w (ob_queue st) = Some (Ready m, q)" "mq_repr q ms'" by (elim exE conjE)
    let ?st = "st\<lparr>ob_queue := q, ob_clients := deliver_all B rt W router [m] (ob_clients st)\<rparr>"
    have "mq_repr (ob_queue ?st) ms'" using q(2) by simp
    from Suc.IH [OF this] obtain q' where
      "observer checks B F slog rt W w router (replicate n PollQueue @ es) ?st =
        observer checks B F slog rt W w router es (?st\<lparr>ob_queue := q', ob_clients :=
          deliver_all B rt W router (take n ms') (ob_clients ?st)\<rparr>)" and q': "mq_repr q' (drop n ms')"
      by (elim exE conjE)
    then have "observer checks B F slog rt W w router (replicate (Suc n) PollQueue @ es) st =
        observer checks B F slog rt W w router es (st\<lparr>ob_queue := q', ob_clients :=
          deliver_all B rt W router (take (Suc n) ms) (ob_clients st)\<rparr>)"
      unfolding replicate_Suc append_Cons observer_ready [OF q(1)] Cons
      by (simp add: deliver_all_def)
    then show ?thesis using q' Cons by (intro exI [of _ q']) simp
  qed
qed

lemma observer_interrupt:
  assumes "mq_repr (ob_queue st) ms"
    and "\<forall>cl \<in> set (ob_clients st). unat (s_ttl (cl_session cl)) < 2 ^ 63"
  shows "\<exists>q. observer checks B F slog rt W w router (Interrupt now # es) st =
      ok (False, st\<lparr>ob_queue := q, ob_clients := [], ob_aborted := ob_aborted st @ ob_tasks st,
        ob_dropped := ob_dropped st @ map (dropped B F slog now) (rev (ob_clients st))\<rparr>) \<and>
    mq_repr q []"
proof -
  obtain q where "queue_clear (ob_queue st) = Some q" "mq_repr q []"
    using queue_clear_spec [OF assms(1)] by blast
  then show ?thesis
    using clear_pops_ok [of "rev (ob_clients st)" checks B F slog now] assms(2)
    by (intro exI [of _ q]) (simp add: clients_clear_def tasks_clear_all Let_def)
qed

section \<open>From the listening tasks to the observer\<close>

text \<open>\<open>enqueue\<close> with the next unused address for its node.\<close>

definition enqueue_next ::
    "((message, 'w) mqueue \<times> nat) option \<Rightarrow> message \<Rightarrow> ((message, 'w) mqueue \<times> nat) option" where
  "enqueue_next q m =
     Option.bind q (\<lambda>(mq, a). map_option (\<lambda>(mq, _). (mq, Suc a)) (enqueue a mq m))"

text \<open>
  The registry after a listening task has changed its client: both have the same pointer to it.
\<close>

definition shared :: "'k client \<Rightarrow> 'k clients \<Rightarrow> 'k clients" where
  "shared cl = map (\<lambda>c. if cl_clid c = cl_clid cl then cl else c)"

lemma reg_ok_shared: "reg_ok (shared cl cs) = reg_ok cs"
proof -
  have "map cl_clid (shared cl cs) = map cl_clid cs" by (simp add: shared_def)
  then show ?thesis by (simp add: reg_ok_def)
qed

lemma entry_shared:
  "entry (shared cl cs) j = (if j = cl_clid cl then map_option (\<lambda>_. cl) (entry cs j) else entry cs j)"
  by (induction cs) (auto simp: shared_def entry_def)

lemma enqueue_next_spec:
  assumes "mq_repr mq ms" and "\<forall>x \<ge> a. cells (mq_q mq) x = None"
  shows "\<exists>mq'. enqueue_next (Some (mq, a)) m = Some (mq', Suc a) \<and> mq_repr mq' (ms @ [m]) \<and>
    (\<forall>x \<ge> Suc a. cells (mq_q mq') x = None)"
proof -
  have "cells (mq_q mq) a = None" using assms(2) by simp
  from mqueue.enq_law [OF assms(1) this, of m] obtain mq' where mq': "enqueue_q a mq m = Some mq'"
    "mq_repr mq' (ms @ [m])" "\<forall>b. cells (mq_q mq) b = None \<longrightarrow> b \<noteq> a \<longrightarrow> cells (mq_q mq') b = None"
    by blast
  obtain r where "enqueue a mq m = Some (mq', r)" using mq'(1) by (auto simp: enqueue_q_def)
  then show ?thesis using mq'(2,3) assms(2) by (intro exI [of _ mq']) (simp add: enqueue_next_def)
qed

lemma enqueue_all:
  assumes "mq_repr mq ms" and "\<forall>x \<ge> a. cells (mq_q mq) x = None"
  shows "\<exists>mq'. foldl enqueue_next (Some (mq, a)) ns = Some (mq', a + length ns) \<and> mq_repr mq' (ms @ ns)"
  using assms
proof (induction ns arbitrary: mq a ms)
  case (Cons m ns)
  from enqueue_next_spec [OF Cons.prems, of m] obtain mq' where
    mq': "enqueue_next (Some (mq, a)) m = Some (mq', Suc a)" "mq_repr mq' (ms @ [m])"
    "\<forall>x \<ge> Suc a. cells (mq_q mq') x = None" by (elim exE conjE)
  from Cons.IH [OF mq'(2,3)] show ?case using mq'(1) by simp
qed simp

lemma new_unused: "cells (mq_q mqueue_new) x = None"
  by (simp add: mqueue_new_def list_new_def)

section \<open>Properties\<close>

text \<open>The observer forwards the messages of the queue one after the other, oldest first: after \<open>n\<close> looks
  at the queue exactly the first \<open>n\<close> messages have been routed and forwarded, in order, the rest is
  still queued, and the observer goes on; a look at an empty queue changes nothing else.\<close>

theorem observer_in_order:
  assumes "mq_repr (ob_queue st) ms"
  shows "\<exists>q. observer checks B F slog rt W w router (replicate n PollQueue) st =
      ok (True, st\<lparr>ob_queue := q, ob_clients := deliver_all B rt W router (take n ms) (ob_clients st)\<rparr>) \<and>
    mq_repr q (drop n ms)"
  using observer_polls [where es = "[]", OF assms] by simp

definition sample_observed :: "(bytes list, nat) observed" where
  "sample_observed = \<lparr>ob_queue = mqueue_new, ob_clients = sample_registry, ob_tasks = [], ob_aborted = [], ob_dropped = []\<rparr>"

text \<open>The logs of the clients, each an empty file.\<close>

definition script_log :: "rstring \<Rightarrow> io_error + bytes list \<times> bytes list" where
  "script_log path = Inr ([], [])"

theorem observer_in_order_witness:
  "\<exists>q. observer True list_bytes script_files script_log route_of log_write 0 sample_tree (replicate 2 PollQueue) sample_observed =
      ok (True, sample_observed\<lparr>ob_queue := q,
        ob_clients := deliver_all list_bytes route_of log_write sample_tree (take 2 []) (ob_clients sample_observed)\<rparr>) \<and>
    mq_repr q (drop 2 [])"
  by (rule observer_in_order) (simp add: sample_observed_def mqueue_new_repr)

text \<open>C26: When the program is interrupted after \<open>n\<close> looks at the queue the observer stops: every listening
  task is aborted, every client of the registry is dropped, from the last to the first, after its
  disconnection by the server with the time its session expires was written to its log or could not be,
  and the registry and the queue are empty afterwards.  The messages that were still queued are forwarded
  to nobody: the sockets of the clients are dropped as the first \<open>n\<close> messages have left them.  (Deadlines
  are below 2^63.)\<close>

theorem interrupt_cleans_up:
  assumes "mq_repr (ob_queue st) ms"
    and "\<forall>cl \<in> set (deliver_all B rt W router (take n ms) (ob_clients st)). unat (s_ttl (cl_session cl)) < 2 ^ 63"
  shows "\<exists>q st'. observer checks B F slog rt W w router (replicate n PollQueue @ Interrupt now # es) st =
      ok (False, st') \<and>
    st' = st\<lparr>ob_queue := q, ob_clients := [], ob_aborted := ob_aborted st @ ob_tasks st,
      ob_dropped := ob_dropped st @
        map (dropped B F slog now) (rev (deliver_all B rt W router (take n ms) (ob_clients st)))\<rparr> \<and>
    mq_repr q [] \<and>
    map (\<lambda>d. cl_socket (fst d)) (drop (length (ob_dropped st)) (ob_dropped st')) =
      map cl_socket (rev (deliver_all B rt W router (take n ms) (ob_clients st)))"
proof -
  from observer_polls [where checks = checks and B = B and rt = rt and W = W and w = w and router = router
      and F = F and slog = slog and n = n and es = "Interrupt now # es", OF assms(1)] obtain q where
    q: "observer checks B F slog rt W w router (replicate n PollQueue @ Interrupt now # es) st =
      observer checks B F slog rt W w router (Interrupt now # es)
        (st\<lparr>ob_queue := q, ob_clients := deliver_all B rt W router (take n ms) (ob_clients st)\<rparr>)"
    "mq_repr q (drop n ms)" by (elim exE conjE)
  let ?st = "st\<lparr>ob_queue := q, ob_clients := deliver_all B rt W router (take n ms) (ob_clients st)\<rparr>"
  have "mq_repr (ob_queue ?st) (drop n ms)"
    and "\<forall>cl \<in> set (ob_clients ?st). unat (s_ttl (cl_session cl)) < 2 ^ 63" using q(2) assms(2) by simp_all
  from observer_interrupt [OF this, where checks = checks and B = B and F = F and slog = slog and rt = rt
      and W = W and w = w and router = router and now = now and es = es]
  obtain q' where q': "observer checks B F slog rt W w router (Interrupt now # es) ?st =
      ok (False, ?st\<lparr>ob_queue := q', ob_clients := [], ob_aborted := ob_aborted ?st @ ob_tasks ?st,
        ob_dropped := ob_dropped ?st @ map (dropped B F slog now) (rev (ob_clients ?st))\<rparr>)" "mq_repr q' []"
    by (elim exE conjE)
  show ?thesis unfolding q(1) q'(1)
    by (intro exI [of _ q'] exI conjI) (rule refl, use q'(2) in \<open>simp_all add: dropped_def o_def\<close>)
qed

definition queued_messages :: "message list" where
  "queued_messages = replicate 2 (message_of (clid_new (lit ''a'')) plain_publish)"

definition queued_observed :: "(message, nat) mqueue \<Rightarrow> (bytes list, nat) observed" where
  "queued_observed mq = sample_observed\<lparr>ob_queue := mq, ob_tasks := map cl_clid sample_registry\<rparr>"

lemma queued_exists: "\<exists>mq. mq_repr (mq :: (message, nat) mqueue) queued_messages"
  using enqueue_all [where mq = mqueue_new and ms = "[]" and a = 0 and ns = queued_messages]
  by (simp add: mqueue_new_repr new_unused) blast

lemma queued_sessions:
  "\<forall>cl \<in> set (deliver_all list_bytes route_of log_write sample_tree (take 1 queued_messages) sample_registry).
     unat (s_ttl (cl_session cl)) < 2 ^ 63"
proof
  obtain cs' where cs': "observe list_bytes route_of search_mut_client log_write sample_tree sample_registry
      (message_of (clid_new (lit ''a'')) plain_publish) = (ok (), cs')" "reg_ok cs'"
    "\<And>j. entry cs' j = (if j = clid_new (lit ''a'')
       then Some (sample_client ''a'' 100\<lparr>cl_socket := [0x40 # 3 # enc16 7 @ [0]]\<rparr>)
       else if j = clid_new (lit ''c'') then Some (sample_client ''c'' 5\<lparr>cl_socket := [plain_frame]\<rparr>)
       else entry sample_registry j)"
    using publish_delivered_witness by auto
  fix cl
  assume "cl \<in> set (deliver_all list_bytes route_of log_write sample_tree (take 1 queued_messages) sample_registry)"
  then have "cl \<in> set cs'" using cs'(1) by (simp add: deliver_all_def queued_messages_def)
  then have "entry cs' (cl_clid cl) = Some cl" using entry_nth [OF cs'(2)] by (auto simp: in_set_conv_nth)
  then show "unat (s_ttl (cl_session cl)) < 2 ^ 63"
    unfolding cs'(3) by (auto simp: entry_def sample_registry_def sample_client_def split: if_splits)
qed

theorem interrupt_cleans_up_witness:
  "\<exists>mq q st'. mq_repr mq queued_messages \<and>
    observer True list_bytes script_files script_log route_of log_write 0 sample_tree
      (replicate 1 PollQueue @ Interrupt 50 # []) (queued_observed mq) = ok (False, st') \<and>
    st' = queued_observed mq\<lparr>ob_queue := q, ob_clients := [],
      ob_aborted := ob_aborted (queued_observed mq) @ ob_tasks (queued_observed mq),
      ob_dropped := ob_dropped (queued_observed mq) @ map (dropped list_bytes script_files script_log 50)
        (rev (deliver_all list_bytes route_of log_write sample_tree (take 1 queued_messages)
          (ob_clients (queued_observed mq))))\<rparr> \<and>
    mq_repr q []"
proof -
  obtain mq where mq: "mq_repr (mq :: (message, nat) mqueue) queued_messages" using queued_exists ..
  then have "mq_repr (ob_queue (queued_observed mq)) queued_messages"
    and "ob_clients (queued_observed mq) = sample_registry"
    by (simp_all add: queued_observed_def sample_observed_def)
  note ob = this
  note interrupt_cleans_up [where n = 1 and B = list_bytes and rt = route_of and W = log_write and router = sample_tree
      and checks = True and F = script_files and slog = script_log and w = 0 and now = 50 and es = "[]",
      OF ob(1), unfolded ob(2), OF queued_sessions, folded ob(2)]
  with mq show ?thesis by blast
qed

text \<open>What a client publishes in time, however many packets, reaches the observer: its listening task queues
  the messages behind those already there, and the observer, looking at the queue that often,
  forwards the old messages and then the client's, in the order they were sent, and finds the
  queue empty.\<close>

theorem published_in_order:
  assumes "length clock = length ps"
    and "timely (unat (s_keep_alive (cl_session cl))) (unat (s_ttl (cl_session cl))) clock"
    and "unat (s_keep_alive (cl_session cl)) \<le> 43690"
    and "frames RT 1024 (cl_socket cl) (map fst ps)"
    and "\<forall>(b, p) \<in> set ps. client_packet_decode B b = ok (CPublish p)"
    and "mq_repr mq ms" and "\<forall>x \<ge> a. cells (mq_q mq) x = None"
  shows "\<exists>l mq'. spawn_client checks B F RT W sub enqueue_next open_log opened clock cl (Some (mq, a)) router log =
      ok (True, l) \<and> li_queue l = Some (mq', a + length ps) \<and>
    (\<exists>q. observer checks B G slog rt W w router' (replicate (length ms + length ps) PollQueue)
        \<lparr>ob_queue = mq', ob_clients = cs, ob_tasks = tasks, ob_aborted = aborted, ob_dropped = gone\<rparr> =
      ok (True, \<lparr>ob_queue = q, ob_clients =
        deliver_all B rt W router' (ms @ map (message_of (cl_clid cl) \<circ> snd) ps) cs,
        ob_tasks = tasks, ob_aborted = aborted, ob_dropped = gone\<rparr>) \<and> mq_repr q [])"
proof -
  let ?l = "\<lparr>li_client = cl, li_len = 1024, li_queue = Some (mq, a), li_router = router, li_log = log\<rparr>"
  let ?ns = "map (message_of (cl_clid cl) \<circ> snd) ps"
  from enqueue_all [OF assms(6,7), of ?ns] obtain mq' where
    mq': "foldl enqueue_next (Some (mq, a)) ?ns = Some (mq', a + length ps)" "mq_repr mq' (ms @ ?ns)"
    by auto
  obtain l where l: "spawn_client checks B F RT W sub enqueue_next open_log opened clock cl (Some (mq, a)) router log =
      ok (True, l)" "li_queue l = Some (mq', a + length ps)"
    using listen_publishes [where l = ?l, simplified, OF assms(1-5),
      of checks F W sub enqueue_next open_log opened] mq'(1) by (elim exE) (simp add: spawn_client_def)
  let ?st = "\<lparr>ob_queue = mq', ob_clients = cs, ob_tasks = tasks, ob_aborted = aborted, ob_dropped = gone\<rparr>"
  have "mq_repr (ob_queue ?st) (ms @ ?ns)" using mq'(2) by simp
  note observer_polls [where es = "[]" and n = "length ms + length ps", OF this,
      where checks = checks and B = B and F = G and slog = slog and rt = rt and W = W and w = w and router = router']
  then have "\<exists>q. observer checks B G slog rt W w router' (replicate (length ms + length ps) PollQueue) ?st =
      ok (True, \<lparr>ob_queue = q, ob_clients = deliver_all B rt W router' (ms @ ?ns) cs,
        ob_tasks = tasks, ob_aborted = aborted, ob_dropped = gone\<rparr>) \<and> mq_repr q []" by simp
  then show ?thesis using l by blast
qed

theorem published_in_order_witness:
  "\<exists>l mq'. spawn_client True list_bytes no_files read_plain log_write no_router enqueue_next Inr (Inr ())
      [(50, 51), (138, 139)] (sample_client ''a'' 100) (Some (mqueue_new, 0)) () () = ok (True, l) \<and>
    li_queue l = Some (mq', 0 + length [(plain_frame, plain_publish), (plain_frame, plain_publish)]) \<and>
    (\<exists>q. observer True list_bytes script_files script_log route_of log_write (0 :: nat) sample_tree
        (replicate (length ([] :: message list) + length [(plain_frame, plain_publish), (plain_frame, plain_publish)]) PollQueue)
        \<lparr>ob_queue = mq', ob_clients = sample_registry, ob_tasks = [], ob_aborted = [], ob_dropped = []\<rparr> =
      ok (True, \<lparr>ob_queue = q, ob_clients =
        deliver_all list_bytes route_of log_write sample_tree
          ([] @ map (message_of (cl_clid (sample_client ''a'' 100)) \<circ> snd)
            [(plain_frame, plain_publish), (plain_frame, plain_publish)]) sample_registry,
        ob_tasks = [], ob_aborted = [], ob_dropped = []\<rparr>) \<and> mq_repr q [])"
  by (rule published_in_order)
    (simp_all add: sample_client_def read_plain_frames plain_decode mqueue_new_repr new_unused del: frames.simps)

text \<open>C1: The way of one PUBLISH at quality of service 1, from one socket to another: the publisher's listening
  task reads and queues it, the observer takes it out of the queue and finds the subscriber by its
  topic; the subscriber's socket is written the packet, then the publisher's the PUBACK with its
  packet identifier.  The publisher's new deadline is kept and nobody else's entry in the registry
  changes.\<close>

theorem publish_end_to_end:
  assumes "bytes_doc B" and "client_packet_decode B b = ok (CPublish p)" and "publish_ok p"
    and "p_packet_id p = Some i" and "route tree (p_topic p) = Some (Some subs)"
    and "downgrade (p_qos p) (si_max_qos subs) = QoS1"
    and "unat t + 1 < unat (s_ttl (cl_session cl))"
    and "unat (s_keep_alive (cl_session cl)) \<le> 43690" and "unat t + 1 < 2 ^ 63"
    and "RT (cl_socket cl) 1024 (s_ttl (cl_session cl) - t) = (Inr b, k)" and "b \<noteq> []"
    and "mq_repr mq []" and "\<forall>x \<ge> a. cells (mq_q mq) x = None"
    and "reg_ok cs" and "entry cs (cl_clid cl) = Some cl" and "cl_clid cl \<noteq> si_clid subs"
    and "entry cs (si_clid subs) = Some c"
    and "W (cl_socket c) (publish_fixed_header p # varint (length (publish_body p)) @ publish_body p) = (Inr (), k')"
    and "W k (0x40 # 3 # enc16 i @ [0]) = (Inr (), k'')"
  shows "\<exists>l mq' ttl. spawn_client checks B F RT W sub enqueue_next open_log opened [(t, now')] cl (Some (mq, a)) router log =
      ok (True, l) \<and> li_queue l = Some (mq', Suc a) \<and>
      li_client l = cl\<lparr>cl_socket := k, cl_session := (cl_session cl)\<lparr>s_ttl := ttl\<rparr>\<rparr> \<and> unat t < unat ttl \<and>
    (\<exists>st. observer checks B G slog route_of W w tree [PollQueue]
        \<lparr>ob_queue = mq', ob_clients = shared (li_client l) cs, ob_tasks = tasks, ob_aborted = aborted, ob_dropped = gone\<rparr> = ok (True, st) \<and>
      mq_repr (ob_queue st) [] \<and> reg_ok (ob_clients st) \<and>
      (\<forall>j. entry (ob_clients st) j = (if j = cl_clid cl then Some ((li_client l)\<lparr>cl_socket := k''\<rparr>)
        else if j = si_clid subs then Some (c\<lparr>cl_socket := k'\<rparr>) else entry cs j)))"
proof -
  let ?l = "\<lparr>li_client = cl, li_len = 1024, li_queue = Some (mq, a), li_router = router, li_log = log\<rparr>"
  let ?m = "message_of (cl_clid cl) p"
  from enqueue_next_spec [OF assms(12,13), of ?m] obtain mq' where
    mq': "enqueue_next (Some (mq, a)) ?m = Some (mq', Suc a)" "mq_repr mq' [?m]" by auto
  obtain ttl where ttl: "listen_round checks B F RT W sub enqueue_next open_log opened t now' ?l =
      ok (True, ?l\<lparr>li_client := cl\<lparr>cl_socket := k, cl_session := (cl_session cl)\<lparr>s_ttl := ttl\<rparr>\<rparr>,
        li_queue := Some (mq', Suc a)\<rparr>)" "unat t < unat ttl"
    using publish_queued_deadline [where l = ?l and enq = enqueue_next and t = t and RT = RT and b = b and k = k
        and B = B and p = p and checks = checks and F = F and W = W and sub = sub and open_log = open_log
        and opened = opened and now' = now'] assms(2,7-11) mq'(1) by auto
  let ?cl = "cl\<lparr>cl_socket := k, cl_session := (cl_session cl)\<lparr>s_ttl := ttl\<rparr>\<rparr>"
  let ?cs = "shared ?cl cs"
  from poll_ready [OF mq'(2), of w] obtain q where q: "poll_dequeue w mq' = Some (Ready ?m, q)" "mq_repr q []"
    by (elim exE conjE)
  have "reg_ok ?cs" using assms(14) by (simp add: reg_ok_shared)
  moreover have "entry ?cs (si_clid subs) = Some c" and "entry ?cs (cl_clid cl) = Some ?cl"
    using assms(15-17) by (simp_all add: entry_shared)
  moreover have "W (cl_socket ?cl) (0x40 # 3 # enc16 i @ [0]) = (Inr (), k'')" using assms(19) by simp
  ultimately obtain cs' where cs': "observe B route_of search_mut_client W tree ?cs ?m = (ok (), cs')" "reg_ok cs'"
    "\<And>j. entry cs' j = (if j = cl_clid cl then Some (?cl\<lparr>cl_socket := k''\<rparr>)
       else if j = si_clid subs then Some (c\<lparr>cl_socket := k'\<rparr>) else entry ?cs j)"
    using publish_delivered_spec [where W = W and pub = "cl_clid cl", OF assms(1,3) _ assms(16,5,6,4) _ assms(18)]
    by blast
  have "observer checks B G slog route_of W w tree [PollQueue]
      \<lparr>ob_queue = mq', ob_clients = ?cs, ob_tasks = tasks, ob_aborted = aborted, ob_dropped = gone\<rparr> =
      ok (True, \<lparr>ob_queue = q, ob_clients = cs', ob_tasks = tasks, ob_aborted = aborted, ob_dropped = gone\<rparr>)"
    using q(1) cs'(1) by simp
  moreover have "\<forall>j. entry cs' j = (if j = cl_clid cl then Some (?cl\<lparr>cl_socket := k''\<rparr>)
       else if j = si_clid subs then Some (c\<lparr>cl_socket := k'\<rparr>) else entry cs j)"
    using cs'(3) by (simp add: entry_shared)
  ultimately show ?thesis using ttl q(2) cs'(2)
    by (intro exI [of _ "?l\<lparr>li_client := ?cl, li_queue := Some (mq', Suc a)\<rparr>"] exI [of _ mq'] exI [of _ ttl])
      (simp add: spawn_client_def)
qed

theorem publish_end_to_end_witness:
  "\<exists>l mq' ttl. spawn_client True list_bytes no_files read_plain log_write no_router enqueue_next Inr (Inr ())
      [(50, 51)] (sample_client ''a'' 100) (Some (mqueue_new, 0)) () () =
      ok (True, l) \<and> li_queue l = Some (mq', Suc 0) \<and>
      li_client l = sample_client ''a'' 100\<lparr>cl_socket := [],
        cl_session := (cl_session (sample_client ''a'' 100))\<lparr>s_ttl := ttl\<rparr>\<rparr> \<and> unat (50 :: u64) < unat ttl \<and>
    (\<exists>st. observer True list_bytes script_files script_log route_of log_write (0 :: nat) sample_tree [PollQueue]
        \<lparr>ob_queue = mq', ob_clients = shared (li_client l) sample_registry, ob_tasks = [], ob_aborted = [], ob_dropped = []\<rparr> = ok (True, st) \<and>
      mq_repr (ob_queue st) [] \<and> reg_ok (ob_clients st) \<and>
      (\<forall>j. entry (ob_clients st) j = (if j = cl_clid (sample_client ''a'' 100)
        then Some ((li_client l)\<lparr>cl_socket := [0x40 # 3 # enc16 7 @ [0]]\<rparr>)
        else if j = si_clid \<lparr>si_clid = clid_new (lit ''c''), si_max_qos = QoS2\<rparr>
          then Some (sample_client ''c'' 5\<lparr>cl_socket := [plain_frame]\<rparr>) else entry sample_registry j)))"
  by (rule publish_end_to_end [OF list_bytes_doc plain_decode plain_publish_ok _ sample_route, where i = 7])
    (simp_all add: mqueue_new_repr new_unused plain_frame_image entry_def sample_registry_def log_write_def
      sample_client_def lit_def read_plain_def,
     simp_all add: plain_publish_def plain_frame_def downgrade_def qos_try_from_def reg_ok_def)

end
