(* ===== verification/Broker.thy ===== *)
theory Broker
  imports Server Observer "HOL-Library.Sublist"
begin

text \<open>
  The running broker: the accept loop, the listening tasks and the observer share the registry, the
  topic tree and the message queue.  A step handles one connection, one round of one listening
  task or one event of the observer, in any order.
\<close>

section \<open>What one round of listening changes\<close>

lemma handle_packet_effect:
  assumes "handle_packet B F W sub enq opened l packet = ok l'"
  shows "cl_clid (li_client l') = cl_clid (li_client l) \<and>
    (li_queue l' = li_queue l \<or>
      (\<exists>p. packet = CPublish p \<and> li_queue l' = enq (li_queue l) (message_of (cl_clid (li_client l)) p))) \<and>
    (li_router l' = li_router l \<or> (\<exists>subs. li_router l' = snd (sub (li_router l) (cl_clid (li_client l)) subs)))"
  using assms
  by (cases packet)
    (auto simp: handle_packet_def queue_message_of subscribe_topics_def andThen_eq_ok Let_def
      split: prod.splits sum.splits option.splits outcome.splits,
      (metis snd_conv)+)

lemma listen_round_cases:
  assumes "listen_round checks B F RT W sub enq open_log opened t now' l = ok (go, l')"
  shows "cl_clid (li_client l') = cl_clid (li_client l) \<and> li_queue l' = li_queue l \<and> li_router l' = li_router l \<or>
    (\<exists>l1 b packet. cl_clid (li_client l1) = cl_clid (li_client l) \<and> li_queue l1 = li_queue l \<and>
      li_router l1 = li_router l \<and> client_packet_decode B b = ok packet \<and>
      handle_packet B F W sub enq opened l1 packet = ok l')"
proof (cases "is_alive (cl_session (li_client l)) t")
  case False
  then show ?thesis using assms
    by (auto simp: listen_round_def Let_def listener_log_def need_eq_ok andThen_eq_ok)
next
  case True
  obtain r k where rk: "RT (cl_socket (li_client l)) (li_len l) (s_ttl (cl_session (li_client l)) - t) = (r, k)"
    by fastforce
  show ?thesis
  proof (cases r)
    case (Inl e)
    then show ?thesis using assms True rk
      by (auto simp: listen_round_def Let_def listener_log_def need_eq_ok andThen_eq_ok is_alive_def usub_le
          split: if_splits)
  next
    case (Inr b)
    show ?thesis
    proof (cases "b = []")
      case True
      then show ?thesis using assms \<open>is_alive _ t\<close> rk Inr
        by (auto simp: listen_round_def Let_def need_eq_ok is_alive_def usub_le)
    next
      case False
      obtain packet t1 where p: "client_packet_decode B b = ok packet" "uadd checks t 1 = Some t1"
        using assms True rk Inr False
        by (auto simp: listen_round_def Let_def need_eq_ok andThen_eq_ok unwrap_eq_ok is_alive_def usub_le)
      consider "\<exists>e. session_keep_alive checks (cl_session (li_client l)) t1 = err e"
        | s v where "session_keep_alive checks (cl_session (li_client l)) t1 = ok (s, v)"
        using assms True rk Inr False p
        by (auto simp: listen_round_def Let_def is_alive_def usub_le split: option.splits outcome.splits)
      then show ?thesis
      proof cases
        case 1
        then show ?thesis using assms True rk Inr False p
          by (auto simp: listen_round_def Let_def is_alive_def usub_le)
      next
        case 2
        let ?l1 = "l\<lparr>li_client := (li_client l)\<lparr>cl_socket := k, cl_session := s\<rparr>\<rparr>"
        have "handle_packet B F W sub enq opened ?l1 packet = ok l'"
          using assms True rk Inr False p 2
          by (auto simp: listen_round_def Let_def is_alive_def usub_le andThen_eq_ok)
        with p(1) show ?thesis by (intro disjI2 exI [of _ ?l1] exI [of _ b] exI [of _ packet]) simp
      qed
    qed
  qed
qed

lemma listen_round_effect:
  assumes "listen_round checks B F RT W sub enq open_log opened t now' l = ok (go, l')"
  shows "cl_clid (li_client l') = cl_clid (li_client l)"
    and "li_queue l' = li_queue l \<or> (\<exists>p b. client_packet_decode B b = ok (CPublish p) \<and>
        li_queue l' = enq (li_queue l) (message_of (cl_clid (li_client l)) p))"
    and "li_router l' = li_router l \<or> (\<exists>subs. li_router l' = snd (sub (li_router l) (cl_clid (li_client l)) subs))"
  using listen_round_cases [OF assms] handle_packet_effect by (fastforce)+

section \<open>What forwarding changes\<close>

text \<open>Whatever is forwarded and whatever happens on the sockets, the same clients are registered.\<close>

context client_directory
begin

definition same_clients :: "'s \<Rightarrow> 's \<Rightarrow> bool" where
  "same_clients s s' \<longleftrightarrow> dir_ok s' \<and> (\<forall>j. client_at s' j = None \<longleftrightarrow> client_at s j = None)"

lemma same_clients_refl: "dir_ok s \<Longrightarrow> same_clients s s"
  by (simp add: same_clients_def)

lemma same_clients_trans: "same_clients s s' \<Longrightarrow> same_clients s' s'' \<Longrightarrow> same_clients s s''"
  by (simp add: same_clients_def)

lemma same_clients_ok: "same_clients s s' \<Longrightarrow> dir_ok s'"
  by (simp add: same_clients_def)

lemma pubish_keeps:
  assumes "dir_ok s"
  shows "same_clients s (snd (pubish visit W s clid p))"
proof (cases "client_at s clid")
  case None
  then show ?thesis using pubish_missing [OF assms] assms by (simp add: same_clients_def)
next
  case (Some c)
  obtain r k where "W (cl_socket c) p = (r, k)" by fastforce
  from pubish_found [where W = W, OF assms Some this] obtain s' where "pubish visit W s clid p = (r, s')" "dir_ok s'"
    "\<forall>j. client_at s' j = (if j = clid then Some (c\<lparr>cl_socket := k\<rparr>) else client_at s j)" by blast
  moreover from this(3) Some have "\<forall>j. client_at s' j = None \<longleftrightarrow> client_at s j = None" by simp
  ultimately show ?thesis by (simp add: same_clients_def)
qed

lemma andAwait_keeps:
  assumes "same_clients s (snd m)" and "\<And>s'. same_clients s s' \<Longrightarrow> same_clients s (snd (f s'))"
  shows "same_clients s (snd (andAwait m f))"
  using assms by (cases m) (auto simp: andAwait_def split: sum.splits)

lemma withAck_keeps:
  assumes "same_clients s s'" and "\<And>b. same_clients s (snd (f b))"
  shows "same_clients s (snd (withAck B ack s' f))"
  using assms by (auto simp: withAck_def split: option.splits outcome.splits)

lemma pubish_keeps_from:
  assumes "same_clients s s'"
  shows "same_clients s (snd (pubish visit W s' clid p))"
  using same_clients_trans [OF assms pubish_keeps [OF same_clients_ok [OF assms]]] .

lemma qos0_keeps: "dir_ok s \<Longrightarrow> same_clients s (qos0 visit W s sub p)"
  using pubish_keeps by (simp add: qos0_def)

lemma qos1_keeps: "dir_ok s \<Longrightarrow> same_clients s (snd (qos1 B visit W s pub sub i p))"
  unfolding qos1_def Let_def
  by (rule andAwait_keeps withAck_keeps pubish_keeps_from same_clients_refl | simp)+

lemma qos2_keeps: "dir_ok s \<Longrightarrow> same_clients s (snd (qos2 B visit W s pub sub i p))"
  unfolding qos2_def Let_def
  by (rule andAwait_keeps withAck_keeps pubish_keeps_from same_clients_refl | simp)+

lemma forward_keeps:
  assumes "dir_ok s"
  shows "same_clients s (snd (forward B visit W s m subs))"
proof -
  have "same_clients s (snd (withEncoded B p s f))" if "\<And>b. same_clients s (snd (f b))" for p f
    using that same_clients_refl [OF assms] by (simp add: withEncoded_def split: option.splits outcome.splits)
  moreover have "snd (ignoreErr x) = snd x" for x :: "(io_error, unit) run \<times> 's"
    by (cases x) (auto simp: ignoreErr_def split: option.splits outcome.splits)
  ultimately show ?thesis
    using same_clients_refl [OF assms] qos0_keeps [OF assms] qos1_keeps [OF assms] qos2_keeps [OF assms]
    by (simp add: forward_def Let_def split: option.splits service_level.splits)
qed

lemma observe_keeps: "dir_ok s \<Longrightarrow> same_clients s (snd (observe B rt visit W router s m))"
  using forward_keeps same_clients_refl by (simp add: observe_def split: option.splits)

end

section \<open>The broker as a transition system\<close>

text \<open>
  \<open>wo_tasks\<close> is the list of join handles, named by the client each task listens to, and
  \<open>wo_buffers\<close> the length of each task's read buffer while it runs.  A task shares its client with
  the registry, so the client is looked up there.  \<open>wo_next\<close> is the next unused address for a node
  of the queue.  \<open>wo_sent\<close> and \<open>wo_taken\<close> record the messages ever queued and ever taken by the
  observer.
\<close>

record ('k, 'w) world =
  wo_clients :: "'k clients"
  wo_tasks :: "client_id list"
  wo_buffers :: "nat option list"
  wo_queue :: "(message, 'w) mqueue"
  wo_next :: nat
  wo_router :: "subscriber_instance child"
  wo_dropped :: "'k dropped list"
  wo_running :: bool
  wo_sent :: "message list"
  wo_taken :: "message list"

definition world_new :: "('k, 'w) world" where
  "world_new = \<lparr>wo_clients = br_clients broker_new, wo_tasks = br_tasks (broker_new :: 'k broker), wo_buffers = [],
     wo_queue = mqueue_new, wo_next = 0, wo_router = trie_new, wo_dropped = [], wo_running = True,
     wo_sent = [], wo_taken = []\<rparr>"

text \<open>\<open>enqueue\<close>, recorded.\<close>

definition enqueue_seen ::
    "((message, 'w) mqueue \<times> nat) option \<times> message list \<Rightarrow> message \<Rightarrow>
     ((message, 'w) mqueue \<times> nat) option \<times> message list" where
  "enqueue_seen q m = (enqueue_next (fst q) m, snd q @ [m])"

text \<open>What task \<open>i\<close> works on, when it listens to client \<open>cl\<close> with a buffer of \<open>len\<close> bytes.\<close>

definition listener_of ::
    "('k, 'w) world \<Rightarrow> 'k client \<Rightarrow> nat \<Rightarrow> 'f \<Rightarrow>
     ('k, ((message, 'w) mqueue \<times> nat) option \<times> message list, subscriber_instance child, 'f) listener" where
  "listener_of w cl len f = \<lparr>li_client = cl, li_len = len, li_queue = (Some (wo_queue w, wo_next w), wo_sent w),
     li_router = wo_router w, li_log = f\<rparr>"

definition observed_of :: "('k, 'w) world \<Rightarrow> ('k, 'w) observed" where
  "observed_of w = \<lparr>ob_queue = wo_queue w, ob_clients = wo_clients w, ob_tasks = wo_tasks w,
     ob_aborted = [], ob_dropped = wo_dropped w\<rparr>"

definition after_observer :: "('k, 'w) world \<Rightarrow> ('k, 'w) observed \<Rightarrow> ('k, 'w) world" where
  "after_observer w st = w\<lparr>wo_queue := ob_queue st, wo_clients := ob_clients st, wo_tasks := ob_tasks st,
     wo_dropped := ob_dropped st\<rparr>"

definition listening :: "('k, 'w) world \<Rightarrow> nat \<Rightarrow> 'k client \<Rightarrow> nat \<Rightarrow> bool" where
  "listening w i cl len \<longleftrightarrow> wo_running w \<and> i < length (wo_tasks w) \<and> i < length (wo_buffers w) \<and>
     wo_buffers w ! i = Some len \<and> entry (wo_clients w) (wo_tasks w ! i) = Some cl"

text \<open>
  A round that panics ends its task.  What it had done before is left open: it may have changed its
  client, and subscribed it to topics.  In the same way a connection whose handling panics may have
  registered its client.
\<close>

inductive bstep :: "bool \<Rightarrow> bytes_crate \<Rightarrow> 'f file_ops \<Rightarrow> ('k, 'w) world \<Rightarrow> ('k, 'w) world \<Rightarrow> bool"
  for checks B F where
  connects: "bstep checks B F w (w\<lparr>wo_clients := br_clients b, wo_tasks := br_tasks b,
      wo_buffers := wo_buffers w @ replicate (length (br_tasks b) - length (wo_tasks w)) (Some 1024)\<rparr>)"
    if "wo_running w"
      and "establish_connection checks B F RT W now path exists opened
        \<lparr>br_clients = wo_clients w, br_tasks = wo_tasks w\<rparr> connid conn = ok b"
| connect_dies: "bstep checks B F w (w\<lparr>wo_clients := cs, wo_tasks := tasks,
      wo_buffers := wo_buffers w @ replicate (length tasks - length (wo_tasks w)) (Some 1024)\<rparr>)"
    if "wo_running w"
      and "establish_connection checks B F RT W now path exists opened
        \<lparr>br_clients = wo_clients w, br_tasks = wo_tasks w\<rparr> connid conn = panic"
      and "cs = wo_clients w \<and> tasks = wo_tasks w \<or>
        (\<exists>(r :: (io_error, unit) run) cb new. register now cb (wo_clients w) (wo_tasks w) new = ok (r, cs, tasks))"
| listens: "bstep checks B F w (w\<lparr>wo_clients := shared (li_client l) (wo_clients w),
      wo_buffers := (wo_buffers w)[i := if go then Some (li_len l) else None],
      wo_queue := q, wo_next := a, wo_sent := msgs, wo_router := li_router l\<rparr>)"
    if "listening w i cl len"
      and "listen_round checks B F RT W (subscribe_of cas) enqueue_seen open_log opened t now' (listener_of w cl len f) =
        ok (go, l)"
      and "li_queue l = (Some (q, a), msgs)"
| listener_dies: "bstep checks B F w (w\<lparr>wo_clients := shared cl' (wo_clients w),
      wo_buffers := (wo_buffers w)[i := None], wo_router := router\<rparr>)"
    if "listening w i cl len"
      and "listen_round checks B F RT W (subscribe_of cas) enqueue_seen open_log opened t now' (listener_of w cl len f) =
        panic"
      and "cl_clid cl' = cl_clid cl"
      and "router = wo_router w \<or> (\<exists>subs. router = snd (subscribe_of cas (wo_router w) (cl_clid cl) subs))"
| observes: "bstep checks B F w ((after_observer w st)
      \<lparr>wo_taken := wo_taken w @ (case poll_dequeue waker (wo_queue w) of Some (Ready m, _) \<Rightarrow> [m] | _ \<Rightarrow> [])\<rparr>)"
    if "wo_running w"
      and "observer checks B F slog route_of W waker (wo_router w) [PollQueue] (observed_of w) = ok (True, st)"
| interrupted: "bstep checks B F w ((after_observer w st)\<lparr>wo_running := False, wo_buffers := []\<rparr>)"
    if "wo_running w"
      and "observer checks B F slog route_of W waker (wo_router w) [Interrupt now] (observed_of w) = ok (False, st)"

inductive_cases bstepE: "bstep checks B F w w'"

abbreviation bsteps :: "bool \<Rightarrow> bytes_crate \<Rightarrow> 'f file_ops \<Rightarrow> ('k, 'w) world \<Rightarrow> ('k, 'w) world \<Rightarrow> bool" where
  "bsteps checks B F \<equiv> (bstep checks B F)\<^sup>*\<^sup>*"

section \<open>The invariant\<close>

text \<open>A message as a registered client has sent it.\<close>

definition sent_by :: "bytes_crate \<Rightarrow> client_id set \<Rightarrow> message \<Rightarrow> bool" where
  "sent_by B clids m \<longleftrightarrow>
     (\<exists>clid p b. clid \<in> clids \<and> client_packet_decode B b = ok (CPublish p) \<and> m = message_of clid p)"

definition world_ok :: "bytes_crate \<Rightarrow> ('k, 'w) world \<Rightarrow> bool" where
  "world_ok B w \<longleftrightarrow>
     attended {} (wo_clients w) (wo_tasks w) \<and>
     trie_wf (wo_router w) \<and>
     (\<forall>topic s. route (wo_router w) topic = Some (Some s) \<longrightarrow> si_clid s \<in> set (wo_tasks w)) \<and>
     (\<exists>ms. mq_repr (wo_queue w) ms \<and> wo_sent w = wo_taken w @ ms) \<and>
     (\<forall>x \<ge> wo_next w. cells (mq_q (wo_queue w)) x = None) \<and>
     (\<forall>m \<in> set (wo_sent w). sent_by B (set (wo_tasks w)) m)"

lemma sent_by_mono: "sent_by B C m \<Longrightarrow> C \<subseteq> D \<Longrightarrow> sent_by B D m"
  by (auto simp: sent_by_def)

lemma attended_mono: "attended D cs tasks \<Longrightarrow> attended {} cs tasks \<and> D \<subseteq> set tasks"
  by (simp add: attended_def)

lemma attended_self: "attended {} cs tasks \<Longrightarrow> attended (set tasks) cs tasks"
  by (simp add: attended_def)

lemma world_ok_attended:
  assumes "world_ok B w"
  shows "attended (set (wo_tasks w)) (wo_clients w) (wo_tasks w)"
  using assms unfolding world_ok_def by (elim conjE) (rule attended_self)

lemma attended_shared:
  assumes "attended D cs tasks"
  shows "attended D (shared cl cs) tasks"
  using assms by (auto simp: attended_def reg_ok_shared entry_shared)

lemma attended_same:
  assumes "attended D cs tasks" and "reg.same_clients cs cs'"
  shows "attended D cs' tasks"
  using assms by (simp add: attended_def reg.same_clients_def)

text \<open>Subscribing keeps the tree well-formed and every route there is, and adds routes to the client only.\<close>

lemma subscribe_of_spec:
  assumes "trie_wf t"
  shows "trie_wf (snd (subscribe_of cas t clid subs))"
    and "route t topic = Some (Some s) \<Longrightarrow> route (snd (subscribe_of cas t clid subs)) topic = Some (Some s)"
    and "route (snd (subscribe_of cas t clid subs)) topic = Some (Some s) \<Longrightarrow>
      route t topic = Some (Some s) \<or> si_clid s = clid"
proof -
  obtain t' where t': "snd (subscribe_of cas t clid subs) = t'" "trie_wf t'"
    "\<And>topic. route t' topic = (case route t topic of
       Some None \<Rightarrow> Some (map_option (\<lambda>q. \<lparr>si_clid = clid, si_max_qos = q\<rparr>) (granted cas 0 subs topic))
     | r \<Rightarrow> r)"
    using router_subscribe_spec [OF assms, of cas clid subs] by (auto simp: subscribe_of_def)
  show "trie_wf (snd (subscribe_of cas t clid subs))" using t' by simp
  show "route (snd (subscribe_of cas t clid subs)) topic = Some (Some s)" if "route t topic = Some (Some s)"
    using t' that by simp
  show "route t topic = Some (Some s) \<or> si_clid s = clid"
    if "route (snd (subscribe_of cas t clid subs)) topic = Some (Some s)"
    using that t'(1) t'(3) [of topic] by (auto split: option.splits)
qed

definition routes_to :: "client_id set \<Rightarrow> subscriber_instance child \<Rightarrow> bool" where
  "routes_to C t \<longleftrightarrow> trie_wf t \<and> (\<forall>topic s. route t topic = Some (Some s) \<longrightarrow> si_clid s \<in> C)"

lemma routes_to_subscribe:
  "routes_to C t \<Longrightarrow> clid \<in> C \<Longrightarrow> routes_to C (snd (subscribe_of cas t clid subs))"
  using subscribe_of_spec(1) subscribe_of_spec(3) unfolding routes_to_def by blast

lemma routes_to_mono: "routes_to C t \<Longrightarrow> C \<subseteq> D \<Longrightarrow> routes_to D t"
  by (auto simp: routes_to_def)

text \<open>The queue and the record of what went through it.\<close>

definition queue_ok :: "(message, 'w) mqueue \<Rightarrow> nat \<Rightarrow> message list \<Rightarrow> message list \<Rightarrow> bool" where
  "queue_ok q a msgs taken \<longleftrightarrow> (\<exists>ms. mq_repr q ms \<and> msgs = taken @ ms) \<and> (\<forall>x \<ge> a. cells (mq_q q) x = None)"

lemma queue_ok_enqueue:
  assumes "queue_ok q a msgs taken"
  shows "\<exists>q'. enqueue_seen (Some (q, a), msgs) m = (Some (q', Suc a), msgs @ [m]) \<and>
    queue_ok q' (Suc a) (msgs @ [m]) taken"
proof -
  obtain ms where "mq_repr q ms" "msgs = taken @ ms" using assms by (auto simp: queue_ok_def)
  moreover have "\<forall>x \<ge> a. cells (mq_q q) x = None" using assms by (simp add: queue_ok_def)
  ultimately show ?thesis
    using enqueue_next_spec [of q ms a m] by (auto simp: queue_ok_def enqueue_seen_def)
qed

lemma dequeue_q_poll:
  assumes "dequeue_q waker q = Some (r, q')"
  shows "poll_dequeue waker q = Some (case r of Some m \<Rightarrow> Ready m | None \<Rightarrow> Pending, q')"
proof -
  obtain x where "poll_dequeue waker q = Some (x, q')" "r = (case x of Ready m \<Rightarrow> Some m | Pending \<Rightarrow> None)"
    using assms by (auto simp: dequeue_q_def)
  then show ?thesis by (cases x) simp_all
qed

lemma queue_ok_poll:
  assumes "queue_ok q a msgs taken"
  shows "\<exists>q'. queue_ok q' a msgs (taken @ (case poll_dequeue waker q of Some (Ready m, _) \<Rightarrow> [m] | _ \<Rightarrow> [])) \<and>
    ((\<exists>m. poll_dequeue waker q = Some (Ready m, q') \<and> m \<in> set msgs) \<or> poll_dequeue waker q = Some (Pending, q'))"
proof -
  obtain ms where ms: "mq_repr q ms" "msgs = taken @ ms" and fresh: "\<forall>x \<ge> a. cells (mq_q q) x = None"
    using assms by (auto simp: queue_ok_def)
  show ?thesis
  proof (cases ms)
    case Nil
    then obtain q' where "dequeue_q waker q = Some (None, q')" "mq_repr q' []"
      "\<forall>b. cells (mq_q q) b = None \<longrightarrow> cells (mq_q q') b = None"
      using mqueue.deq_nil [of q waker] ms(1) by blast
    moreover from this(1) have "poll_dequeue waker q = Some (Pending, q')"
      by (simp add: dequeue_q_poll)
    ultimately show ?thesis using ms Nil fresh by (auto simp: queue_ok_def)
  next
    case (Cons m ms')
    then obtain q' where "dequeue_q waker q = Some (Some m, q')" "mq_repr q' ms'"
      "\<forall>b. cells (mq_q q) b = None \<longrightarrow> cells (mq_q q') b = None"
      using mqueue.deq_cons [of q m ms' waker] ms(1) by blast
    moreover from this(1) have "poll_dequeue waker q = Some (Ready m, q')"
      by (simp add: dequeue_q_poll)
    ultimately show ?thesis using ms Cons fresh by (auto simp: queue_ok_def)
  qed
qed

lemma world_ok_iff: "world_ok B w \<longleftrightarrow>
    attended {} (wo_clients w) (wo_tasks w) \<and> routes_to (set (wo_tasks w)) (wo_router w) \<and>
    queue_ok (wo_queue w) (wo_next w) (wo_sent w) (wo_taken w) \<and>
    (\<forall>m \<in> set (wo_sent w). sent_by B (set (wo_tasks w)) m)"
  by (auto simp: world_ok_def routes_to_def queue_ok_def)

lemma world_new_ok: "world_ok B world_new"
  using broker_new_ok
  by (simp add: world_ok_iff world_new_def broker_ok_def routes_to_def queue_ok_def mqueue_new_repr new_unused
      route_def trie_get_val_sub_at trie_new_def)

text \<open>More clients.\<close>

lemma world_ok_registers:
  assumes "world_ok B w" and "attended (set (wo_tasks w)) cs tasks"
  shows "world_ok B (w\<lparr>wo_clients := cs, wo_tasks := tasks, wo_buffers := bs\<rparr>)"
proof -
  have "attended {} cs tasks" and sub: "set (wo_tasks w) \<subseteq> set tasks" using attended_mono [OF assms(2)] by simp_all
  then show ?thesis using assms(1) routes_to_mono [OF _ sub] sent_by_mono [OF _ sub] by (simp add: world_ok_iff)
qed

text \<open>What a step may change: clients, routes and messages are only added.\<close>

definition world_grows :: "('k, 'w) world \<Rightarrow> ('k, 'w) world \<Rightarrow> bool" where
  "world_grows w w' \<longleftrightarrow> set (wo_tasks w) \<subseteq> set (wo_tasks w') \<and>
     (\<forall>topic s. route (wo_router w) topic = Some (Some s) \<longrightarrow> route (wo_router w') topic = Some (Some s)) \<and>
     (\<exists>ms. wo_sent w' = wo_sent w @ ms) \<and> (\<exists>ms. wo_taken w' = wo_taken w @ ms)"

lemma world_grows_refl: "world_grows w w"
  by (simp add: world_grows_def)

lemma world_grows_trans: "world_grows w w' \<Longrightarrow> world_grows w' w'' \<Longrightarrow> world_grows w w''"
  by (fastforce simp: world_grows_def)

lemma step_registers:
  assumes "world_ok B w" and "attended (set (wo_tasks w)) cs tasks"
  shows "world_ok B (w\<lparr>wo_clients := cs, wo_tasks := tasks, wo_buffers := bs\<rparr>) \<and>
    world_grows w (w\<lparr>wo_clients := cs, wo_tasks := tasks, wo_buffers := bs\<rparr>)"
  using world_ok_registers [OF assms, of bs] assms(2) by (simp add: world_grows_def attended_def)

lemma step_listens:
  assumes ok: "world_ok B w" and run: "listening w i cl len"
    and round: "listen_round checks B F RT W (subscribe_of cas) enqueue_seen open_log opened t now' (listener_of w cl len f) =
        ok (go, l)"
    and q: "li_queue l = (Some (q, a), msgs)"
  shows "world_ok B (w\<lparr>wo_clients := shared (li_client l) (wo_clients w), wo_buffers := bs,
      wo_queue := q, wo_next := a, wo_sent := msgs, wo_router := li_router l\<rparr>) \<and>
    world_grows w (w\<lparr>wo_clients := shared (li_client l) (wo_clients w), wo_buffers := bs,
      wo_queue := q, wo_next := a, wo_sent := msgs, wo_router := li_router l\<rparr>)"
proof -
  have clid: "cl_clid cl \<in> set (wo_tasks w)"
    using run entry_SomeD [of "wo_clients w" "wo_tasks w ! i" cl] by (auto simp: listening_def)
  have inv: "attended {} (wo_clients w) (wo_tasks w)" "routes_to (set (wo_tasks w)) (wo_router w)"
    "queue_ok (wo_queue w) (wo_next w) (wo_sent w) (wo_taken w)" "\<forall>m \<in> set (wo_sent w). sent_by B (set (wo_tasks w)) m"
    using ok by (simp_all add: world_ok_iff)
  note eff = listen_round_effect [OF round, unfolded listener_of_def listener.simps]
  have queue: "queue_ok q a msgs (wo_taken w) \<and> (\<forall>m \<in> set msgs. sent_by B (set (wo_tasks w)) m) \<and>
      (\<exists>ms. msgs = wo_sent w @ ms)"
  proof (cases "li_queue l = (Some (wo_queue w, wo_next w), wo_sent w)")
    case True
    then show ?thesis using q inv by simp
  next
    case False
    then obtain p b where p: "client_packet_decode B b = ok (CPublish p)"
      "li_queue l = enqueue_seen (Some (wo_queue w, wo_next w), wo_sent w) (message_of (cl_clid cl) p)"
      using eff(2) by blast
    then have "sent_by B (set (wo_tasks w)) (message_of (cl_clid cl) p)" using clid by (auto simp: sent_by_def)
    then show ?thesis
      using queue_ok_enqueue [OF inv(3), of "message_of (cl_clid cl) p"] p(2) q inv(4) by auto
  qed
  have router: "routes_to (set (wo_tasks w)) (li_router l) \<and>
      (\<forall>topic s. route (wo_router w) topic = Some (Some s) \<longrightarrow> route (li_router l) topic = Some (Some s))"
    using eff(3) inv(2) routes_to_subscribe [OF inv(2) clid] subscribe_of_spec(2) by (auto simp: routes_to_def)
  show ?thesis
    using queue router attended_shared [OF inv(1)] by (simp add: world_ok_iff world_grows_def)
qed

lemma step_listener_dies:
  assumes ok: "world_ok B w" and run: "listening w i cl len"
    and router: "router = wo_router w \<or> (\<exists>subs. router = snd (subscribe_of cas (wo_router w) (cl_clid cl) subs))"
  shows "world_ok B (w\<lparr>wo_clients := shared cl' (wo_clients w), wo_buffers := bs, wo_router := router\<rparr>) \<and>
    world_grows w (w\<lparr>wo_clients := shared cl' (wo_clients w), wo_buffers := bs, wo_router := router\<rparr>)"
proof -
  have clid: "cl_clid cl \<in> set (wo_tasks w)"
    using run entry_SomeD [of "wo_clients w" "wo_tasks w ! i" cl] by (auto simp: listening_def)
  have inv: "attended {} (wo_clients w) (wo_tasks w)" "routes_to (set (wo_tasks w)) (wo_router w)"
    using ok by (simp_all add: world_ok_iff)
  have "routes_to (set (wo_tasks w)) router \<and>
      (\<forall>topic s. route (wo_router w) topic = Some (Some s) \<longrightarrow> route router topic = Some (Some s))"
    using router inv(2) routes_to_subscribe [OF inv(2) clid] subscribe_of_spec(2) by (auto simp: routes_to_def)
  then show ?thesis using ok attended_shared [OF inv(1)] by (simp add: world_ok_iff world_grows_def)
qed

text \<open>The observer's state after one look at the queue.\<close>

lemma observer_poll:
  assumes "observer checks B F slog route_of W waker router [PollQueue] st = ok (True, st')"
  shows "ob_tasks st' = ob_tasks st \<and>
    (poll_dequeue waker (ob_queue st) = Some (Pending, ob_queue st') \<and> ob_clients st' = ob_clients st \<or>
     (\<exists>m. poll_dequeue waker (ob_queue st) = Some (Ready m, ob_queue st') \<and>
       ob_clients st' = snd (observe B route_of search_mut_client W router (ob_clients st) m)))"
  using assms by (auto simp: case_prod_unfold Let_def split: option.splits poll.splits)

lemma step_observes:
  assumes ok: "world_ok B w"
    and obs: "observer checks B F slog route_of W waker (wo_router w) [PollQueue] (observed_of w) = ok (True, st)"
  shows "world_ok B ((after_observer w st)
      \<lparr>wo_taken := wo_taken w @ (case poll_dequeue waker (wo_queue w) of Some (Ready m, _) \<Rightarrow> [m] | _ \<Rightarrow> [])\<rparr>) \<and>
    world_grows w ((after_observer w st)
      \<lparr>wo_taken := wo_taken w @ (case poll_dequeue waker (wo_queue w) of Some (Ready m, _) \<Rightarrow> [m] | _ \<Rightarrow> [])\<rparr>)"
proof -
  have inv: "attended {} (wo_clients w) (wo_tasks w)" "queue_ok (wo_queue w) (wo_next w) (wo_sent w) (wo_taken w)"
    using ok by (simp_all add: world_ok_iff)
  obtain q where q: "queue_ok q (wo_next w) (wo_sent w)
      (wo_taken w @ (case poll_dequeue waker (wo_queue w) of Some (Ready m, _) \<Rightarrow> [m] | _ \<Rightarrow> []))"
    "(\<exists>m. poll_dequeue waker (wo_queue w) = Some (Ready m, q)) \<or> poll_dequeue waker (wo_queue w) = Some (Pending, q)"
    using queue_ok_poll [OF inv(2), of waker] by blast
  have "reg_ok (wo_clients w)" using inv(1) by (simp add: attended_def)
  note keep = attended_same [OF inv(1) reg.observe_keeps [OF this]]
  have "attended {} (ob_clients st) (wo_tasks w) \<and> ob_tasks st = wo_tasks w \<and> ob_queue st = q"
    using observer_poll [OF obs] q(2) inv(1) keep by (auto simp: observed_of_def)
  then show ?thesis using q(1) ok by (simp add: world_ok_iff world_grows_def after_observer_def)
qed

lemma bstep_running: "bstep checks B F w w' \<Longrightarrow> wo_running w"
  by (induction rule: bstep.induct) (auto simp: listening_def)

lemma bstep_ok:
  assumes "bstep checks B F w w'" and "world_ok B w" and "wo_running w'"
  shows "world_ok B w' \<and> world_grows w w'"
  using assms
proof (induction rule: bstep.induct)
  case (connects w RT W now path exists opened connid conn b)
  have "broker_ok (set (wo_tasks w)) \<lparr>br_clients = wo_clients w, br_tasks = wo_tasks w\<rparr>"
    using world_ok_attended [OF connects.prems(1)] by (simp add: broker_ok_def)
  from establish_keeps [OF this connects.hyps(2)] show ?case
    by (intro step_registers [OF connects.prems(1)]) (simp add: broker_ok_def)
next
  case (connect_dies w RT W now path exists opened connid conn cs tasks)
  note att = world_ok_attended [OF connect_dies.prems(1)]
  from connect_dies.hyps(3) have "attended (set (wo_tasks w)) cs tasks"
    by (elim disjE conjE exE) (use att in simp, rule register_keeps [OF att])
  then show ?case by (intro step_registers [OF connect_dies.prems(1)])
next
  case (listens w i cl len RT W cas open_log opened t now' f go l q a msgs)
  from step_listens [OF listens.prems(1) listens.hyps] show ?case by simp
next
  case (listener_dies w i cl len RT W cas open_log opened t now' f cl' router)
  from step_listener_dies [OF listener_dies.prems(1) listener_dies.hyps(1) listener_dies.hyps(4)] show ?case by simp
next
  case (observes w W waker st)
  from step_observes [OF observes.prems(1) observes.hyps(2)] show ?case by simp
qed simp

lemma bsteps_running: "bsteps checks B F w w' \<Longrightarrow> wo_running w' \<Longrightarrow> wo_running w"
  by (induction rule: converse_rtranclp_induct) (auto dest: bstep_running)

lemma bsteps_ok:
  assumes "bsteps checks B F w w'" and "world_ok B w" and "wo_running w'"
  shows "world_ok B w' \<and> world_grows w w'"
  using assms
proof (induction rule: rtranclp_induct)
  case base
  then show ?case using world_grows_refl by simp
next
  case (step v u)
  then have "world_ok B v \<and> world_grows w v" using bstep_running by blast
  then show ?case using bstep_ok [OF step.hyps(2)] step.prems world_grows_trans by blast
qed

lemma reachable_ok: "bsteps checks B F world_new w \<Longrightarrow> wo_running w \<Longrightarrow> world_ok B w"
  using bsteps_ok world_new_ok by blast

text \<open>The step that stops the broker.\<close>

lemma stopping_step:
  assumes "bstep checks B F v w" and "\<not> wo_running w"
  obtains W waker slog now st where
    "observer checks B F slog route_of W waker (wo_router v) [Interrupt now] (observed_of v) = ok (False, st)"
    and "w = (after_observer v st)\<lparr>wo_running := False, wo_buffers := []\<rparr>"
  using assms(1)
proof cases
  case (listens i cl len l)
  then show ?thesis using assms(2) by (simp add: listening_def)
next
  case (listener_dies i cl len)
  then show ?thesis using assms(2) by (simp add: listening_def)
next
  case interrupted
  then show ?thesis using that by blast
qed (use assms(2) in \<open>simp_all add: after_observer_def\<close>)

lemma stopped_queue:
  assumes "bsteps checks B F world_new w" and "\<not> wo_running w"
  shows "mq_repr (wo_queue w) [] \<and> prefix (wo_taken w) (wo_sent w)"
  using assms
proof (cases rule: rtranclp.cases)
  case (rtrancl_into_rtrancl v)
  have "world_ok B v" using reachable_ok rtrancl_into_rtrancl(1) bstep_running [OF rtrancl_into_rtrancl(2)] by blast
  then obtain ms where ms: "mq_repr (wo_queue v) ms" "wo_sent v = wo_taken v @ ms" by (auto simp: world_ok_def)
  obtain W waker slog now st where stop:
    "observer checks B F slog route_of W waker (wo_router v) [Interrupt now] (observed_of v) = ok (False, st)"
    "w = (after_observer v st)\<lparr>wo_running := False, wo_buffers := []\<rparr>"
    using stopping_step [OF rtrancl_into_rtrancl(2) assms(2)] .
  obtain q where q: "queue_clear (wo_queue v) = Some q" "mq_repr q []" using queue_clear_spec [OF ms(1)] by blast
  then have "ob_queue st = q"
    using stop(1) by (auto simp: observed_of_def Let_def andThen_eq_ok split: prod.splits)
  then show ?thesis using stop(2) q(2) ms(2) by (simp add: after_observer_def)
qed (simp add: world_new_def)

section \<open>A run to try things on\<close>

text \<open>
  A client connects, subscribes to a topic and publishes on it.
\<close>

definition run_connect :: connect_packet where
  "run_connect = expiring_connect\<lparr>c_keep_alive := 60\<rparr>"

definition run_variable :: server_variable where
  "run_variable = expiring_variable\<lparr>sv_keep_alive := 60\<rparr>"

definition run_answer :: connack_packet where
  "run_answer = connack_default\<lparr>k_properties := Some (no_connack_properties\<lparr>
     ck_session_expiry_interval := Some 3600, ck_maximum_qos := Some MAX_QOS, ck_server_keep_alive := Some 60\<rparr>)\<rparr>"

definition run_client :: "bytes list client" where
  "run_client = \<lparr>cl_conid = 1, cl_clid = clid_new (lit ''z''), cl_socket = [], cl_protocol_level = 5,
     cl_session = \<lparr>s_ttl = 1090, s_expr_interval = 3600, s_keep_alive = 60\<rparr>,
     cl_limit = limiter_default, cl_storage = lit ''z''\<rparr>"

definition run_socket :: "bytes list" where
  "run_socket = [0x20 # varint (length (connack_body run_answer)) @ connack_body run_answer]"

lemma run_collect: "collect run_connect connack_default = (run_variable, run_answer)"
  by (simp add: run_connect_def collect_def Let_def expiring_connect_def sample_connect_def run_variable_def
      expiring_variable_def run_answer_def no_connect_properties_def no_connack_properties_def clean_start_def lit_def)

lemma run_ok: "connect_ok run_connect" "length (connect_body run_connect) \<le> 10000"
  by (simp_all add: run_connect_def expiring_connect_def sample_connect_def connect_ok_def no_connect_properties_def
      connect_props_ok_def str_ok_def lit_def connect_props_body_def connect_body_def
      connect_props_image_def len_prefix_def varint_cases enc32_def)

lemma run_simps:
  "c_properties run_connect = Some (no_connect_properties\<lparr>cp_session_expiry_interval := Some 3600\<rparr>)"
  "clean_start run_connect" "c_keep_alive run_connect = 60"
  by (simp_all add: run_connect_def expiring_connect_def sample_connect_def clean_start_def)

lemma run_new:
  "\<exists>files. client_new True list_bytes script_files 1000 (lit ''z'') fresh_dir 1 [] (clid_new (lit ''z'')) 60 3600 5
     limiter_default = ok (run_client, files)"
proof -
  have "wall_serialize list_bytes \<lparr>w_time = 1000, w_value = ClientCreated\<rparr> [] \<noteq> []"
    by (simp add: wall_serialize_image)
  moreover have "metadata_serialize list_bytes (client_metadata 60 3600 5 limiter_default) [] \<noteq> []"
    by (simp add: metadata_serialize_image metadata_header_def)
  ultimately show ?thesis
    by (simp add: client_new_def grace_def uadd_def store_new_def write_new_def fresh_dir_def
        script_files_def Let_def run_client_def)
qed

lemma run_connects:
  "\<exists>cs. establish_connection True list_bytes script_files
      (\<lambda>k n d. (Inr (connect_image run_connect @ []), k)) log_write 1000 clid_id
      (\<lambda>c. (False, False)) (\<lambda>c. fresh_dir) no_broker 1 [] =
      ok \<lparr>br_clients = cs, br_tasks = br_tasks no_broker @ [sv_clid run_variable]\<rparr> \<and> reg_ok cs \<and>
    (\<forall>j. entry cs j = (if j = sv_clid run_variable
       then Some (run_client\<lparr>cl_socket := run_socket\<rparr>) else entry (br_clients no_broker) j))"
proof -
  obtain files where "client_new True list_bytes script_files 1000 (lit ''z'') fresh_dir 1 [] (clid_new (lit ''z'')) 60
      3600 5 limiter_default = ok (run_client, files)" using run_new by blast
  then show ?thesis
    by (intro clean_connect_spec [OF list_bytes_doc run_ok _ run_simps(2) run_collect _ _ run_simps(1)])
      (simp_all add: run_simps expiring_simps(4) no_connect_properties_def no_broker_def reg_ok_def entry_def
        log_write_def run_variable_def expiring_variable_def run_socket_def)
qed

definition run_subscription :: subscribe_packet where
  "run_subscription = \<lparr>sp_id = 9, sp_list = [\<lparr>sub_topic = lit ''t'', sub_max_qos = QoS1\<rparr>]\<rparr>"

definition run_subscriber :: subscriber_instance where
  "run_subscriber = \<lparr>si_clid = clid_new (lit ''z''), si_max_qos = QoS1\<rparr>"

definition run_script :: "bytes \<Rightarrow> bytes list \<Rightarrow> nat \<Rightarrow> u64 \<Rightarrow> (io_error + bytes) \<times> bytes list" where
  "run_script b k n dur = (Inr b, k)"

lemma run_subscription_decode:
  "client_packet_decode list_bytes (subscribe_image [] run_subscription) = ok (CSubscribe run_subscription)"
proof -
  have "length (sub_body [] run_subscription) < 128 ^ 4" and "subs_ok (sp_list run_subscription)"
    by (simp_all add: run_subscription_def sub_body_def sub_image_def len_image_def subs_ok_def str_ok_def lit_def)
  then have "subscribe_decode list_bytes (subscribe_image [] run_subscription @ []) = ok run_subscription"
    by (simp add: subscribe_decode_body subscriptions_loop_image del: append_Nil2)
  then show ?thesis by (simp add: client_packet_decode_def subscribe_image_def)
qed

lemma run_subscribes:
  assumes "li_client l = run_client\<lparr>cl_socket := k\<rparr>" and "li_router l = trie_new"
  shows "\<exists>l' k' ttl. listen_round True list_bytes script_files (run_script (subscribe_image [] run_subscription)) log_write
      (subscribe_of (\<lambda>_. True)) enq Inr (Inr ([], [])) 1001 1001 l = ok (True, l') \<and>
    li_client l' = run_client\<lparr>cl_socket := k', cl_session := (cl_session run_client)\<lparr>s_ttl := ttl\<rparr>\<rparr> \<and>
    unat ttl = 1092 \<and> li_queue l' = li_queue l \<and>
    route (li_router l') (lit ''t'') = Some (Some run_subscriber)"
proof -
  let ?s = "cl_session run_client"
  obtain ttl where ttl: "session_keep_alive True ?s (1001 + 1) = ok (?s\<lparr>s_ttl := ttl\<rparr>, ttl)" "unat ttl = 1092"
    using keep_alive_moves [of 1001 ?s True] by (auto simp: run_client_def)
  let ?cl = "run_client\<lparr>cl_socket := k, cl_session := ?s\<lparr>s_ttl := ttl\<rparr>\<rparr>"
  obtain t' where t': "subscribe_topics list_bytes script_files log_write (subscribe_of (\<lambda>_. True)) (Inr ([], [])) trie_new
      ?cl run_subscription = (ok ([], [subscribed_bytes list_bytes [(lit ''t'', QoS1)]]), t',
        ?cl\<lparr>cl_socket := k @ [0x90 # 3 # enc16 9 @ [1]]\<rparr>)"
    "\<forall>topic. route t' topic = (case route trie_new topic of
       Some None \<Rightarrow> Some (map_option (\<lambda>s. \<lparr>si_clid = cl_clid ?cl, si_max_qos = sub_max_qos s\<rparr>)
         (find (\<lambda>s. sub_topic s = topic) (sp_list run_subscription)))
     | r \<Rightarrow> r)"
    using subscribe_handled_spec [where cl = ?cl and p = run_subscription and W = log_write and t = trie_new
        and F = script_files and opened = "Inr ([], [])" and f = "([], [subscribed_bytes list_bytes [(lit ''t'', QoS1)]])"
        and k = "k @ [0x90 # 3 # enc16 9 @ [1]]", OF list_bytes_doc]
    by (auto simp: run_subscription_def store_sample log_write_def trie_new_def)
  have "route t' (lit ''t'') = Some (Some run_subscriber)"
    using t'(2) by (simp add: run_subscription_def run_subscriber_def run_client_def route_def trie_get_val_sub_at trie_new_def)
  moreover have "listen_round True list_bytes script_files (run_script (subscribe_image [] run_subscription)) log_write
      (subscribe_of (\<lambda>_. True)) enq Inr (Inr ([], [])) 1001 1001 l =
    ok (True, l\<lparr>li_router := t', li_client := ?cl\<lparr>cl_socket := k @ [0x90 # 3 # enc16 9 @ [1]]\<rparr>\<rparr>)"
  proof -
    have "is_alive (cl_session (li_client l)) 1001" by (simp add: assms(1) run_client_def is_alive_def)
    from listen_round_packet [OF this _ _ run_subscription_decode, where RT = "run_script (subscribe_image [] run_subscription)"]
    show ?thesis using ttl(1) t'(1) assms
      by (simp add: run_script_def subscribe_image_def handle_packet_def)
  qed
  ultimately show ?thesis using ttl(2)
    by (intro exI [of _ "l\<lparr>li_router := t', li_client := ?cl\<lparr>cl_socket := k @ [0x90 # 3 # enc16 9 @ [1]]\<rparr>\<rparr>"]
        exI [of _ "k @ [0x90 # 3 # enc16 9 @ [1]]"] exI [of _ ttl]) simp
qed

lemma plain_frame_nonempty: "plain_frame \<noteq> []"
  by (simp add: plain_frame_def)

lemma run_first_step:
  "\<exists>w. bstep True list_bytes script_files (world_new :: (bytes list, nat) world) w \<and> wo_running w \<and>
    wo_tasks w = [clid_new (lit ''z'')] \<and> wo_buffers w = [Some 1024] \<and> wo_router w = trie_new \<and>
    wo_sent w = [] \<and> wo_taken w = [] \<and>
    entry (wo_clients w) (clid_new (lit ''z'')) = Some (run_client\<lparr>cl_socket := run_socket\<rparr>)"
proof -
  obtain cs where cs: "establish_connection True list_bytes script_files
      (\<lambda>k n d. (Inr (connect_image run_connect @ []), k)) log_write 1000 clid_id
      (\<lambda>c. (False, False)) (\<lambda>c. fresh_dir) no_broker 1 [] =
      ok \<lparr>br_clients = cs, br_tasks = br_tasks no_broker @ [sv_clid run_variable]\<rparr>"
    "\<forall>j. entry cs j = (if j = sv_clid run_variable
       then Some (run_client\<lparr>cl_socket := run_socket\<rparr>) else entry (br_clients no_broker) j)"
    using run_connects by blast
  have z: "sv_clid run_variable = clid_new (lit ''z'')" by (simp add: run_variable_def expiring_variable_def)
  let ?w = "world_new :: (bytes list, nat) world"
  have b: "\<lparr>br_clients = wo_clients ?w, br_tasks = wo_tasks ?w\<rparr> = no_broker"
    by (simp add: world_new_def no_broker_def broker_new_def)
  have "wo_running ?w" by (simp add: world_new_def)
  from bstep.connects [OF this, unfolded b, OF cs(1)]
  show ?thesis using cs(2)
    by (intro exI conjI) (assumption, simp_all add: world_new_def no_broker_def broker_new_def z)
qed

lemma run_reached:
  "\<exists>w w'. bsteps True list_bytes script_files (world_new :: (bytes list, nat) world) w \<and>
    bsteps True list_bytes script_files w w' \<and> wo_running w' \<and> wo_clients w \<noteq> [] \<and>
    route (wo_router w) (lit ''t'') = Some (Some run_subscriber) \<and>
    wo_sent w' = [message_of (clid_new (lit ''z'')) plain_publish] \<and> wo_taken w' = []"
proof -
  let ?z = "clid_new (lit ''z'')"
  obtain w1 :: "(bytes list, nat) world" where w1: "bstep True list_bytes script_files world_new w1" "wo_running w1"
    "wo_tasks w1 = [?z]" "wo_buffers w1 = [Some 1024]" "wo_router w1 = trie_new" "wo_sent w1 = []" "wo_taken w1 = []"
    "entry (wo_clients w1) ?z = Some (run_client\<lparr>cl_socket := run_socket\<rparr>)"
    using run_first_step by blast
  let ?c1 = "run_client\<lparr>cl_socket := run_socket\<rparr>"
  have 1: "listening w1 0 ?c1 1024" using w1 by (simp add: listening_def)
  obtain l2 k2 ttl where l2: "listen_round True list_bytes script_files (run_script (subscribe_image [] run_subscription))
      log_write (subscribe_of (\<lambda>_. True)) enqueue_seen Inr (Inr ([], [])) 1001 1001 (listener_of w1 ?c1 1024 ([], [])) =
      ok (True, l2)"
    "li_client l2 = run_client\<lparr>cl_socket := k2, cl_session := (cl_session run_client)\<lparr>s_ttl := ttl\<rparr>\<rparr>" "unat ttl = 1092"
    "li_queue l2 = (Some (wo_queue w1, wo_next w1), wo_sent w1)"
    "route (li_router l2) (lit ''t'') = Some (Some run_subscriber)"
    using run_subscribes [of "listener_of w1 ?c1 1024 ([], [])" run_socket enqueue_seen] w1(5)
    by (auto simp: listener_of_def)
  let ?w2 = "w1\<lparr>wo_clients := shared (li_client l2) (wo_clients w1), wo_buffers := (wo_buffers w1)[0 := if True then Some (li_len l2) else None],
      wo_queue := wo_queue w1, wo_next := wo_next w1, wo_sent := wo_sent w1, wo_router := li_router l2\<rparr>"
  have 2: "bstep True list_bytes script_files w1 ?w2" by (rule bstep.listens [OF 1 l2(1) l2(4)])
  have reach2: "bsteps True list_bytes script_files world_new ?w2" using w1(1) 2 by simp
  have c2: "listening ?w2 0 (li_client l2) (li_len l2)"
    using w1 l2(2) by (simp add: listening_def entry_shared run_client_def)
  have "queue_ok (wo_queue w1) (wo_next w1) [] []"
    using reachable_ok [OF reach2] w1 by (simp add: world_ok_iff)
  from queue_ok_enqueue [OF this, of "message_of ?z plain_publish"] obtain q where
    q: "enqueue_seen (Some (wo_queue w1, wo_next w1), []) (message_of ?z plain_publish) =
      (Some (q, Suc (wo_next w1)), [message_of ?z plain_publish])" by auto
  have "\<exists>l3. listen_round True list_bytes script_files (run_script plain_frame)
      log_write (subscribe_of (\<lambda>_. True)) enqueue_seen Inr (Inr ([], [])) 1010 1010
      (listener_of ?w2 (li_client l2) (li_len l2) ([], [])) = ok (True, l3) \<and>
    li_queue l3 = (Some (q, Suc (wo_next w1)), [message_of ?z plain_publish])"
    using publish_queued_deadline [where l = "listener_of ?w2 (li_client l2) (li_len l2) ([], [])" and t = 1010
        and RT = "run_script plain_frame" and b = plain_frame and k = k2 and B = list_bytes and p = plain_publish
        and checks = True and F = script_files and W = log_write and sub = "subscribe_of (\<lambda>_. True)"
        and enq = enqueue_seen and open_log = Inr and opened = "Inr ([], [])" and now' = 1010] l2(2,3) w1(6) q
      plain_decode plain_frame_nonempty
    by (auto simp: listener_of_def run_client_def run_script_def)
  then obtain l3 where l3: "listen_round True list_bytes script_files (run_script plain_frame)
      log_write (subscribe_of (\<lambda>_. True)) enqueue_seen Inr (Inr ([], [])) 1010 1010
      (listener_of ?w2 (li_client l2) (li_len l2) ([], [])) = ok (True, l3)"
    "li_queue l3 = (Some (q, Suc (wo_next w1)), [message_of ?z plain_publish])" by blast
  from bstep.listens [OF c2 l3] have "bsteps True list_bytes script_files ?w2
      (?w2\<lparr>wo_clients := shared (li_client l3) (wo_clients ?w2),
        wo_buffers := (wo_buffers ?w2)[0 := if True then Some (li_len l3) else None],
        wo_queue := q, wo_next := Suc (wo_next w1), wo_sent := [message_of ?z plain_publish],
        wo_router := li_router l3\<rparr>)" by (rule r_into_rtranclp)
  moreover have "wo_clients ?w2 \<noteq> []" using w1(8) by (auto simp: shared_def entry_def)
  ultimately show ?thesis using reach2 l2(5) w1(2,7)
    by (intro exI [of _ ?w2] exI conjI) (assumption, assumption, simp_all)
qed

section \<open>Properties\<close>

text \<open>C2: In every state that the running broker can reach, by whatever connections, packets and looks at the
  queue in whatever order and with whatever panics of single tasks: the registry is sorted without
  duplicates; its clients are exactly those that a task was spawned for; the topic tree is
  well-formed; and every topic that has a subscriber has one that is registered.\<close>

theorem broker_invariant:
  assumes "bsteps checks B F world_new w" and "wo_running w"
  shows "sorted_wrt (<) (map cl_clid (wo_clients w)) \<and> cl_clid ` set (wo_clients w) = set (wo_tasks w) \<and>
    trie_wf (wo_router w) \<and>
    (\<forall>topic s. route (wo_router w) topic = Some (Some s) \<longrightarrow> si_clid s \<in> cl_clid ` set (wo_clients w))"
proof -
  have "world_ok B w" using reachable_ok [OF assms] .
  then have "attended {} (wo_clients w) (wo_tasks w)" "routes_to (set (wo_tasks w)) (wo_router w)"
    by (simp_all add: world_ok_iff)
  moreover from this(1) have "cl_clid ` set (wo_clients w) = set (wo_tasks w)"
    using entry_registered [of "wo_clients w"] by (auto simp: attended_def)
  ultimately show ?thesis by (simp add: attended_def routes_to_def reg_ok_def)
qed

theorem broker_invariant_witness:
  "\<exists>w :: (bytes list, nat) world. wo_clients w \<noteq> [] \<and>
    route (wo_router w) (lit ''t'') = Some (Some run_subscriber) \<and>
    sorted_wrt (<) (map cl_clid (wo_clients w)) \<and> cl_clid ` set (wo_clients w) = set (wo_tasks w) \<and>
    trie_wf (wo_router w) \<and>
    (\<forall>topic s. route (wo_router w) topic = Some (Some s) \<longrightarrow> si_clid s \<in> cl_clid ` set (wo_clients w))"
proof -
  obtain w :: "(bytes list, nat) world" where w: "bsteps True list_bytes script_files world_new w" "wo_running w"
    "wo_clients w \<noteq> []" "route (wo_router w) (lit ''t'') = Some (Some run_subscriber)"
    using run_reached bsteps_running by blast
  then show ?thesis using broker_invariant [OF w(1,2)] by blast
qed

text \<open>C3: In every run in which the handlers go one at a time (an append to the queue that runs beside a take
  can lose its value, see \<open>append_lost\<close>), the queue keeps the messages in order: while the broker runs,
  the messages the listening tasks have queued are those the observer has taken, followed by those the
  list still holds, none lost, doubled or overtaken; once an interrupt has stopped it the list is empty,
  the messages not taken are gone, and those taken are the first ones that were queued.\<close>

theorem broker_queue_in_order:
  assumes "bsteps checks B F world_new w"
  shows "if wo_running w then \<exists>ms. represents (mq_q (wo_queue w)) ms \<and> wo_sent w = wo_taken w @ ms
    else represents (mq_q (wo_queue w)) [] \<and> prefix (wo_taken w) (wo_sent w)"
proof (cases "wo_running w")
  case True
  then show ?thesis using reachable_ok [OF assms] by (auto simp: world_ok_def mq_repr_def)
next
  case False
  then show ?thesis using stopped_queue [OF assms] by (simp add: mq_repr_def)
qed

theorem broker_queue_in_order_witness:
  "\<exists>(w :: (bytes list, nat) world) ms. wo_sent w = [message_of (clid_new (lit ''z'')) plain_publish] \<and> wo_running w \<and>
    represents (mq_q (wo_queue w)) ms \<and> wo_sent w = wo_taken w @ ms"
proof -
  obtain w :: "(bytes list, nat) world" where w: "bsteps True list_bytes script_files world_new w" "wo_running w"
    "wo_sent w = [message_of (clid_new (lit ''z'')) plain_publish]"
    using run_reached rtranclp_trans by metis
  then show ?thesis using broker_queue_in_order [OF w(1)] by auto
qed

text \<open>C4: The observer can always deal with the message it takes next: it is one that a registered client sent in
  a PUBLISH, whoever it is routed to is registered too, and unless the packet cannot be encoded
  again, handling it does not panic, whatever happens on the sockets.\<close>

theorem next_message_handled:
  assumes "bytes_doc B" and "bsteps checks B F world_new w" and "wo_running w"
    and "poll_dequeue waker (wo_queue w) = Some (Ready m, q)"
  shows "\<exists>clid p. m = message_of clid p \<and> entry (wo_clients w) clid \<noteq> None \<and>
    (\<forall>s. route_of (wo_router w) (p_topic p) = Some s \<longrightarrow> entry (wo_clients w) (si_clid s) \<noteq> None) \<and>
    (publish_encode B p = ok frame \<longrightarrow>
      fst (observe B route_of search_mut_client W (wo_router w) (wo_clients w) m) = ok ())"
proof -
  have inv: "attended {} (wo_clients w) (wo_tasks w)" "routes_to (set (wo_tasks w)) (wo_router w)"
    "queue_ok (wo_queue w) (wo_next w) (wo_sent w) (wo_taken w)" "\<forall>m \<in> set (wo_sent w). sent_by B (set (wo_tasks w)) m"
    using reachable_ok [OF assms(2,3)] by (simp_all add: world_ok_iff)
  then have "m \<in> set (wo_sent w)" using queue_ok_poll [OF inv(3), of waker] assms(4) by auto
  then obtain clid p b where m: "clid \<in> set (wo_tasks w)" "client_packet_decode B b = ok (CPublish p)"
    "m = message_of clid p" using inv(4) by (auto simp: sent_by_def)
  have reg: "entry (wo_clients w) j \<noteq> None" if "j \<in> set (wo_tasks w)" for j
    using inv(1) that by (simp add: attended_def)
  have "si_clid s \<in> set (wo_tasks w)" if "route_of (wo_router w) (p_topic p) = Some s" for s
    using inv(2) that by (auto simp: routes_to_def route_of_def split: option.splits)
  moreover have "fst (observe B route_of search_mut_client W (wo_router w) (wo_clients w) m) = ok ()"
    if "publish_encode B p = ok frame"
    using forward_ok [where visit = search_mut_client and W = W and s = "wo_clients w",
        OF assms(1) that publish_decode_packet_id [OF client_packet_decode_publish [OF m(2)]]] m(3)
    by (simp add: observe_def split: option.split)
  ultimately show ?thesis using m reg by blast
qed

theorem next_message_handled_witness:
  "\<exists>(w :: (bytes list, nat) world) m q. poll_dequeue 5 (wo_queue w) = Some (Ready m, q) \<and>
    (\<exists>clid p. m = message_of clid p \<and> entry (wo_clients w) clid \<noteq> None \<and>
      (\<forall>s. route_of (wo_router w) (p_topic p) = Some s \<longrightarrow> entry (wo_clients w) (si_clid s) \<noteq> None) \<and>
      (publish_encode list_bytes p = ok plain_frame \<longrightarrow>
        fst (observe list_bytes route_of search_mut_client log_write (wo_router w) (wo_clients w) m) = ok ()))"
proof -
  obtain w :: "(bytes list, nat) world" where w: "bsteps True list_bytes script_files world_new w" "wo_running w"
    "wo_sent w = [message_of (clid_new (lit ''z'')) plain_publish]" "wo_taken w = []"
    using run_reached rtranclp_trans by metis
  then have "mq_repr (wo_queue w) [message_of (clid_new (lit ''z'')) plain_publish]"
    using reachable_ok [OF w(1,2)] by (simp add: world_ok_def)
  from poll_ready [OF this, of 5] obtain q where
    q: "poll_dequeue 5 (wo_queue w) = Some (Ready (message_of (clid_new (lit ''z'')) plain_publish), q)" by blast
  from next_message_handled [OF list_bytes_doc w(1,2) q, of plain_frame log_write] q show ?thesis by blast
qed

text \<open>C5: Nothing is taken back in a run in which the handlers go one at a time: from any state the broker
  reaches to any later one while it runs, a client that is registered stays so, and a topic that has a
  subscriber keeps exactly that subscriber with that quality of service, alive or dead, whatever anyone
  subscribes to in the rounds in between.  Two subscriptions at once that make the same branch of the
  tree can lose one of the two, by theorem \<open>concurrent_branch_lost\<close> of theory \<open>TrieThreads\<close>.\<close>

theorem subscriptions_permanent:
  assumes "bsteps checks B F world_new w" and "bsteps checks B F w w'" and "wo_running w'"
  shows "cl_clid ` set (wo_clients w) \<subseteq> cl_clid ` set (wo_clients w') \<and>
    (\<forall>topic s. route (wo_router w) topic = Some (Some s) \<longrightarrow> route (wo_router w') topic = Some (Some s))"
proof -
  have "wo_running w" using bsteps_running [OF assms(2,3)] .
  then have "world_ok B w" using reachable_ok assms(1) by blast
  moreover from this have "world_ok B w' \<and> world_grows w w'" using bsteps_ok assms(2,3) by blast
  ultimately show ?thesis
    using entry_registered [of "wo_clients w"] entry_registered [of "wo_clients w'"]
    by (auto simp: world_ok_iff attended_def world_grows_def)
qed

theorem subscriptions_permanent_witness:
  "\<exists>(w :: (bytes list, nat) world) (w' :: (bytes list, nat) world). route (wo_router w) (lit ''t'') = Some (Some run_subscriber) \<and>
    wo_sent w' = [message_of (clid_new (lit ''z'')) plain_publish] \<and>
    cl_clid ` set (wo_clients w) \<subseteq> cl_clid ` set (wo_clients w') \<and>
    (\<forall>topic s. route (wo_router w) topic = Some (Some s) \<longrightarrow> route (wo_router w') topic = Some (Some s))"
proof -
  obtain w w' :: "(bytes list, nat) world" where w: "bsteps True list_bytes script_files world_new w"
    "bsteps True list_bytes script_files w w'" "wo_running w'"
    "route (wo_router w) (lit ''t'') = Some (Some run_subscriber)"
    "wo_sent w' = [message_of (clid_new (lit ''z'')) plain_publish]"
    using run_reached by (elim exE conjE) (rule that, assumption+)
  note permanent = subscriptions_permanent [OF w(1-3)]
  show ?thesis
    by (rule exI [of _ w], rule exI [of _ w'], intro conjI)
      (rule w(4), rule w(5), rule permanent [THEN conjunct1], rule permanent [THEN conjunct2])
qed


end
