(* ===== verification/Startup.thy ===== *)
theory Startup
  imports Broker
begin

text \<open>
  The start of the program: the certificates and \<open>Server::bind\<close> of \<open>server.rs\<close>, \<open>app\<close> of \<open>main.rs\<close>, and the
  clock of \<open>helper/time.rs\<close>.  Opening a file, reading PEM items from it and building the TLS
  configuration are calls into the system, \<open>rustls_pemfile\<close> and \<open>rustls\<close>: they are parameters.
\<close>

section \<open>The clock\<close>

text \<open>\<open>sys_now\<close> for a system clock at \<open>t\<close> nanoseconds after the epoch; a clock before it panics.\<close>

definition sys_now :: "int \<Rightarrow> u64 option" where
  "sys_now t = (if t < 0 then None else Some (word_of_int (t div 1000000000)))"

section \<open>The certificates\<close>

definition TLS_CERT :: rstring where "TLS_CERT = lit ''/var/test_host/cert.pem''"
definition TLS_KEY :: rstring where "TLS_KEY = lit ''/var/test_host/key.pem''"

record certificate_path =
  cp_cert :: rstring
  cp_private_key :: rstring

definition certificate_path_new :: "rstring \<Rightarrow> rstring \<Rightarrow> certificate_path" where
  "certificate_path_new cert private_key = \<lparr>cp_cert = cert, cp_private_key = private_key\<rparr>"

definition certificate_path_default :: certificate_path where
  "certificate_path_default = certificate_path_new TLS_CERT TLS_KEY"

text \<open>\<open>collect\<close> of an iterator of results into a result: up to the first error.\<close>

fun collect_results :: "('e + 'a) list \<Rightarrow> 'e + 'a list" where
  "collect_results [] = Inr []"
| "collect_results (Inl e # rs) = Inl e"
| "collect_results (Inr x # rs) = map_sum id ((#) x) (collect_results rs)"

text \<open>
  What is used of the file system and the two libraries: opening a file to read, the certificates
  and the private keys (PKCS#8) among the items of a file, and the configuration for a certificate
  chain with its key, which may be refused with a message.
\<close>

record ('r, 'c, 'y, 't) tls_ops =
  to_open :: "rstring \<Rightarrow> io_error + 'r"
  to_certs :: "'r \<Rightarrow> (io_error + 'c) list"
  to_keys :: "'r \<Rightarrow> (io_error + 'y) list"
  to_config :: "'c list \<Rightarrow> 'y \<Rightarrow> rstring + 't"

definition load_certs :: "('r, 'c, 'y, 't) tls_ops \<Rightarrow> certificate_path \<Rightarrow> io_error + 'c list" where
  "load_certs T self =
     (case to_open T (cp_cert self) of Inl e \<Rightarrow> Inl e | Inr f \<Rightarrow> collect_results (to_certs T f))"

text \<open>\<open>.next().unwrap()\<close>: a file without a key panics.\<close>

definition load_keys :: "('r, 'c, 'y, 't) tls_ops \<Rightarrow> certificate_path \<Rightarrow> (io_error, 'y) run" where
  "load_keys T self =
     (case to_open T (cp_private_key self) of
        Inl e \<Rightarrow> err e
      | Inr f \<Rightarrow>
          (case to_keys T f of
             [] \<Rightarrow> panic
           | Inl e # _ \<Rightarrow> err e
           | Inr key # _ \<Rightarrow> ok key))"

section \<open>The server\<close>

record 'p server =
  sv_cert :: "certificate_path option"
  sv_handler :: 'p

definition server_new :: "certificate_path option \<Rightarrow> 'p \<Rightarrow> 'p server" where
  "server_new cert handler = \<lparr>sv_cert = cert, sv_handler = handler\<rparr>"

text \<open>The task that \<open>bind\<close> spawns.\<close>

datatype ('t, 'p) bound = Unsecure 'p | Secure 'p 't

definition server_bind :: "('r, 'c, 'y, 't) tls_ops \<Rightarrow> 'p server \<Rightarrow> (io_error, ('t, 'p) bound) run" where
  "server_bind T self =
     (let handler = sv_handler self in
      case sv_cert self of
        None \<Rightarrow> ok (Unsecure handler)
      | Some c_loader \<Rightarrow>
          (case load_certs T c_loader of
             Inl e \<Rightarrow> err e
           | Inr certs \<Rightarrow>
               andThen (load_keys T c_loader) (\<lambda>key.
               case to_config T certs key of
                 Inl e \<Rightarrow> err (IoError IoInvalidInput e)
               | Inr tls_config \<Rightarrow> ok (Secure handler tls_config))))"

text \<open>The task as it runs; the TLS configuration decides how a stream is accepted.\<close>

definition run_bound ::
    "('p \<Rightarrow> 'a \<Rightarrow> (io_error, 'p) run) \<Rightarrow> ('t \<Rightarrow> 'p \<Rightarrow> 'a \<Rightarrow> (io_error, 'p) run) \<Rightarrow> io_error + 'a incoming list \<Rightarrow>
     io_error + (io_error + 'a) list \<Rightarrow> ('t, 'p) bound \<Rightarrow> (io_error, 'p) run" where
  "run_bound connect connect_with_tls listener tls_listener task =
     (case task of
        Unsecure handler \<Rightarrow> bind_unsecure connect listener handler
      | Secure handler tls_config \<Rightarrow> bind_secure (connect_with_tls tls_config) tls_listener handler)"

text \<open>
  \<open>app\<close> up to \<open>join!\<close>: the two tasks it starts, the server's and the observer with what it is given of the
  mediator.
\<close>

definition app ::
    "('r, 'c, 'y, 't) tls_ops \<Rightarrow> (io_error, ('t, 'k proxy) bound \<times> ('k, 'w) observed) run" where
  "app T =
     (let mediator = (broker_new :: 'k broker);
          broker_task = \<lparr>ob_queue = mqueue_new, ob_clients = br_clients mediator, ob_tasks = br_tasks mediator,
            ob_aborted = [], ob_dropped = []\<rparr>;
          handler = proxy_new mediator;
          server = server_new None handler in
      case server_bind T server of
        None \<Rightarrow> None
      | Some (Ok svr) \<Rightarrow> ok (svr, broker_task)
      | Some _ \<Rightarrow> panic)"

section \<open>Lemmas\<close>

lemma collect_results_Inr: "collect_results rs = Inr xs \<longleftrightarrow> rs = map Inr xs"
proof (induction rs arbitrary: xs rule: collect_results.induct)
  case (3 x rs)
  show ?case by (cases "collect_results rs"; cases xs) (use 3 in \<open>auto simp: map_sum.simps\<close>)
qed auto

lemma load_certs_cases:
  obtains (fails) e where "load_certs T c = Inl e" "\<nexists>f cs. to_open T (cp_cert c) = Inr f \<and> to_certs T f = map Inr cs"
  | (loads) f cs where "load_certs T c = Inr cs" "to_open T (cp_cert c) = Inr f" "to_certs T f = map Inr cs"
proof (cases "to_open T (cp_cert c)")
  case (Inr f)
  then show ?thesis
    using that collect_results_Inr [of "to_certs T f"]
    by (cases "collect_results (to_certs T f)") (auto simp: load_certs_def)
qed (use that in \<open>auto simp: load_certs_def\<close>)

lemma load_keys_cases:
  obtains (fails) e where "load_keys T c = err e" "\<nexists>g. to_open T (cp_private_key c) = Inr g \<and> to_keys T g = []"
    "\<nexists>g y ys. to_open T (cp_private_key c) = Inr g \<and> to_keys T g = Inr y # ys"
  | (panics) g where "load_keys T c = panic" "to_open T (cp_private_key c) = Inr g" "to_keys T g = []"
  | (loads) g y ys where "load_keys T c = ok y" "to_open T (cp_private_key c) = Inr g" "to_keys T g = Inr y # ys"
proof (cases "to_open T (cp_private_key c)")
  case (Inr g)
  then show ?thesis
    using that by (cases "to_keys T g"; cases "hd (to_keys T g)") (auto simp: load_keys_def)
qed (use that in \<open>auto simp: load_keys_def\<close>)

lemma server_bind_plain: "server_bind T (server_new None h) = ok (Unsecure h)"
  by (simp add: server_bind_def server_new_def)

lemma server_bind_cert:
  "server_bind T (server_new (Some c) h) =
    (case load_certs T c of Inl e \<Rightarrow> err e | Inr cs \<Rightarrow> andThen (load_keys T c) (\<lambda>y.
       case to_config T cs y of Inl e \<Rightarrow> err (IoError IoInvalidInput e) | Inr t \<Rightarrow> ok (Secure h t)))"
  by (simp add: server_bind_def server_new_def)

lemma app_starts: "app T = ok (Unsecure (proxy_new broker_new), observed_of world_new)"
  by (simp add: app_def server_bind_plain observed_of_def world_new_def Let_def)

section \<open>Properties\<close>

text \<open>A server without certificates is bound to the plain listener and reads no file.  With certificates
  it is bound to the TLS listener exactly if the certificate file opens and \<open>certs\<close> yields no error from
  it, the first that \<open>pkcs8_private_keys\<close> yields from the key file is a key, and the library takes them (both
  skip the items of other kinds); it panics exactly if the key file opens and yields nothing after the
  certificates were read; it always returns.\<close>

theorem server_bind_branches:
  "server_bind T (server_new None h) = ok (Unsecure h) \<and>
   (server_bind T (server_new (Some c) h) = ok b \<longleftrightarrow>
      (\<exists>f g cs y ys t. to_open T (cp_cert c) = Inr f \<and> to_certs T f = map Inr cs \<and>
         to_open T (cp_private_key c) = Inr g \<and> to_keys T g = Inr y # ys \<and> to_config T cs y = Inr t \<and>
         b = Secure h t)) \<and>
   (server_bind T (server_new (Some c) h) = panic \<longleftrightarrow>
      (\<exists>f g cs. to_open T (cp_cert c) = Inr f \<and> to_certs T f = map Inr cs \<and>
         to_open T (cp_private_key c) = Inr g \<and> to_keys T g = [])) \<and>
   server_bind T (server_new (Some c) h) \<noteq> None"
proof (cases rule: load_certs_cases [where T = T and c = c])
  case (fails e)
  then show ?thesis by (auto simp: server_bind_cert server_bind_plain)
next
  case (loads f cs)
  note certs = loads
  show ?thesis
  proof (cases rule: load_keys_cases [where T = T and c = c])
    case (fails e)
    then show ?thesis using certs by (auto simp: server_bind_cert server_bind_plain)
  next
    case (panics g)
    then show ?thesis using certs by (auto simp: server_bind_cert server_bind_plain)
  next
    case (loads g y ys)
    then show ?thesis using certs
      by (cases "to_config T cs y") (auto simp: server_bind_cert server_bind_plain)
  qed
qed

text \<open>The program serves without TLS, whatever certificates there are: its two tasks are the plain
  accept loop on a new proxy and the observer of an empty broker, and as long as the loop runs its
  registry is sorted without duplicates and its clients are exactly those with a listening task.\<close>

theorem app_serves_plain:
  "app T = ok (Unsecure (proxy_new broker_new), observed_of world_new) \<and>
   (\<forall>task ob. app T = ok (task, ob) \<and>
      run_bound (wire_connect checks B F RT W) (\<lambda>t. wire_connect_with_tls checks B F RT W (TLS t))
        listener tls_listener task = ok p \<longrightarrow>
      sorted_wrt (<) (map cl_clid (br_clients (px_broker p))) \<and>
      cl_clid ` set (br_clients (px_broker p)) = set (br_tasks (px_broker p)))"
proof -
  have run: "sorted_wrt (<) (map cl_clid (br_clients (px_broker p))) \<and>
      cl_clid ` set (br_clients (px_broker p)) = set (br_tasks (px_broker p))"
    if "bind_unsecure (wire_connect checks B F RT W) listener (proxy_new broker_new) = ok p"
    using served_clients_spec [of checks B F RT W listener p] that by blast
  show ?thesis
  proof (intro conjI app_starts allI impI)
    fix task ob
    assume "app T = ok (task, ob) \<and>
      run_bound (wire_connect checks B F RT W) (\<lambda>t. wire_connect_with_tls checks B F RT W (TLS t))
        listener tls_listener task = ok p"
    then have "bind_unsecure (wire_connect checks B F RT W) listener (proxy_new broker_new) = ok p"
      by (auto simp: run_bound_def app_starts)
    from run [OF this] show "sorted_wrt (<) (map cl_clid (br_clients (px_broker p)))"
      and "cl_clid ` set (br_clients (px_broker p)) = set (br_tasks (px_broker p))" by simp_all
  qed
qed

theorem app_serves_plain_witness:
  "\<exists>p :: bytes list proxy. br_clients (px_broker p) \<noteq> [] \<and>
     sorted_wrt (<) (map cl_clid (br_clients (px_broker p))) \<and>
     cl_clid ` set (br_clients (px_broker p)) = set (br_tasks (px_broker p))"
proof -
  obtain p where p: "served_one p" using served_one_exists ..
  let ?T = "\<lparr>to_open = (\<lambda>p. Inl (IoError IoNotFound [])), to_certs = (\<lambda>r :: unit. []), to_keys = (\<lambda>r. []),
    to_config = (\<lambda>c k. Inl [])\<rparr> :: (unit, unit, unit, unit) tls_ops"
  note app = app_serves_plain [of ?T True list_bytes script_files
        "\<lambda>k n d. (Inr (connect_image expiring_connect @ []), k)" log_write "\<lambda>t. Inr"
        "Inr [Accepted expiring_arrival, CtrlC]" "Inr []" p]
  with p show ?thesis unfolding served_one_def run_bound_def by auto
qed

end
