(* ===== verification/Coordinator.thy ===== *)
theory Coordinator
  imports ClientId
begin

text \<open>
  The message coordinator of \<open>message_broker/msg_state.rs\<close>, which keeps for each client the
  packet identifiers of unfinished exchanges with the step each has reached.  The locks make
  \<open>create\<close> and \<open>resolve\<close> atomic, so they are functions of the stored vector; \<open>now\<close> is the
  value \<open>sys_now()\<close> gives during the call.
\<close>

datatype msg_state = SPubRec | SPubRel | SPublish

fun msg_step :: "msg_state \<Rightarrow> u8" where
  "msg_step SPubRec = 0"
| "msg_step SPubRel = 1"
| "msg_step SPublish = 2"

definition last_step :: u8 where
  "last_step = msg_step SPublish"

record save_state =
  ss_packet_id :: u16
  ss_ack :: msg_state
  ss_expired_at :: u64

record coord_entry =
  ce_clid :: client_id
  ce_val :: "save_state list"

datatype msg_ack_errors = AckNotFound | AlreadyExists | StateExpired | InvalidResolveState

section \<open>Creating\<close>

text \<open>The loop over the clients' entries; \<open>None\<close> says that it ran to its end.\<close>

fun create_scan :: "client_id \<Rightarrow> save_state \<Rightarrow> coord_entry list \<Rightarrow>
    (msg_ack_errors + coord_entry list) option" where
  "create_scan clid state [] = None"
| "create_scan clid state (v # data) =
     (if \<not> clid_eq (ce_clid v) clid then
        map_option (map_sum id ((#) v)) (create_scan clid state data)
      else if \<exists>smv \<in> set (ce_val v). ss_packet_id smv = ss_packet_id state then
        Some (Inl AlreadyExists)
      else Some (Inr (v\<lparr>ce_val := ce_val v @ [state]\<rparr> # data)))"

definition coord_create ::
    "bool \<Rightarrow> u64 \<Rightarrow> coord_entry list \<Rightarrow> client_id \<Rightarrow> u16 \<Rightarrow> u64 \<Rightarrow>
       (msg_ack_errors, coord_entry list) run" where
  "coord_create checks now data clid packet_id expr_intrval_sec =
     need (uadd checks now expr_intrval_sec) (\<lambda>expired_at.
     let state = \<lparr>ss_packet_id = packet_id, ss_ack = SPubRec, ss_expired_at = expired_at\<rparr> in
     case create_scan clid state data of
       None \<Rightarrow> ok (data @ [\<lparr>ce_clid = clid, ce_val = [state]\<rparr>])
     | Some (Inl e) \<Rightarrow> err e
     | Some (Inr data) \<Rightarrow> ok data)"

section \<open>Resolving\<close>

fun resolve_vals :: "u64 \<Rightarrow> u16 \<Rightarrow> msg_state \<Rightarrow> save_state list \<Rightarrow>
    (msg_ack_errors + save_state list) option" where
  "resolve_vals now packet_id ack [] = None"
| "resolve_vals now packet_id ack (smv # mval) =
     (if ss_packet_id smv = packet_id then
        let next_step = msg_step (ss_ack smv) + 1 in
        if next_step = msg_step ack then
          if ss_expired_at smv < now then Some (Inl StateExpired)
          else Some (Inr (smv\<lparr>ss_ack := ack\<rparr> # mval))
        else Some (Inl InvalidResolveState)
      else map_option (map_sum id ((#) smv)) (resolve_vals now packet_id ack mval))"

fun coord_resolve :: "u64 \<Rightarrow> client_id \<Rightarrow> u16 \<Rightarrow> msg_state \<Rightarrow> coord_entry list \<Rightarrow>
    msg_ack_errors + coord_entry list" where
  "coord_resolve now clid packet_id ack [] = Inl AckNotFound"
| "coord_resolve now clid packet_id ack (v # data) =
     (if clid_eq (ce_clid v) clid then
        map_sum id ((#) v) (coord_resolve now clid packet_id ack data)
      else case resolve_vals now packet_id ack (ce_val v) of
        Some (Inl e) \<Rightarrow> Inl e
      | Some (Inr mval) \<Rightarrow> Inr (v\<lparr>ce_val := mval\<rparr> # data)
      | None \<Rightarrow> map_sum id ((#) v) (coord_resolve now clid packet_id ack data))"

section \<open>Well-formed stores\<close>

definition vals_ok :: "save_state list \<Rightarrow> bool" where
  "vals_ok mval \<longleftrightarrow> distinct (map ss_packet_id mval)"

definition coord_ok :: "coord_entry list \<Rightarrow> bool" where
  "coord_ok data \<longleftrightarrow> (\<forall>v \<in> set data. vals_ok (ce_val v)) \<and>
     sorted_wrt (\<lambda>v w. \<not> clid_eq (ce_clid v) (ce_clid w)) data"

text \<open>The states of one packet of one client.\<close>

definition coord_at :: "coord_entry list \<Rightarrow> client_id \<Rightarrow> u16 \<Rightarrow> msg_state list" where
  "coord_at data clid packet_id = map ss_ack (filter (\<lambda>s. ss_packet_id s = packet_id)
     (concat (map ce_val (filter (\<lambda>v. clid_eq (ce_clid v) clid) data))))"

lemma clid_eq_sym: "clid_eq a b = clid_eq b a"
  by (auto simp: clid_eq_def)

lemma clid_eq_trans: "clid_eq a b \<Longrightarrow> clid_eq b c = clid_eq a c"
  by (auto simp: clid_eq_def split: if_splits)

lemma create_scan_Inr:
  "create_scan clid state data = Some (Inr data') \<Longrightarrow>
    \<exists>pre v post. data = pre @ v # post \<and> clid_eq (ce_clid v) clid \<and>
      ss_packet_id state \<notin> ss_packet_id ` set (ce_val v) \<and>
      data' = pre @ v\<lparr>ce_val := ce_val v @ [state]\<rparr> # post"
proof (induction data arbitrary: data')
  case (Cons w data)
  show ?case
  proof (cases "clid_eq (ce_clid w) clid")
    case True
    then have "ss_packet_id state \<notin> ss_packet_id ` set (ce_val w)"
      "data' = w\<lparr>ce_val := ce_val w @ [state]\<rparr> # data"
      using Cons.prems by (fastforce split: if_splits)+
    then show ?thesis using True by (intro exI [of _ "[]"] exI) auto
  next
    case False
    then obtain d where "create_scan clid state data = Some (Inr d)" "data' = w # d"
      using Cons.prems by auto
    with Cons.IH [OF this(1)] show ?thesis by (metis append_Cons)
  qed
qed simp

lemma create_scan_Inl:
  "create_scan clid state data = Some (Inl e) \<Longrightarrow> e = AlreadyExists \<and>
    (\<exists>v \<in> set data. clid_eq (ce_clid v) clid \<and> ss_packet_id state \<in> ss_packet_id ` set (ce_val v))"
proof (induction data)
  case (Cons v data)
  then show ?case
    by (cases "clid_eq (ce_clid v) clid") (auto split: if_splits intro: rev_image_eqI)
qed simp

lemma coord_ok_update:
  assumes "coord_ok (pre @ v # post)" and "vals_ok mval"
  shows "coord_ok (pre @ v\<lparr>ce_val := mval\<rparr> # post)"
  using assms by (auto simp: coord_ok_def sorted_wrt_append)

lemma create_scan_None: "create_scan clid state data = None \<longleftrightarrow> (\<forall>v \<in> set data. \<not> clid_eq (ce_clid v) clid)"
  by (induction data) auto

lemma coord_create_cases:
  fixes packet_id :: u16
  assumes "uadd checks now e = Some x"
  defines "state \<equiv> \<lparr>ss_packet_id = packet_id, ss_ack = SPubRec, ss_expired_at = x\<rparr>"
  obtains (new) "\<forall>v \<in> set data. \<not> clid_eq (ce_clid v) clid"
      and "coord_create checks now data clid packet_id e = ok (data @ [\<lparr>ce_clid = clid, ce_val = [state]\<rparr>])"
  | (refused) v where "v \<in> set data" and "clid_eq (ce_clid v) clid"
      and "packet_id \<in> ss_packet_id ` set (ce_val v)"
      and "coord_create checks now data clid packet_id e = err AlreadyExists"
  | (added) pre v post where "data = pre @ v # post" and "clid_eq (ce_clid v) clid"
      and "packet_id \<notin> ss_packet_id ` set (ce_val v)"
      and "coord_create checks now data clid packet_id e =
        ok (pre @ v\<lparr>ce_val := ce_val v @ [state]\<rparr> # post)"
proof (cases "create_scan clid state data")
  case None
  then show thesis
    using assms new create_scan_None [of clid state data] by (simp add: coord_create_def Let_def)
next
  case (Some r)
  show thesis
  proof (cases r)
    case (Inl e')
    then have c: "create_scan clid state data = Some (Inl e')" using Some by simp
    from create_scan_Inl [OF this] show thesis
      using refused c assms by (auto simp: coord_create_def Let_def)
  next
    case (Inr data')
    then have c: "create_scan clid state data = Some (Inr data')" using Some by simp
    from create_scan_Inr [OF this] show thesis
      using added c assms by (auto simp: coord_create_def Let_def)
  qed
qed

text \<open>What a successful \<open>resolve\<close> has done.\<close>

lemma resolve_vals_Inr:
  "resolve_vals now packet_id ack mval = Some (Inr mval') \<Longrightarrow>
    \<exists>p s q. mval = p @ s # q \<and> ss_packet_id s = packet_id \<and>
      msg_step ack = msg_step (ss_ack s) + 1 \<and> now \<le> ss_expired_at s \<and>
      mval' = p @ s\<lparr>ss_ack := ack\<rparr> # q"
proof (induction mval arbitrary: mval')
  case (Cons t mval)
  show ?case
  proof (cases "ss_packet_id t = packet_id")
    case True
    then show ?thesis
      using Cons.prems by (auto simp: Let_def not_less split: if_splits intro!: exI [of _ "[]"])
  next
    case False
    then obtain d where "resolve_vals now packet_id ack mval = Some (Inr d)" "mval' = t # d"
      using Cons.prems by auto
    with Cons.IH [OF this(1)] show ?thesis by (metis append_Cons)
  qed
qed simp

lemma coord_resolve_Inr:
  "coord_resolve now clid packet_id ack data = Inr data' \<Longrightarrow>
    \<exists>pre v post mval. data = pre @ v # post \<and> \<not> clid_eq (ce_clid v) clid \<and>
      resolve_vals now packet_id ack (ce_val v) = Some (Inr mval) \<and>
      data' = pre @ v\<lparr>ce_val := mval\<rparr> # post"
proof (induction data arbitrary: data')
  case (Cons w data)
  show ?case
  proof (cases "clid_eq (ce_clid w) clid \<or> resolve_vals now packet_id ack (ce_val w) = None")
    case True
    then obtain d where "coord_resolve now clid packet_id ack data = Inr d" "data' = w # d"
      using Cons.prems by (auto split: if_splits)
    with Cons.IH [OF this(1)] show ?thesis by (metis append_Cons)
  next
    case False
    then obtain mval where "resolve_vals now packet_id ack (ce_val w) = Some (Inr mval)"
      "data' = w\<lparr>ce_val := mval\<rparr> # data"
      using Cons.prems by (auto split: sum.splits)
    with False show ?thesis by (auto intro!: exI [of _ "[]"])
  qed
qed simp

section \<open>Properties\<close>

text \<open>Creating an exchange keeps the store well formed (one entry per client, one state per packet
  identifier): it is refused exactly when the client already has the identifier, and otherwise the
  client gets it at the first step and no other exchange changes.\<close>

theorem coordinator_create:
  assumes "coord_ok data" and "unat now + unat e < 2 ^ 64"
  shows "if \<exists>v \<in> set data. clid_eq (ce_clid v) clid \<and> packet_id \<in> ss_packet_id ` set (ce_val v)
    then coord_create checks now data clid packet_id e = err AlreadyExists
    else \<exists>data'. coord_create checks now data clid packet_id e = ok data' \<and> coord_ok data' \<and>
      coord_at data' clid packet_id = [SPubRec] \<and>
      (\<forall>c i. \<not> (clid_eq c clid \<and> i = packet_id) \<longrightarrow> coord_at data' c i = coord_at data c i)"
proof -
  have "uadd checks now e = Some (now + e)" using assms(2) by (simp add: uadd_Some)
  then show ?thesis
  proof (cases rule: coord_create_cases [where packet_id = packet_id and data = data and clid = clid])
    case new
    let ?d = "data @ [\<lparr>ce_clid = clid, ce_val = [\<lparr>ss_packet_id = packet_id, ss_ack = SPubRec,
        ss_expired_at = now + e\<rparr>]\<rparr>]"
    have "filter (\<lambda>v. clid_eq (ce_clid v) clid) data = []" using new(1) by (simp add: filter_empty_conv)
    then have "coord_at ?d clid packet_id = [SPubRec]" by (simp add: coord_at_def)
    moreover have "coord_at ?d c i = coord_at data c i" if "\<not> (clid_eq c clid \<and> i = packet_id)" for c i
      using that by (auto simp: coord_at_def clid_eq_sym)
    moreover have "coord_ok ?d"
      using assms(1) new(1) by (auto simp: coord_ok_def sorted_wrt_append vals_ok_def)
    ultimately show ?thesis using new by auto
  next
    case (refused v)
    then show ?thesis by auto
  next
    case (added pre v post)
    let ?s = "\<lparr>ss_packet_id = packet_id, ss_ack = SPubRec, ss_expired_at = now + e\<rparr>"
    let ?d = "pre @ v\<lparr>ce_val := ce_val v @ [?s]\<rparr> # post"
    have others: "\<not> clid_eq (ce_clid w) clid" if "w \<in> set pre \<union> set post" for w
    proof -
      have "\<not> clid_eq (ce_clid w) (ce_clid v)"
        using assms(1) added(1) that by (auto simp: coord_ok_def sorted_wrt_append clid_eq_sym)
      then show ?thesis using added(2) by (auto simp: clid_eq_def split: if_splits)
    qed
    then have none: "\<not> (\<exists>w \<in> set data. clid_eq (ce_clid w) clid \<and>
        packet_id \<in> ss_packet_id ` set (ce_val w))"
      using added by auto
    have "filter (\<lambda>w. clid_eq (ce_clid w) clid) pre = []" "filter (\<lambda>w. clid_eq (ce_clid w) clid) post = []"
      using others by (auto simp: filter_empty_conv)
    moreover have "filter (\<lambda>s. ss_packet_id s = packet_id) (ce_val v) = []"
      using added(3) by (auto simp: filter_empty_conv)
    ultimately have "coord_at ?d clid packet_id = [SPubRec]" using added(2) by (simp add: coord_at_def)
    moreover have "coord_at ?d c i = coord_at data c i" if "\<not> (clid_eq c clid \<and> i = packet_id)" for c i
      using that added(1,2) by (auto simp: coord_at_def clid_eq_def split: if_splits)
    moreover have "coord_ok ?d"
      using assms(1) added(1,3) by (intro coord_ok_update) (auto simp: coord_ok_def vals_ok_def)
    ultimately show ?thesis using added(4) none by auto
  qed
qed

theorem coordinator_create_witness:
  "if \<exists>v \<in> set [\<lparr>ce_clid = clid_new [97], ce_val = [\<lparr>ss_packet_id = 3, ss_ack = SPubRel, ss_expired_at = 9\<rparr>]\<rparr>].
       clid_eq (ce_clid v) (clid_new [97]) \<and> 4 \<in> ss_packet_id ` set (ce_val v)
    then coord_create True 5 [\<lparr>ce_clid = clid_new [97], ce_val = [\<lparr>ss_packet_id = 3, ss_ack = SPubRel,
        ss_expired_at = 9\<rparr>]\<rparr>] (clid_new [97]) 4 60 = err AlreadyExists
    else \<exists>data'. coord_create True 5 [\<lparr>ce_clid = clid_new [97], ce_val = [\<lparr>ss_packet_id = 3,
        ss_ack = SPubRel, ss_expired_at = 9\<rparr>]\<rparr>] (clid_new [97]) 4 60 = ok data' \<and> coord_ok data' \<and>
      coord_at data' (clid_new [97]) 4 = [SPubRec] \<and>
      (\<forall>c i. \<not> (clid_eq c (clid_new [97]) \<and> i = 4) \<longrightarrow> coord_at data' c i =
        coord_at [\<lparr>ce_clid = clid_new [97], ce_val = [\<lparr>ss_packet_id = 3, ss_ack = SPubRel,
          ss_expired_at = 9\<rparr>]\<rparr>] c i)"
  by (rule coordinator_create) (simp_all add: coord_ok_def vals_ok_def)

text \<open>Resolving, when it succeeds, moves exactly one exchange exactly one step forward and only
  before it has expired; but the exchange is one of another client than the one given.\<close>

theorem resolve_one_step:
  assumes "coord_resolve now clid packet_id ack data = Inr data'"
  shows "\<exists>pre v post p s q. data = pre @ v # post \<and> ce_val v = p @ s # q \<and>
    \<not> clid_eq (ce_clid v) clid \<and> ss_packet_id s = packet_id \<and>
    msg_step ack = msg_step (ss_ack s) + 1 \<and> now \<le> ss_expired_at s \<and>
    data' = pre @ v\<lparr>ce_val := p @ s\<lparr>ss_ack := ack\<rparr> # q\<rparr> # post"
proof -
  obtain pre v post mval where d: "data = pre @ v # post" "\<not> clid_eq (ce_clid v) clid"
    "resolve_vals now packet_id ack (ce_val v) = Some (Inr mval)" "data' = pre @ v\<lparr>ce_val := mval\<rparr> # post"
    using coord_resolve_Inr [OF assms] by blast
  obtain p s q where "ce_val v = p @ s # q" "ss_packet_id s = packet_id"
    "msg_step ack = msg_step (ss_ack s) + 1" "now \<le> ss_expired_at s" "mval = p @ s\<lparr>ss_ack := ack\<rparr> # q"
    using resolve_vals_Inr [OF d(3)] by blast
  with d show ?thesis
    by (intro exI [of _ pre] exI [of _ v] exI [of _ post] exI [of _ p] exI [of _ s] exI [of _ q]) simp
qed

theorem resolve_one_step_witness:
  "\<exists>pre v post p s q.
    [\<lparr>ce_clid = clid_new [97], ce_val = [\<lparr>ss_packet_id = 4, ss_ack = SPubRec, ss_expired_at = 9\<rparr>]\<rparr>] =
      pre @ v # post \<and> ce_val v = p @ s # q \<and>
    \<not> clid_eq (ce_clid v) (clid_new []) \<and> ss_packet_id s = 4 \<and>
    msg_step SPubRel = msg_step (ss_ack s) + 1 \<and> 5 \<le> ss_expired_at s \<and>
    [\<lparr>ce_clid = clid_new [97], ce_val = [\<lparr>ss_packet_id = 4, ss_ack = SPubRel, ss_expired_at = 9\<rparr>]\<rparr>] =
      pre @ v\<lparr>ce_val := p @ s\<lparr>ss_ack := SPubRel\<rparr> # q\<rparr> # post"
  by (rule resolve_one_step) (simp add: clid_eq_def)

text \<open>A client's own exchange is never resolved: after a client alone has created exchanges, every
  attempt of it to resolve one reports that there is none.\<close>

theorem resolve_own_never:
  assumes "\<forall>v \<in> set data. clid_eq (ce_clid v) clid"
  shows "coord_resolve now clid packet_id ack data = Inl AckNotFound"
  using assms by (induction data) auto

theorem resolve_own_never_witness:
  "coord_resolve 5 (clid_new [97]) 4 SPubRel
     [\<lparr>ce_clid = clid_new [97], ce_val = [\<lparr>ss_packet_id = 4, ss_ack = SPubRec, ss_expired_at = 9\<rparr>]\<rparr>] =
   Inl AckNotFound"
  by (rule resolve_own_never) simp

end
