(* ===== verification/RegistryHeap.thy ===== *)
theory RegistryHeap
  imports Listening
begin

text \<open>
  The pointers of \<open>client/clients.rs\<close>.  The vector of the registry holds shared pointers to slots
  (\<open>Arc<AtomicPtr<Client>>\<close>), each slot points to the box of a client, and a listening task keeps the
  slot that \<open>get_client\<close> gave it.  Insertion and lookup are shown to do on the boxes what theory
  \<open>Registry\<close> does on the clients; taking over an identifier swaps the box in the slot, so the task of the
  old client goes on with the new one, and the old box is freed whoever still has a reference into it.
\<close>

section \<open>The heap of clients\<close>

record 'k client_heap =
  ch_list :: "nat list"
  ch_slot :: "nat \<Rightarrow> nat option"
  ch_box :: "nat \<Rightarrow> 'k client option"

text \<open>Following a slot to its client; \<open>None\<close> is a memory fault, here and in what follows.\<close>

definition load_client :: "'k client_heap \<Rightarrow> nat \<Rightarrow> 'k client option" where
  "load_client h s = Option.bind (ch_slot h s) (ch_box h)"

text \<open>The loop of \<open>insert\<close>, on the clients the slots lead to.\<close>

function slot_scan ::
    "client_id \<Rightarrow> u64 \<Rightarrow> 'k client_heap \<Rightarrow> nat \<Rightarrow> (string + (nat \<times> nat \<times> bool)) option" where
  "slot_scan new_clid now h i =
     (if i < length (ch_list h) then
        (case load_client h (ch_list h ! i) of
           None \<Rightarrow> None
         | Some c \<Rightarrow>
             (case clid_cmp new_clid (cl_clid c) of
                Equal \<Rightarrow> Some (if is_alive (cl_session c) now then Inl ''duplicate client id'' else Inr (i, i, True))
              | Greater \<Rightarrow> slot_scan new_clid now h (i + 1)
              | Less \<Rightarrow> Some (Inr (i, i, False))))
      else Some (Inr (i, length (ch_list h), False)))"
  by auto
termination by (relation "measure (\<lambda>(_, _, h, i). length (ch_list h) - i)") auto

declare slot_scan.simps [simp del]

text \<open>
  \<open>insert\<close>: the new client is boxed at \<open>p\<close>.  A dead client under the same identifier is swapped out of
  its slot, and its box is freed; otherwise the new box gets a slot of its own, \<open>s\<close>.
\<close>

definition slots_insert ::
    "u64 \<Rightarrow> nat \<Rightarrow> nat \<Rightarrow> 'k client_heap \<Rightarrow> 'k client \<Rightarrow> (string + 'k client_heap) option" where
  "slots_insert now p s h new_cl =
     (case slot_scan (cl_clid new_cl) now h 0 of
        None \<Rightarrow> None
      | Some (Inl e) \<Rightarrow> Some (Inl e)
      | Some (Inr (i, found, swap)) \<Rightarrow>
          let h = h\<lparr>ch_box := (ch_box h)(p \<mapsto> new_cl)\<rparr> in
          if swap then
            (case ch_slot h (ch_list h ! i) of
               None \<Rightarrow> None
             | Some old \<Rightarrow> Some (Inr (h\<lparr>ch_slot := (ch_slot h)(ch_list h ! i \<mapsto> p), ch_box := (ch_box h)(old := None)\<rparr>)))
          else Some (Inr (h\<lparr>ch_slot := (ch_slot h)(s \<mapsto> p),
            ch_list := take found (ch_list h) @ s # drop found (ch_list h)\<rparr>)))"

text \<open>The clients of the vector; a slot that leads nowhere is a fault of whoever searches the vector.\<close>

definition loaded :: "'k client_heap \<Rightarrow> 'k clients option" where
  "loaded h = those (map (load_client h) (ch_list h))"

text \<open>\<open>get_client\<close>: the slot itself is given out.\<close>

definition get_slot :: "client_id \<Rightarrow> 'k client_heap \<Rightarrow> nat option option" where
  "get_slot clid h =
     map_option (\<lambda>clients. map_option (\<lambda>idx. ch_list h ! idx)
       (binary_search_by (\<lambda>c. clid_cmp (cl_clid c) clid) clients)) (loaded h)"

text \<open>Writing to a client through its slot.\<close>

definition store_client :: "'k client_heap \<Rightarrow> nat \<Rightarrow> 'k client \<Rightarrow> 'k client_heap option" where
  "store_client h s c = map_option (\<lambda>b. h\<lparr>ch_box := (ch_box h)(b \<mapsto> c)\<rparr>) (ch_slot h s)"

text \<open>
  \<open>register\<close> of \<open>mediator.rs\<close>: insertion, the callback on the socket behind the slot, and a new task,
  which is its slot.
\<close>

definition slots_register ::
    "u64 \<Rightarrow> nat \<Rightarrow> nat \<Rightarrow> ('k \<Rightarrow> 'r \<times> 'k) \<Rightarrow> 'k client_heap \<Rightarrow> nat list \<Rightarrow> 'k client \<Rightarrow>
       (string, 'r \<times> 'k client_heap \<times> nat list) run" where
  "slots_register now p s callback h tasks new_cl =
     need (slots_insert now p s h new_cl) (\<lambda>inserted.
     case inserted of
       Inl e \<Rightarrow> err e
     | Inr h \<Rightarrow>
         need (get_slot (cl_clid new_cl) h) (\<lambda>found.
         need found (\<lambda>client.
         need (load_client h client) (\<lambda>c.
         let (r, k) = callback (cl_socket c) in
         need (store_client h client (c\<lparr>cl_socket := k\<rparr>)) (\<lambda>h.
         ok (r, h, tasks @ [client]))))))"

text \<open>
  A round of the listening task that has slot \<open>s\<close>: it takes the client from the slot at the top of the
  loop and works on that box.
\<close>

definition slot_round ::
    "bool \<Rightarrow> bytes_crate \<Rightarrow> 'f file_ops \<Rightarrow>
     ('k \<Rightarrow> nat \<Rightarrow> u64 \<Rightarrow> (io_error + bytes) \<times> 'k) \<Rightarrow> ('k \<Rightarrow> bytes \<Rightarrow> (io_error + unit) \<times> 'k) \<Rightarrow>
     ('ro \<Rightarrow> client_id \<Rightarrow> subscribe list \<Rightarrow> (malformed + sub_ack_result list) \<times> 'ro) \<Rightarrow>
     ('q \<Rightarrow> message \<Rightarrow> 'q) \<Rightarrow> ('f \<Rightarrow> io_error + 'f) \<Rightarrow> io_error + 'f \<Rightarrow> u64 \<Rightarrow> u64 \<Rightarrow> nat \<Rightarrow>
     'k client_heap \<Rightarrow> ('k, 'q, 'ro, 'f) listener \<Rightarrow>
     (io_error, bool \<times> 'k client_heap \<times> ('k, 'q, 'ro, 'f) listener) run" where
  "slot_round checks B F RT W subscribe enq open_log opened t now' s h l =
     need (load_client h s) (\<lambda>client.
     andThen (listen_round checks B F RT W subscribe enq open_log opened t now' (l\<lparr>li_client := client\<rparr>)) (\<lambda>(goes_on, l).
     need (store_client h s (li_client l)) (\<lambda>h.
     ok (goes_on, h, l))))"

section \<open>The end of a task\<close>

text \<open>
  The round in which a task finds its client dead has an \<open>await\<close> in the middle: the task takes the box
  from the slot and looks at it, waits for the log, and prints the identifier from the same box.
\<close>

definition dead_top :: "u64 \<Rightarrow> nat \<Rightarrow> 'k client_heap \<Rightarrow> (bool \<times> nat) option" where
  "dead_top t s h = Option.bind (ch_slot h s) (\<lambda>b.
     map_option (\<lambda>client. (\<not> is_alive (cl_session client) t, b)) (ch_box h b))"

definition dead_print :: "nat \<Rightarrow> 'k client_heap \<Rightarrow> client_id option" where
  "dead_print b h = map_option cl_clid (ch_box h b)"

section \<open>Lemmas\<close>

text \<open>No two slots of the vector lead to the same box.\<close>

definition heap_ok :: "'k client_heap \<Rightarrow> bool" where
  "heap_ok h \<longleftrightarrow> distinct (map (ch_slot h) (ch_list h))"

lemma those_Some: "those xs = Some ys \<longleftrightarrow> xs = map Some ys"
  by (induction xs arbitrary: ys) (auto simp: map_eq_Cons_conv Cons_eq_map_conv split: option.splits)

lemma loaded_nth: "loaded h = Some cs \<longleftrightarrow> length cs = length (ch_list h) \<and>
    (\<forall>i < length cs. load_client h (ch_list h ! i) = Some (cs ! i))"
  by (auto simp: loaded_def those_Some list_eq_iff_nth_eq)

lemma slot_scan_loaded:
  "loaded h = Some cs \<Longrightarrow> slot_scan clid now h i = Some (insert_scan clid now cs i)"
proof (induction clid now cs i rule: insert_scan.induct)
  case (1 clid now cs i)
  have len: "length (ch_list h) = length cs" using "1.prems" by (simp add: loaded_nth)
  show ?case
  proof (cases "i < length cs")
    case True
    then have "load_client h (ch_list h ! i) = Some (cs ! i)" using "1.prems" by (simp add: loaded_nth)
    then show ?thesis
      using "1.IH" [OF True] "1.prems" True len
      by (subst slot_scan.simps, subst insert_scan.simps) (simp split: rust_ordering.split)
  qed (use len in \<open>simp add: slot_scan.simps insert_scan.simps\<close>)
qed

text \<open>What a slot of the vector leads to.\<close>

lemma slot_box:
  assumes "loaded h = Some cs" and "i < length cs"
  obtains b where "ch_slot h (ch_list h ! i) = Some b" and "ch_box h b = Some (cs ! i)"
  using assms by (auto simp: loaded_nth load_client_def split: bind_splits)

lemma heap_ok_nth:
  assumes "heap_ok h" and "i < length (ch_list h)" and "j < length (ch_list h)"
    and "ch_slot h (ch_list h ! i) = ch_slot h (ch_list h ! j)"
  shows "i = j"
  using assms by (simp add: heap_ok_def distinct_conv_nth) metis

text \<open>A box in a slot of the vector is replaced by another, or changed.\<close>

lemma swap_box:
  fixes c :: "'k client"
  assumes ok: "heap_ok h" and ld: "loaded h = Some cs" and i: "i < length cs"
    and b: "ch_slot h (ch_list h ! i) = Some b" and p: "ch_box h p = None"
  defines "h' \<equiv> h\<lparr>ch_slot := (ch_slot h)(ch_list h ! i \<mapsto> p), ch_box := (ch_box h)(p \<mapsto> c, b := None)\<rparr>"
  shows "loaded h' = Some (cs[i := c])" and "heap_ok h'"
proof -
  have len: "length (ch_list h) = length cs" using ld by (simp add: loaded_nth)
  have bp: "b \<noteq> p" using slot_box [OF ld i] b p by force
  have other: "ch_list h ! j \<noteq> ch_list h ! i \<and> ch_slot h (ch_list h ! j) \<noteq> Some b \<and>
      ch_slot h (ch_list h ! j) \<noteq> Some p" if "j < length cs" "j \<noteq> i" for j
    using heap_ok_nth [OF ok, of j i] that i len b slot_box [OF ld that(1)] p by force
  show "loaded h' = Some (cs[i := c])"
    unfolding loaded_nth
  proof (intro conjI allI impI)
    fix j assume "j < length (cs[i := c])"
    then show "load_client h' (ch_list h' ! j) = Some (cs[i := c] ! j)"
      using other [of j] ld bp i
      by (cases "j = i") (auto simp: h'_def load_client_def loaded_nth split: bind_splits)
  qed (simp add: h'_def len)
  have "ch_slot h' (ch_list h ! j) = (if j = i then Some p else ch_slot h (ch_list h ! j))" if "j < length cs" for j
    using other [OF that] by (auto simp: h'_def)
  then have eq: "map (ch_slot h') (ch_list h) = (map (ch_slot h) (ch_list h))[i := Some p]"
    using len by (auto simp: list_eq_iff_nth_eq nth_list_update)
  moreover have "Some p \<notin> set (map (ch_slot h) (ch_list h))"
    using slot_box [OF ld] p len by (fastforce simp: in_set_conv_nth)
  ultimately show "heap_ok h'"
    using ok by (simp add: heap_ok_def h'_def distinct_list_update)
qed

lemma store_loaded:
  assumes ok: "heap_ok h" and ld: "loaded h = Some cs" and i: "i < length cs"
  obtains h' where "store_client h (ch_list h ! i) c = Some h'" and "loaded h' = Some (cs[i := c])"
    and "heap_ok h'" and "ch_list h' = ch_list h" and "ch_slot h' = ch_slot h"
    and "\<And>x. ch_slot h (ch_list h ! i) \<noteq> Some x \<Longrightarrow> ch_box h' x = ch_box h x"
proof -
  obtain b where b: "ch_slot h (ch_list h ! i) = Some b" "ch_box h b = Some (cs ! i)" using slot_box [OF ld i] .
  let ?h = "h\<lparr>ch_box := (ch_box h)(b \<mapsto> c)\<rparr>"
  have len: "length (ch_list h) = length cs" using ld by (simp add: loaded_nth)
  have "ch_slot h (ch_list h ! j) \<noteq> Some b" if "j < length cs" "j \<noteq> i" for j
    using heap_ok_nth [OF ok, of j i] that i len b by force
  then have "loaded ?h = Some (cs[i := c])"
    using ld b i by (auto simp: loaded_nth load_client_def nth_list_update split: bind_splits)
  moreover have "heap_ok ?h" using ok by (simp add: heap_ok_def)
  ultimately show ?thesis using that [of ?h] b by (simp add: store_client_def)
qed

text \<open>A new slot in the vector.\<close>

lemma distinct_insert_at: "distinct xs \<Longrightarrow> x \<notin> set xs \<Longrightarrow> distinct (take k xs @ x # drop k xs)"
  using set_take_disj_set_drop_if_distinct [of xs k k] by (auto dest: in_set_takeD in_set_dropD)

lemma new_box:
  fixes c :: "'k client"
  assumes ok: "heap_ok h" and ld: "loaded h = Some cs" and k: "k \<le> length cs"
    and p: "ch_box h p = None" and s: "s \<notin> set (ch_list h)"
  defines "h' \<equiv> h\<lparr>ch_box := (ch_box h)(p \<mapsto> c), ch_slot := (ch_slot h)(s \<mapsto> p),
    ch_list := take k (ch_list h) @ s # drop k (ch_list h)\<rparr>"
  shows "loaded h' = Some (take k cs @ c # drop k cs)" and "heap_ok h'"
proof -
  have ld': "map (load_client h) (ch_list h) = map Some cs" using ld by (simp add: loaded_def those_Some)
  have np: "ch_slot h x \<noteq> Some p" if "x \<in> set (ch_list h)" for x
    using that slot_box [OF ld] p ld by (fastforce simp: in_set_conv_nth loaded_nth)
  have "load_client h' x = load_client h x" if "x \<in> set (ch_list h)" for x
    using np [OF that] that s by (auto simp: h'_def load_client_def split: bind_splits)
  then have same: "map (load_client h') (ch_list h) = map Some cs" using ld' by (metis map_cong)
  have "map (load_client h') (take k (ch_list h)) = map Some (take k cs)"
    "map (load_client h') (drop k (ch_list h)) = map Some (drop k cs)"
    using same by (simp_all add: take_map drop_map flip: take_map drop_map)
  moreover have "load_client h' s = Some c" by (simp add: h'_def load_client_def)
  ultimately show "loaded h' = Some (take k cs @ c # drop k cs)" by (simp add: loaded_def those_Some h'_def)
  have slots: "map (ch_slot h') (ch_list h) = map (ch_slot h) (ch_list h)" using s by (auto simp: h'_def)
  have "distinct (map (ch_slot h) (ch_list h))" using ok by (simp add: heap_ok_def)
  moreover have "Some p \<notin> set (map (ch_slot h) (ch_list h))" unfolding set_map using np by (metis imageE)
  moreover have "map (ch_slot h') (ch_list h') =
      take k (map (ch_slot h) (ch_list h)) @ Some p # drop k (map (ch_slot h) (ch_list h))"
    unfolding slots [symmetric] by (simp add: h'_def take_map drop_map)
  ultimately show "heap_ok h'" unfolding heap_ok_def by (metis distinct_insert_at)
qed

text \<open>Insertion on the heap: what it does on the clients, and, for a takeover, on the pointers.\<close>

lemma slots_insert_spec:
  assumes ok: "heap_ok h" and ld: "loaded h = Some cs" and reg: "reg_ok cs"
    and p: "ch_box h p = None" and s: "s \<notin> set (ch_list h)"
  shows "case clients_insert now cs new of
      Inl e \<Rightarrow> slots_insert now p s h new = Some (Inl e)
    | Inr cs' \<Rightarrow> \<exists>h'. slots_insert now p s h new = Some (Inr h') \<and> loaded h' = Some cs' \<and> heap_ok h'"
proof (cases "insert_scan (cl_clid new) now cs 0")
  case (Inl e)
  then show ?thesis by (simp add: clients_insert_def slots_insert_def slot_scan_loaded [OF ld])
next
  case (Inr r)
  obtain i found swap where r: "r = (i, found, swap)" by (cases r)
  have scan: "i = found" "i \<le> length cs" "swap \<Longrightarrow> i < length cs"
    using insert_scan_spec [OF reg, of 0 "cl_clid new" now] Inr r by (auto split: if_splits)
  show ?thesis
  proof (cases swap)
    case True
    obtain b where b: "ch_slot h (ch_list h ! i) = Some b" "ch_box h b = Some (cs ! i)"
      using slot_box [OF ld scan(3) [OF True]] .
    show ?thesis
      using swap_box [OF ok ld scan(3) [OF True] b(1) p, of new] Inr r True b
      by (simp add: clients_insert_def slots_insert_def slot_scan_loaded [OF ld] Let_def)
  next
    case False
    show ?thesis
      using new_box [OF ok ld scan(2) p s, of new] Inr r False scan(1)
      by (simp add: clients_insert_def slots_insert_def slot_scan_loaded [OF ld] Let_def)
  qed
qed

lemma get_slot_spec:
  assumes "loaded h = Some cs" and "reg_ok cs"
  shows "get_slot clid h = Some (Some s) \<longleftrightarrow> (\<exists>i < length cs. s = ch_list h ! i \<and> cl_clid (cs ! i) = clid)"
proof -
  have "get_slot clid h = Some (map_option (\<lambda>idx. ch_list h ! idx)
      (binary_search_by (\<lambda>c. clid_cmp (cl_clid c) clid) cs))" using assms(1) by (simp add: get_slot_def)
  then show ?thesis using binary_search_spec [OF assms(2), of clid] by auto
qed

lemma insert_scan_dead:
  assumes "reg_ok cs" and "i < length cs" and "cl_clid (cs ! i) = clid" and "\<not> is_alive (cl_session (cs ! i)) now"
  shows "insert_scan clid now cs 0 = Inr (i, i, True)"
proof (cases "insert_scan clid now cs 0")
  case (Inl e)
  then obtain k where "k < length cs" "cl_clid (cs ! k) = clid" "is_alive (cl_session (cs ! k)) now"
    using insert_scan_spec [OF assms(1), of 0 clid now] by auto
  then have "cs ! k = cs ! i" using entry_nth [OF assms(1), of k] entry_nth [OF assms(1,2)] assms(3) by simp
  then show ?thesis using \<open>is_alive _ now\<close> assms(4) by simp
next
  case (Inr r)
  obtain k found swap where r: "r = (k, found, swap)" by (cases r)
  have spec: "k = found" "k \<le> length cs" "\<forall>j < k. cl_clid (cs ! j) < clid"
    "if swap then k < length cs \<and> cl_clid (cs ! k) = clid else k < length cs \<longrightarrow> clid < cl_clid (cs ! k)"
    using insert_scan_spec [OF assms(1), of 0 clid now] Inr r by (auto split: if_splits)
  have "k \<le> i" using spec(3) assms(3) by (metis less_irrefl not_le)
  moreover have "k = i"
  proof (rule ccontr)
    assume "k \<noteq> i"
    then have "cl_clid (cs ! k) < clid" using reg_ok_nth [OF assms(1), of k i] assms(2,3) \<open>k \<le> i\<close> by simp
    then show False using spec(4) \<open>k \<le> i\<close> assms(2) by (auto split: if_splits)
  qed
  ultimately show ?thesis using Inr r spec assms(2,3) by (auto split: if_splits)
qed

text \<open>Registering over a dead client: the slot stays, its box is the new one, the old one is freed.\<close>

lemma register_over:
  assumes ok: "heap_ok h" and ld: "loaded h = Some cs" and reg: "reg_ok cs" and i: "i < length cs"
    and id: "cl_clid (cs ! i) = cl_clid new" and dead: "\<not> is_alive (cl_session (cs ! i)) now"
    and b: "ch_slot h (ch_list h ! i) = Some b" and p: "ch_box h p = None" and cb: "callback (cl_socket new) = (r, k)"
  shows "\<exists>h'. slots_register now p s callback h tasks new = ok (r, h', tasks @ [ch_list h ! i]) \<and>
    ch_list h' = ch_list h \<and> ch_slot h' (ch_list h ! i) = Some p \<and> ch_box h' b = None \<and>
    loaded h' = Some (cs[i := new\<lparr>cl_socket := k\<rparr>])"
proof -
  let ?s = "ch_list h ! i" and ?c = "new\<lparr>cl_socket := k\<rparr>"
  let ?h = "h\<lparr>ch_slot := (ch_slot h)(?s \<mapsto> p), ch_box := (ch_box h)(p \<mapsto> new, b := None)\<rparr>"
  note swap = swap_box [OF ok ld i b p, of new]
  have ins: "slots_insert now p s h new = Some (Inr ?h)"
    using b by (simp add: slots_insert_def slot_scan_loaded [OF ld] insert_scan_dead [OF reg i id dead] Let_def)
  have i': "i < length (cs[i := new])" using i by simp
  have bp: "b \<noteq> p" using slot_box [OF ld i] b p by force
  have reg': "reg_ok (cs[i := new])" using entry_update(1) [OF reg i, of new] id by simp
  have "\<exists>j < length (cs[i := new]). ?s = ch_list ?h ! j \<and> cl_clid (cs[i := new] ! j) = cl_clid new"
    using i by (intro exI [of _ i]) simp
  then have get: "get_slot (cl_clid new) ?h = Some (Some ?s)" using get_slot_spec [OF swap(1) reg'] by blast
  have load: "load_client ?h ?s = Some new" using bp by (simp add: load_client_def)
  obtain h' where h': "store_client ?h ?s ?c = Some h'" "loaded h' = Some (cs[i := new, i := ?c])"
    "ch_list h' = ch_list ?h" "ch_slot h' = ch_slot ?h" "\<And>x. ch_slot ?h ?s \<noteq> Some x \<Longrightarrow> ch_box h' x = ch_box ?h x"
    using store_loaded [OF swap(2,1) i', of ?c] by auto
  have "slots_register now p s callback h tasks new = ok (r, h', tasks @ [?s])"
    using ins get load cb h'(1) by (simp add: slots_register_def)
  moreover have "ch_box h' b = None" using h'(5) [of b] bp by simp
  ultimately show ?thesis using h'(2-4) by simp
qed

section \<open>Properties\<close>

text \<open>C14: Insertion on the heap refines insertion on the clients: from a vector of slots with a box each it
  is no fault, it refuses exactly when the insertion on the clients does, with the same error, and
  otherwise the vector then leads to the clients that \<open>clients_insert\<close> gives, again with a box each.\<close>

theorem slots_insert_refines:
  assumes "heap_ok h" and "loaded h = Some cs" and "reg_ok cs" and "ch_box h p = None" and "s \<notin> set (ch_list h)"
  shows "\<exists>res. slots_insert now p s h new = Some res \<and>
    (case res of
       Inl e \<Rightarrow> clients_insert now cs new = Inl e
     | Inr h' \<Rightarrow> heap_ok h' \<and> (\<exists>cs'. loaded h' = Some cs' \<and> clients_insert now cs new = Inr cs'))"
  using slots_insert_spec [OF assms, of now new] by (cases "clients_insert now cs new") auto

definition sample_slots :: "bytes list client_heap" where
  "sample_slots = \<lparr>ch_list = [7], ch_slot = [7 \<mapsto> 0], ch_box = [0 \<mapsto> sample_client ''c'' 5]\<rparr>"

lemma sample_slots_ok:
  "heap_ok sample_slots" "loaded sample_slots = Some [sample_client ''c'' 5]" "reg_ok [sample_client ''c'' 5]"
  by (simp_all add: heap_ok_def sample_slots_def loaded_def load_client_def reg_ok_def)

theorem slots_insert_refines_witness:
  "\<exists>res. slots_insert 50 1 8 sample_slots (sample_client ''c'' 90) = Some res \<and>
    (case res of
       Inl e \<Rightarrow> clients_insert 50 [sample_client ''c'' 5] (sample_client ''c'' 90) = Inl e
     | Inr h' \<Rightarrow> heap_ok h' \<and> (\<exists>cs'. loaded h' = Some cs' \<and>
         clients_insert 50 [sample_client ''c'' 5] (sample_client ''c'' 90) = Inr cs'))"
  by (rule slots_insert_refines [OF sample_slots_ok]) (simp_all add: sample_slots_def)


definition late_socket :: "bytes list \<Rightarrow> nat \<Rightarrow> u64 \<Rightarrow> (io_error + bytes) \<times> bytes list" where
  "late_socket k n dur = (if k = [] then Inl (IoError IoTimedOut []) else Inr plain_frame, k)"


text \<open>Taking over an identifier can free a client that its old task still uses.  When the old task has
  found its client dead and waits for the entry to be logged, a client that registers under the same
  identifier frees the box that the task holds: before, the task could print the client's identifier,
  now that is a read of freed memory.\<close>

theorem takeover_frees_held_client:
  assumes "heap_ok h" and "loaded h = Some cs" and "reg_ok cs" and "i < length cs"
    and "cl_clid (cs ! i) = cl_clid new" and "\<not> is_alive (cl_session (cs ! i)) t" and "t \<le> now"
    and "ch_box h p = None"
  shows "\<exists>b r h'. dead_top t (ch_list h ! i) h = Some (True, b) \<and> dead_print b h = Some (cl_clid new) \<and>
    slots_register now p s callback h tasks new = ok (r, h', tasks @ [ch_list h ! i]) \<and> dead_print b h' = None"
proof -
  obtain b where b: "ch_slot h (ch_list h ! i) = Some b" "ch_box h b = Some (cs ! i)" using slot_box [OF assms(2,4)] .
  obtain r k where cb: "callback (cl_socket new) = (r, k)" by fastforce
  have "\<not> is_alive (cl_session (cs ! i)) now" using assms(6,7) by (auto simp: is_alive_def)
  from register_over [where h = h and i = i and new = new and callback = callback and s = s and tasks = tasks,
      OF assms(1-5) this b(1) assms(8) cb]
  show ?thesis using b assms(5,6) by (auto simp: dead_top_def dead_print_def)
qed

theorem takeover_frees_held_client_witness:
  "\<exists>b r h'. dead_top 40 (ch_list sample_slots ! 0) sample_slots = Some (True, b) \<and>
    dead_print b sample_slots = Some (cl_clid (sample_client ''c'' 90)) \<and>
    slots_register 50 1 8 (\<lambda>k. ((), k)) sample_slots [7] (sample_client ''c'' 90) =
      ok (r, h', [7] @ [ch_list sample_slots ! 0]) \<and> dead_print b h' = None"
  by (rule takeover_frees_held_client [OF sample_slots_ok])
    (simp_all add: sample_client_def is_alive_def sample_slots_def)

end
