(* ===== verification/TrieThreads.thy ===== *)
theory TrieThreads
  imports Trie
begin

text \<open>
  The insertion of \<open>ds/trie.rs\<close> as the threads of the program run it: the tree is a heap of nodes, a
  thread inside \<open>insert\<close> is a program counter with its local pointers, and one step of it is one
  operation on the shared tree (a load, a lookup in a hash map, the making of a branch, the final
  compare-and-exchange).  Nothing in the source locks the tree.  A thread alone does what theory
  \<open>Trie\<close> says; threads on branches that exist are safe in every interleaving; two threads that make
  the same branch can lose a subscriber.  A hash map operation is one step here, and a reference into a
  map stays valid; in the source two at once on one map are a data race, and a map that grows moves its
  entries.  So what is shown to go wrong goes wrong without either, and what is shown to be safe makes no
  branch and does not depend on them.
\<close>

section \<open>The heap\<close>

datatype 'a tnode = TNode (branches: "(rstring \<times> nat) list") (tsub: "'a option")

record 'a theap =
  troot :: "nat option"
  tnodes :: "nat \<Rightarrow> 'a tnode option"

text \<open>What \<open>cur\<close> refers to: the root pointer, or the pointer under a key in the map of a node.\<close>

type_synonym slot = "(nat \<times> rstring) option"

text \<open>\<open>None\<close> is a memory fault, \<open>Some None\<close> a null pointer.\<close>

definition load_slot :: "'a theap \<Rightarrow> slot \<Rightarrow> nat option option" where
  "load_slot h cur =
     (case cur of
        None \<Rightarrow> Some (troot h)
      | Some (n, key) \<Rightarrow> Option.bind (tnodes h n) (\<lambda>nd. map_option Some (map_of (branches nd) key)))"

definition store_slot :: "'a theap \<Rightarrow> slot \<Rightarrow> nat \<Rightarrow> 'a theap option" where
  "store_slot h cur p =
     (case cur of
        None \<Rightarrow> Some (h\<lparr>troot := Some p\<rparr>)
      | Some (n, key) \<Rightarrow> Option.bind (tnodes h n) (\<lambda>nd.
          Some (h\<lparr>tnodes := (tnodes h)(n \<mapsto> TNode (AList.update key p (branches nd)) (tsub nd))\<rparr>)))"

definition theap_new :: "'a theap" where
  "theap_new = \<lparr>troot = Some 0, tnodes = [0 \<mapsto> TNode [] None]\<rparr>"

section \<open>One step of an insertion\<close>

text \<open>
  Where a thread is in \<open>insert\<close>, with the parts of the topic that are left and the value: at the top of
  the loop (or, with no part left, before the load behind it); before making a node for a null pointer;
  before looking the part up in the map of the node it has loaded; before \<open>create_branch\<close>; before the
  exchange of \<open>set_subscriber\<close>; or back with the result.
\<close>

datatype 'a ins_pc =
    InsLoad slot "rstring list" 'a
  | InsNull slot "rstring list" 'a
  | InsGet slot nat "rstring list" 'a
  | InsCreate slot nat "rstring list" 'a
  | InsSet nat 'a
  | InsDone bool

text \<open>
  \<open>a\<close> is the address the allocator gives to a new node, \<open>cas\<close> is false when the weak exchange fails
  although the slot is empty.
\<close>

fun insert_step :: "bool \<Rightarrow> nat \<Rightarrow> 'a ins_pc \<Rightarrow> 'a theap \<Rightarrow> ('a ins_pc \<times> 'a theap) option" where
  "insert_step cas a (InsLoad cur [] v) h =
     Option.bind (load_slot h cur) (\<lambda>p. case p of None \<Rightarrow> None | Some n \<Rightarrow> Some (InsSet n v, h))"
| "insert_step cas a (InsLoad cur (part # parts) v) h =
     Option.bind (load_slot h cur) (\<lambda>p. case p of
         None \<Rightarrow> Some (InsNull cur (part # parts) v, h)
       | Some n \<Rightarrow> Some (InsGet cur n (part # parts) v, h))"
| "insert_step cas a (InsNull cur parts v) h =
     Option.bind (store_slot (h\<lparr>tnodes := (tnodes h)(a \<mapsto> TNode [] None)\<rparr>) cur a) (\<lambda>h.
       Some (InsLoad cur parts v, h))"
| "insert_step cas a (InsGet cur n (part # parts) v) h =
     Option.bind (tnodes h n) (\<lambda>nd. Some (case map_of (branches nd) part of
         Some branch \<Rightarrow> InsLoad (Some (n, part)) parts v
       | None \<Rightarrow> InsCreate cur n (part # parts) v, h))"
| "insert_step cas a (InsCreate cur n (part # parts) v) h =
     Option.bind (tnodes h n) (\<lambda>nd. Some (InsLoad cur (part # parts) v,
       h\<lparr>tnodes := (tnodes h)(a \<mapsto> TNode [] None, n \<mapsto> TNode (AList.update part a (branches nd)) (tsub nd))\<rparr>))"
| "insert_step cas a (InsSet n v) h =
     Option.bind (tnodes h n) (\<lambda>nd.
       if tsub nd = None \<and> cas
       then Some (InsDone True, h\<lparr>tnodes := (tnodes h)(n \<mapsto> TNode (branches nd) (Some v))\<rparr>)
       else Some (InsDone False, h))"
| "insert_step cas a _ h = None"

text \<open>\<open>get_val\<close>: the walk from the root, and the subscriber at its end.\<close>

fun heap_get :: "'a theap \<Rightarrow> nat option \<Rightarrow> rstring list \<Rightarrow> 'a option option" where
  "heap_get h p [] = Option.bind p (\<lambda>n. map_option tsub (tnodes h n))"
| "heap_get h p (part # parts) =
     (case p of
        None \<Rightarrow> Some None
      | Some n \<Rightarrow> Option.bind (tnodes h n) (\<lambda>nd.
          case map_of (branches nd) part of None \<Rightarrow> Some None | Some q \<Rightarrow> heap_get h (Some q) parts))"

definition heap_get_val :: "'a theap \<Rightarrow> rstring \<Rightarrow> 'a option option" where
  "heap_get_val h topic = heap_get h (troot h) (split_slash topic)"

section \<open>A thread on its own\<close>

text \<open>Every step may use the next unused address; \<open>None\<close> is a fault or no return.\<close>

partial_function (option) run_insert :: "bool \<Rightarrow> nat \<Rightarrow> 'a ins_pc \<Rightarrow> 'a theap \<Rightarrow> (bool \<times> 'a theap) option" where
  "run_insert cas a pc h =
     (case pc of
        InsDone r \<Rightarrow> Some (r, h)
      | _ \<Rightarrow> Option.bind (insert_step cas a pc h) (\<lambda>r. run_insert cas (Suc a) (fst r) (snd r)))"

declare run_insert.simps [code]

lemma run_insert_step:
  assumes "insert_step cas a pc h = Some (pc', h')"
  shows "run_insert cas a pc h = run_insert cas (Suc a) pc' h'"
proof -
  have "\<not> (\<exists>r. pc = InsDone r)" using assms by auto
  then have "run_insert cas a pc h =
      Option.bind (insert_step cas a pc h) (\<lambda>r. run_insert cas (Suc a) (fst r) (snd r))"
    by (subst run_insert.simps) (cases pc; simp del: insert_step.simps)
  then show ?thesis unfolding assms by simp
qed

lemma run_insert_done [simp]: "run_insert cas a (InsDone r) h = Some (r, h)"
  by (subst run_insert.simps) simp

text \<open>A tree with the address of every node, its shape, and that it is what a heap holds.\<close>

datatype 'a atree = ANode (aroot: nat) "(rstring \<times> 'a atree) list" "'a option"

fun shape :: "'a atree \<Rightarrow> 'a child" where
  "shape (ANode n cs s) = Child (map (\<lambda>(k, t). (k, shape t)) cs) s"

fun addrs :: "'a atree \<Rightarrow> nat list" where
  "addrs (ANode n cs s) = n # concat (map (\<lambda>(k, t). addrs t) cs)"

fun stored :: "(nat \<Rightarrow> 'a tnode option) \<Rightarrow> 'a atree \<Rightarrow> bool" where
  "stored m (ANode n cs s) \<longleftrightarrow>
     m n = Some (TNode (map (\<lambda>(k, t). (k, aroot t)) cs) s) \<and> (\<forall>(k, t) \<in> set cs. stored m t)"

definition holds_tree :: "'a theap \<Rightarrow> 'a child \<Rightarrow> bool" where
  "holds_tree h c \<longleftrightarrow> (\<exists>t b. shape t = c \<and> troot h = Some (aroot t) \<and> stored (tnodes h) t \<and> distinct (addrs t) \<and>
     (\<forall>x \<ge> b. tnodes h x = None))"

lemma aroot_addrs: "aroot t \<in> set (addrs t)"
  by (cases t) simp

lemma stored_cong: "\<forall>x \<in> set (addrs t). m' x = m x \<Longrightarrow> stored m t \<Longrightarrow> stored m' t"
proof (induction t)
  case (ANode n cs s)
  have "stored m' t" if "(k, t) \<in> set cs" for k t
  proof (rule ANode.IH [OF that])
    show "t \<in> Basic_BNFs.snds (k, t)" by simp
    show "\<forall>x \<in> set (addrs t). m' x = m x" using ANode.prems(1) that by auto
    show "stored m t" using ANode.prems(2) that by auto
  qed
  then show ?case using ANode.prems by auto
qed

lemma stored_dom: "stored m t \<Longrightarrow> x \<in> set (addrs t) \<Longrightarrow> m x \<noteq> None"
proof (induction t)
  case (ANode n cs s)
  show ?case
  proof (cases "x = n")
    case False
    then obtain k t where t: "(k, t) \<in> set cs" "x \<in> set (addrs t)" using ANode.prems(2) by auto
    show ?thesis
    proof (rule ANode.IH [OF t(1) _ _ t(2)])
      show "t \<in> Basic_BNFs.snds (k, t)" by simp
      show "stored m t" using ANode.prems(1) t(1) by auto
    qed
  qed (use ANode.prems in simp)
qed

lemma map_of_shape: "map_of (map (\<lambda>(k, t). (k, f t)) cs) p = map_option f (map_of cs p)"
  by (induction cs) auto

lemma map_of_split:
  assumes "map_of cs p = Some c"
  obtains xs ys where "cs = xs @ (p, c) # ys" and "p \<notin> fst ` set xs"
  using assms
proof (induction cs arbitrary: thesis)
  case (Cons kc cs)
  show ?case
  proof (cases "fst kc = p")
    case True
    then show ?thesis using Cons.prems(1) [of "[]" cs] Cons.prems(2) by (cases kc) simp
  next
    case False
    then have "map_of cs p = Some c" using Cons.prems(2) by (cases kc) simp
    then obtain xs ys where "cs = xs @ (p, c) # ys" "p \<notin> fst ` set xs" using Cons.IH by blast
    then show ?thesis using Cons.prems(1) [of "kc # xs" ys] False by simp
  qed
qed simp

lemma update_at: "p \<notin> fst ` set xs \<Longrightarrow> AList.update p d (xs @ (p, c) # ys) = xs @ (p, d) # ys"
  by (induction xs) auto

lemma update_append: "p \<notin> fst ` set xs \<Longrightarrow> AList.update p d xs = xs @ [(p, d)]"
  by (induction xs) auto

lemma map_of_append_new: "map_of cs p = None \<Longrightarrow> map_of (cs @ [(p, c)]) p = Some c"
  by (simp add: map_add_def)

text \<open>
  What the walk from a subtree leaves: the subtree of the result is stored where the old one was, with
  the new addresses from \<open>a\<close> on, and no other node has changed.
\<close>

definition grown :: "nat \<Rightarrow> 'a theap \<Rightarrow> 'a atree \<Rightarrow> 'a theap \<Rightarrow> 'a atree \<Rightarrow> bool" where
  "grown a h t h' t' \<longleftrightarrow> stored (tnodes h') t' \<and> aroot t' = aroot t \<and> distinct (addrs t') \<and>
     set (addrs t') \<subseteq> set (addrs t) \<union> {a..} \<and> troot h' = troot h \<and>
     (\<forall>x < a. x \<notin> set (addrs t) \<longrightarrow> tnodes h' x = tnodes h x) \<and> (\<exists>b. \<forall>x \<ge> b. tnodes h' x = None)"

lemma stored_below: "stored (tnodes h) t \<Longrightarrow> \<forall>x \<ge> a. tnodes h x = None \<Longrightarrow> x \<in> set (addrs t) \<Longrightarrow> x < a"
  by (drule (1) stored_dom) (auto simp: not_le [symmetric])

definition kids :: "(rstring \<times> 'a atree) list \<Rightarrow> nat list" where
  "kids cs = concat (map (\<lambda>(k, t). addrs t) cs)"

lemma addrs_kids: "addrs (ANode n cs s) = n # kids cs"
  by (simp add: kids_def)

lemma kids_append [simp]: "kids (xs @ ys) = kids xs @ kids ys"
  and kids_Cons [simp]: "kids ((k, t) # ys) = addrs t @ kids ys"
  and kids_Nil [simp]: "kids [] = []"
  by (simp_all add: kids_def)

lemma kids_sub: "(k, d) \<in> set cs \<Longrightarrow> x \<in> set (addrs d) \<Longrightarrow> x \<in> set (kids cs)"
  by (force simp: kids_def)

text \<open>The branches stay where they are when none of their nodes has changed.\<close>

definition stored_all :: "(nat \<Rightarrow> 'a tnode option) \<Rightarrow> (rstring \<times> 'a atree) list \<Rightarrow> bool" where
  "stored_all m cs \<longleftrightarrow> (\<forall>(k, t) \<in> set cs. stored m t)"

lemma stored_node: "stored m (ANode n cs s) \<longleftrightarrow>
    m n = Some (TNode (map (\<lambda>(k, t). (k, aroot t)) cs) s) \<and> stored_all m cs"
  by (simp add: stored_all_def)

lemma stored_all_append [simp]: "stored_all m (xs @ ys) \<longleftrightarrow> stored_all m xs \<and> stored_all m ys"
  and stored_all_Cons [simp]: "stored_all m ((k, t) # ys) \<longleftrightarrow> stored m t \<and> stored_all m ys"
  and stored_all_Nil [simp]: "stored_all m []"
  by (auto simp: stored_all_def)

lemma stored_all_cong:
  assumes "\<forall>x \<in> set (kids cs). m' x = m x" and "stored_all m cs"
  shows "stored_all m' cs"
  unfolding stored_all_def
proof clarify
  fix k d assume d: "(k, d) \<in> set cs"
  show "stored m' d"
    by (rule stored_cong [of d m' m]) (use assms d kids_sub [OF d] in \<open>auto simp: stored_all_def\<close>)
qed

declare stored.simps [simp del] addrs.simps [simp del]
declare stored_node [simp] addrs_kids [simp]

text \<open>The subtree of a branch has grown, and so has the tree.\<close>

lemma grown_branch:
  assumes t: "t = ANode n (xs @ (p, c) # ys) s" and st: "stored (tnodes h) t" and di: "distinct (addrs t)"
    and fr: "\<forall>x \<ge> a. tnodes h x = None" and g: "grown b h c h' c'" and ab: "a \<le> b"
  shows "grown a h t h' (ANode n (xs @ (p, c') # ys) s)"
proof -
  have A: "addrs t = n # kids xs @ addrs c @ kids ys" by (simp add: t)
  let ?rest = "insert n (set (kids xs) \<union> set (kids ys))"
  have low: "x < b" if "x \<in> set (addrs t)" for x using stored_below [OF st fr that] ab by simp
  have out: "x \<notin> set (addrs c)" if "x \<in> ?rest" for x using that di A by auto
  have keep: "tnodes h' x = tnodes h x" if "x \<in> ?rest" for x
    using g low [of x] out [OF that] that A by (auto simp: grown_def)
  have disj: "x \<notin> ?rest" if "x \<in> set (addrs c')" for x
    using g that low [of x] out [of x] A by (auto simp: grown_def)
  have xs: "stored_all (tnodes h') xs" and ys: "stored_all (tnodes h') ys"
    by (rule stored_all_cong [of _ _ "tnodes h"]; use st keep in \<open>simp add: t\<close>)+
  have "stored (tnodes h') (ANode n (xs @ (p, c') # ys) s)"
    using keep [of n] xs ys g st by (simp add: t grown_def)
  moreover have "distinct (addrs (ANode n (xs @ (p, c') # ys) s))"
    using di g disj unfolding A grown_def by auto
  moreover have "set (addrs (ANode n (xs @ (p, c') # ys) s)) \<subseteq> set (addrs t) \<union> {a..}"
    using g ab unfolding A grown_def by auto
  moreover have "\<forall>x < a. x \<notin> set (addrs t) \<longrightarrow> tnodes h' x = tnodes h x"
    using g ab unfolding A grown_def by auto
  ultimately show ?thesis using g unfolding grown_def by (simp add: t)
qed

lemma insert_walk:
  assumes "stored (tnodes h) t" and "distinct (addrs t)" and "\<forall>x \<ge> a. tnodes h x = None"
    and "load_slot h cur = Some (Some (aroot t))" and "\<forall>n k. cur = Some (n, k) \<longrightarrow> n \<notin> set (addrs t)"
  shows "\<exists>r t' h'. run_insert cas a (InsLoad cur ps v) h = Some (r, h') \<and>
    trie_insert_parts cas v ps (shape t) = Some (r, shape t') \<and> grown a h t h' t'"
  using assms
proof (induction ps arbitrary: t a cur h)
  case Nil
  obtain n cs s where t: "t = ANode n cs s" by (cases t) auto
  let ?w = "s = None \<and> cas"
  let ?s = "if ?w then Some v else s"
  let ?h = "if ?w then h\<lparr>tnodes := (tnodes h)(n \<mapsto> TNode (map (\<lambda>(k, t). (k, aroot t)) cs) (Some v))\<rparr> else h"
  have "run_insert cas a (InsLoad cur [] v) h = run_insert cas (Suc a) (InsSet n v) h"
    by (rule run_insert_step) (use Nil.prems(4) t in simp)
  also have "\<dots> = run_insert cas (Suc (Suc a)) (InsDone ?w) ?h"
    by (rule run_insert_step) (use Nil.prems(1) t in auto)
  finally have "run_insert cas a (InsLoad cur [] v) h = Some (?w, ?h)" by simp
  moreover have "trie_insert_parts cas v [] (shape t) = Some (?w, shape (ANode n cs ?s))" by (simp add: t)
  moreover have "stored (tnodes ?h) (ANode n cs ?s)"
  proof -
    have "\<forall>x \<in> set (kids cs). tnodes ?h x = tnodes h x" using Nil.prems(2) by (auto simp: t)
    then have "stored_all (tnodes ?h) cs" by (rule stored_all_cong) (use Nil.prems(1) t in simp)
    then show ?thesis using Nil.prems(1) t by auto
  qed
  moreover have "n < a" using stored_below [OF Nil.prems(1,3)] by (simp add: t)
  then have "grown a h t ?h (ANode n cs ?s)"
    using Nil.prems(2,3) calculation(3) unfolding grown_def t by (auto intro!: exI [of _ a])
  ultimately show ?case by blast
next
  case (Cons p ps)
  obtain n cs s where t: "t = ANode n cs s" by (cases t) auto
  have present: "\<exists>r t' h'. run_insert cas b (InsLoad cur (p # ps) v) k = Some (r, h') \<and>
      trie_insert_parts cas v (p # ps) (shape u) = Some (r, shape t') \<and> grown b k u h' t'"
    if u: "u = ANode n ds s" and p: "map_of ds p = Some c" and st: "stored (tnodes k) u"
      and di: "distinct (addrs u)" and fr: "\<forall>x \<ge> b. tnodes k x = None"
      and ld: "load_slot k cur = Some (Some n)" for u ds c b k
  proof -
    obtain xs ys where ds: "ds = xs @ (p, c) # ys" "p \<notin> fst ` set xs" using map_of_split [OF p] .
    have node: "tnodes k n = Some (TNode (map (\<lambda>(k, t). (k, aroot t)) ds) s)" using st u by simp
    have "run_insert cas b (InsLoad cur (p # ps) v) k = run_insert cas (Suc b) (InsGet cur n (p # ps) v) k"
      by (rule run_insert_step) (use ld in simp)
    also have "\<dots> = run_insert cas (Suc (Suc b)) (InsLoad (Some (n, p)) ps v) k"
      by (rule run_insert_step) (simp add: node map_of_shape p)
    finally have run: "run_insert cas b (InsLoad cur (p # ps) v) k =
      run_insert cas (Suc (Suc b)) (InsLoad (Some (n, p)) ps v) k" .
    have "stored (tnodes k) c" "distinct (addrs c)" "n \<notin> set (addrs c)" using st di unfolding u ds by auto
    moreover have "load_slot k (Some (n, p)) = Some (Some (aroot c))"
      by (simp add: load_slot_def node map_of_shape p)
    ultimately obtain r c' h' where IH:
      "run_insert cas (Suc (Suc b)) (InsLoad (Some (n, p)) ps v) k = Some (r, h')"
      "trie_insert_parts cas v ps (shape c) = Some (r, shape c')" "grown (Suc (Suc b)) k c h' c'"
      using Cons.IH [of k c "Suc (Suc b)" "Some (n, p)"] fr by auto
    have "grown b k u h' (ANode n (xs @ (p, c') # ys) s)"
      using grown_branch [OF _ st di fr IH(3)] by (simp add: u ds)
    moreover have "p \<notin> fst ` set (map (\<lambda>(k, t). (k, shape t)) xs)" using ds(2) by force
    then have "trie_insert_parts cas v (p # ps) (shape u) = Some (r, shape (ANode n (xs @ (p, c') # ys) s))"
      using IH(2) map_of_shape [of shape ds p] p by (simp add: u ds(1) update_at del: map_of_append)
    ultimately show ?thesis using run IH(1) by (metis (no_types))
  qed
  show ?case
  proof (cases "map_of cs p")
    case (Some c)
    then show ?thesis using present [OF t Some] Cons.prems(1-4) by (simp add: t)
  next
    case None
    let ?a = "Suc (Suc a)" and ?n = "TNode (map (\<lambda>(k, t). (k, aroot t)) cs @ [(p, Suc (Suc a))]) s"
    let ?h = "h\<lparr>tnodes := (tnodes h)(?a \<mapsto> TNode [] None, n \<mapsto> ?n)\<rparr>"
    let ?u = "ANode n (cs @ [(p, ANode ?a [] None)]) s"
    have node: "tnodes h n = Some (TNode (map (\<lambda>(k, t). (k, aroot t)) cs) s)" using Cons.prems(1) t by simp
    have below: "x < a" if "x \<in> set (addrs t)" for x using stored_below [OF Cons.prems(1,3) that] .
    have free: "p \<notin> fst ` set (map (\<lambda>(k, t). (k, f t)) cs)" for f :: "'a atree \<Rightarrow> 'b"
      using None by (force simp: map_of_eq_None_iff)
    have "run_insert cas a (InsLoad cur (p # ps) v) h = run_insert cas (Suc a) (InsGet cur n (p # ps) v) h"
      by (rule run_insert_step) (use Cons.prems(4) t in simp)
    also have "\<dots> = run_insert cas ?a (InsCreate cur n (p # ps) v) h"
      by (rule run_insert_step) (simp add: node map_of_shape None)
    also have "\<dots> = run_insert cas (Suc ?a) (InsLoad cur (p # ps) v) ?h"
      by (rule run_insert_step) (simp add: node update_append [OF free])
    finally have run: "run_insert cas a (InsLoad cur (p # ps) v) h =
      run_insert cas (Suc ?a) (InsLoad cur (p # ps) v) ?h" .
    have n: "n < a" using below by (simp add: t)
    have A: "addrs t = n # kids cs" and B: "addrs ?u = n # kids cs @ [?a]"
      by (simp_all add: t)
    have same: "\<forall>x \<in> set (kids cs). tnodes ?h x = tnodes h x"
      using below Cons.prems(2) unfolding A by fastforce
    have "stored_all (tnodes ?h) cs"
      by (rule stored_all_cong [OF same]) (use Cons.prems(1) t in simp)
    then have "stored (tnodes ?h) ?u" using n by auto
    moreover have "distinct (addrs ?u)" using Cons.prems(2) below unfolding A B by fastforce
    moreover have "\<forall>x \<ge> Suc ?a. tnodes ?h x = None" using Cons.prems(3) n by auto
    moreover have "load_slot ?h cur = Some (Some n)"
      using Cons.prems(3,4,5) t by (auto simp: load_slot_def split: option.splits prod.splits bind_splits)
    ultimately obtain r t' h' where res: "run_insert cas (Suc ?a) (InsLoad cur (p # ps) v) ?h = Some (r, h')"
      "trie_insert_parts cas v (p # ps) (shape ?u) = Some (r, shape t')" "grown (Suc ?a) ?h ?u h' t'"
      using present [OF refl map_of_append_new [OF None], where k = ?h and b = "Suc ?a"] by blast
    have "trie_insert_parts cas v (p # ps) (shape t) = trie_insert_parts cas v (p # ps) (shape ?u)"
    proof -
      have "AList.update p b (map (\<lambda>(k, t). (k, shape t)) cs @ [(p, Child [] None)]) =
          AList.update p b (map (\<lambda>(k, t). (k, shape t)) cs)" for b
        using update_at [OF free [of shape], where d = b and c = "Child [] None" and ys = "[]"] update_append [OF free [of shape], of b] by simp
      moreover have "map_of (map (\<lambda>(k, t). (k, shape t)) cs) p = None" by (simp add: map_of_shape None)
      ultimately show ?thesis using None by (simp add: t map_add_def child_new_def)
    qed
    moreover have "grown a h t h' t'"
      using res(3) n unfolding grown_def A B by (auto simp: t)
    ultimately show ?thesis using run res(1,2) by (metis (no_types))
  qed
qed

lemma heap_get_shape: "stored (tnodes h) t \<Longrightarrow> heap_get h (Some (aroot t)) ps = Some (sub_at (shape t) ps)"
proof (induction ps arbitrary: t)
  case Nil
  then show ?case by (cases t) simp
next
  case (Cons p ps)
  obtain n cs s where t: "t = ANode n cs s" by (cases t) auto
  have "stored (tnodes h) b" if "map_of cs p = Some b" for b
    using Cons.prems map_of_SomeD [OF that] by (auto simp: t stored_all_def)
  then show ?case using Cons.IH Cons.prems by (auto simp: t map_of_shape split: option.splits)
qed

lemma heap_get_val_shape:
  assumes "stored (tnodes h) t" and "troot h = Some (aroot t)"
  shows "heap_get_val h topic = Some (sub_at (shape t) (split_slash topic))"
  using heap_get_shape [OF assms(1)] assms(2) by (simp add: heap_get_val_def)

lemma holds_grown:
  assumes "grown a h t h' t'" and "troot h = Some (aroot t)"
  shows "troot h' = Some (aroot t')" and "holds_tree h' (shape t')"
  using assms unfolding grown_def holds_tree_def by auto

lemma insert_root:
  assumes "stored (tnodes h) t" and "distinct (addrs t)" and "\<forall>x \<ge> a. tnodes h x = None"
    and "troot h = Some (aroot t)"
  shows "\<exists>r t' h'. run_insert cas a (InsLoad None ps v) h = Some (r, h') \<and>
    trie_insert_parts cas v ps (shape t) = Some (r, shape t') \<and> grown a h t h' t'"
  by (rule insert_walk) (use assms in \<open>simp_all add: load_slot_def\<close>)

section \<open>Several threads\<close>

record 'a tconfig =
  tthreads :: "'a ins_pc list"
  tstore :: "'a theap"

abbreviation returned :: "'a ins_pc \<Rightarrow> bool" where
  "returned pc \<equiv> \<exists>r. pc = InsDone r"

text \<open>Thread \<open>i\<close> goes one step; \<open>a\<close> is an address the allocator may give, \<open>cas\<close> as above.\<close>

inductive tstep :: "'a tconfig \<Rightarrow> 'a tconfig \<Rightarrow> bool" where
  go: "tstep c \<lparr>tthreads = (tthreads c)[i := pc'], tstore = h'\<rparr>"
    if "i < length (tthreads c)" "tnodes (tstore c) a = None"
      "insert_step cas a (tthreads c ! i) (tstore c) = Some (pc', h')"

abbreviation tsteps :: "'a tconfig \<Rightarrow> 'a tconfig \<Rightarrow> bool" where
  "tsteps \<equiv> tstep\<^sup>*\<^sup>*"

definition inserting :: "(rstring \<times> 'a) list \<Rightarrow> 'a theap \<Rightarrow> 'a tconfig" where
  "inserting calls h =
     \<lparr>tthreads = map (\<lambda>(topic, v). InsLoad None (split_slash topic) v) calls, tstore = h\<rparr>"

text \<open>A thread may run to its end while the others stand still.\<close>

lemma insert_step_fresh:
  assumes "insert_step cas a pc h = Some (pc', h')" and "\<forall>x \<ge> a. tnodes h x = None"
  shows "\<forall>x \<ge> Suc a. tnodes h' x = None"
  using assms
  by (cases "(cas, a, pc, h)" rule: insert_step.cases)
    (auto simp: store_slot_def split: option.splits bind_splits if_splits prod.splits)

lemma run_insert_tsteps:
  assumes "run_insert cas a pc h = Some (r, h')" and "i < length ts" and "ts ! i = pc"
    and "\<forall>x \<ge> a. tnodes h x = None"
  shows "tsteps \<lparr>tthreads = ts, tstore = h\<rparr> \<lparr>tthreads = ts[i := InsDone r], tstore = h'\<rparr>"
proof -
  let ?P = "\<lambda>cas a pc h y. \<forall>ts. i < length ts \<longrightarrow> ts ! i = pc \<longrightarrow> (\<forall>x \<ge> a. tnodes h x = None) \<longrightarrow>
    tsteps \<lparr>tthreads = ts, tstore = h\<rparr> \<lparr>tthreads = ts[i := InsDone (fst y)], tstore = snd y\<rparr>"
  have "?P cas a pc h (r, h')"
  proof (rule run_insert.raw_induct [where P = ?P, OF _ assms(1)], intro allI impI, goal_cases)
    case (1 run cas a pc h y ts)
    show ?case
    proof (cases "\<exists>r. pc = InsDone r")
      case True
      then obtain r where "ts ! i = InsDone r" using 1(4) by blast
      then show ?thesis using 1(2,4) list_update_id [of ts i] by auto
    next
      case False
      then have "Option.bind (insert_step cas a pc h) (\<lambda>r. run cas (Suc a) (fst r) (snd r)) = Some y"
        using 1(2) by (cases pc) (simp_all del: insert_step.simps)
      then obtain pc1 h1 where step: "insert_step cas a pc h = Some (pc1, h1)" "run cas (Suc a) pc1 h1 = Some y"
        by (auto split: bind_splits)
      have "tstep \<lparr>tthreads = ts, tstore = h\<rparr> \<lparr>tthreads = ts[i := pc1], tstore = h1\<rparr>"
        using tstep.go [of i "\<lparr>tthreads = ts, tstore = h\<rparr>" a cas pc1 h1] 1(3,4,5) step(1) by simp
      moreover have "tsteps \<lparr>tthreads = ts[i := pc1], tstore = h1\<rparr>
          \<lparr>tthreads = ts[i := pc1, i := InsDone (fst y)], tstore = snd y\<rparr>"
        using 1(1) [OF step(2), rule_format, of "ts[i := pc1]"] 1(3) insert_step_fresh [OF step(1) 1(5)] by simp
      ultimately show ?thesis by (simp add: converse_rtranclp_into_rtranclp)
    qed
  qed
  then show ?thesis using assms by simp
qed

subsection \<open>Branches that exist\<close>

text \<open>The branches of the nodes, and the node a topic leads to over them.\<close>

definition maps :: "'a theap \<Rightarrow> nat \<Rightarrow> (rstring \<times> nat) list option" where
  "maps h n = map_option branches (tnodes h n)"

lemma maps_node [simp]: "tnodes h n = Some nd \<Longrightarrow> maps h n = Some (branches nd)"
  by (simp add: maps_def)

fun walk :: "(nat \<Rightarrow> (rstring \<times> nat) list option) \<Rightarrow> nat \<Rightarrow> rstring list \<Rightarrow> nat option" where
  "walk B n [] = (if B n = None then None else Some n)"
| "walk B n (p # ps) = Option.bind (B n) (\<lambda>cs. Option.bind (map_of cs p) (\<lambda>q. walk B q ps))"

definition node_of :: "'a theap \<Rightarrow> rstring \<Rightarrow> nat option" where
  "node_of h topic = Option.bind (troot h) (\<lambda>n. walk (maps h) n (split_slash topic))"

lemma walk_stored:
  "stored (tnodes h) t \<Longrightarrow> walk (maps h) (aroot t) ps = Some n \<Longrightarrow> n \<in> set (addrs t)"
proof (induction ps arbitrary: t)
  case Nil
  then show ?case by (cases t) (auto split: if_splits)
next
  case (Cons p ps)
  obtain r cs s where t: "t = ANode r cs s" by (cases t) auto
  then obtain c where c: "map_of cs p = Some c" "walk (maps h) (aroot c) ps = Some n"
    using Cons.prems by (auto simp: map_of_shape split: bind_splits)
  then have "(p, c) \<in> set cs" by (blast dest: map_of_SomeD)
  moreover from this have "stored (tnodes h) c" using Cons.prems(1) by (auto simp: t stored_all_def)
  ultimately show ?case using Cons.IH c(2) kids_sub by (fastforce simp: t)
qed

text \<open>Two topics lead to two nodes.\<close>

lemma kids_same:
  assumes "distinct (kids cs)" and "(k, c) \<in> set cs" and "(l, d) \<in> set cs"
    and "x \<in> set (addrs c)" and "x \<in> set (addrs d)"
  shows "(k, c) = (l, d)"
  using assms
proof (induction cs)
  case (Cons e cs)
  then show ?case using kids_sub [of _ _ cs x] by (cases e) fastforce
qed simp

lemma walk_inj:
  "stored (tnodes h) t \<Longrightarrow> distinct (addrs t) \<Longrightarrow> walk (maps h) (aroot t) ps = Some n \<Longrightarrow>
    walk (maps h) (aroot t) qs = Some n \<Longrightarrow> ps = qs"
proof (induction ps arbitrary: t qs)
  case Nil
  obtain r cs s where t: "t = ANode r cs s" by (cases t) auto
  then have n: "n = r" using Nil.prems(3) by (auto split: if_splits)
  show ?case
  proof (cases qs)
    case (Cons q qs')
    then obtain c where c: "map_of cs q = Some c" "walk (maps h) (aroot c) qs' = Some n"
      using Nil.prems by (auto simp: t map_of_shape split: bind_splits)
    then have "(q, c) \<in> set cs" by (blast dest: map_of_SomeD)
    moreover from this have "stored (tnodes h) c" using Nil.prems(1) by (auto simp: t stored_all_def)
    ultimately have "n \<in> set (kids cs)" using walk_stored c(2) kids_sub by metis
    then show ?thesis using Nil.prems(2) n by (simp add: t)
  qed simp
next
  case (Cons p ps)
  obtain r cs s where t: "t = ANode r cs s" by (cases t) auto
  obtain c where c: "map_of cs p = Some c" "walk (maps h) (aroot c) ps = Some n"
    using Cons.prems by (auto simp: t map_of_shape split: bind_splits)
  have pc: "(p, c) \<in> set cs" using c(1) by (rule map_of_SomeD)
  then have st: "stored (tnodes h) c" using Cons.prems(1) by (auto simp: t stored_all_def)
  then have n: "n \<in> set (addrs c)" using walk_stored c(2) by blast
  show ?case
  proof (cases qs)
    case Nil
    then have "n = r" using Cons.prems(4) t by (auto split: if_splits)
    then show ?thesis using n kids_sub [OF pc] Cons.prems(2) by (auto simp: t)
  next
    case (Cons q qs')
    obtain d where d: "map_of cs q = Some d" "walk (maps h) (aroot d) qs' = Some n"
      using Cons Cons.prems by (auto simp: t map_of_shape split: bind_splits)
    have qd: "(q, d) \<in> set cs" using d(1) by (rule map_of_SomeD)
    have "stored (tnodes h) d" using Cons.prems(1) qd by (auto simp: t stored_all_def)
    then have "n \<in> set (addrs d)" using walk_stored d(2) by blast
    then have "(p, c) = (q, d)" using kids_same [OF _ pc qd n] Cons.prems(2) by (simp add: t)
    moreover have "distinct (addrs c)"
      using map_of_split [OF c(1)] Cons.prems(2) unfolding t by (metis addrs_kids distinct.simps(2) distinct_append kids_Cons kids_append)
    ultimately show ?thesis using Cons.IH [OF st _ c(2)] d(2) Cons by simp
  qed
qed

lemma maps_Some: "maps h n = Some cs \<longleftrightarrow> (\<exists>s. tnodes h n = Some (TNode cs s))"
  by (auto simp: maps_def) (metis tnode.collapse)

lemma heap_get_walk:
  "walk (maps h) n ps = Some k \<Longrightarrow> heap_get h (Some n) ps = Some (tsub (the (tnodes h k)))"
  by (induction ps arbitrary: n) (auto simp: maps_Some split: bind_splits if_splits)

lemma heap_get_found:
  "heap_get h (Some n) ps = Some (Some v) \<Longrightarrow>
    \<exists>k nd. walk (maps h) n ps = Some k \<and> tnodes h k = Some nd \<and> tsub nd = Some v"
  by (induction ps arbitrary: n) (auto split: bind_splits option.splits)

lemma node_of_found:
  "heap_get_val h topic = Some (Some v) \<longleftrightarrow>
    (\<exists>k nd. node_of h topic = Some k \<and> tnodes h k = Some nd \<and> tsub nd = Some v)"
proof (cases "troot h")
  case None
  then show ?thesis by (cases "split_slash topic") (auto simp: heap_get_val_def node_of_def)
next
  case (Some r)
  then show ?thesis
    using heap_get_found [of h r "split_slash topic" v] heap_get_walk [of h r "split_slash topic"]
    by (auto simp: heap_get_val_def node_of_def)
qed

text \<open>
  Where a thread with this call may be when every branch of its topic exists: on the way to the topic's
  node, at it, or back; after a success the node has the thread's value.
\<close>

fun on_way :: "'a theap \<Rightarrow> rstring \<Rightarrow> 'a \<Rightarrow> 'a theap \<Rightarrow> 'a ins_pc \<Rightarrow> bool" where
  "on_way h0 topic v h (InsLoad cur ps w) \<longleftrightarrow> w = v \<and>
     (\<exists>n. load_slot h0 cur = Some (Some n) \<and> walk (maps h0) n ps = node_of h0 topic)"
| "on_way h0 topic v h (InsGet cur n ps w) \<longleftrightarrow> w = v \<and> ps \<noteq> [] \<and> walk (maps h0) n ps = node_of h0 topic"
| "on_way h0 topic v h (InsSet n w) \<longleftrightarrow> w = v \<and> node_of h0 topic = Some n"
| "on_way h0 topic v h (InsDone r) \<longleftrightarrow> (r \<longrightarrow>
     (\<exists>n nd. node_of h0 topic = Some n \<and> tnodes h n = Some nd \<and> tsub nd = Some v))"
| "on_way h0 topic v h _ \<longleftrightarrow> False"

text \<open>The nodes and branches are those of the start; a subscriber that is new is that of a thread.\<close>

definition put_by :: "(rstring \<times> 'a) list \<Rightarrow> 'a theap \<Rightarrow> 'a ins_pc list \<Rightarrow> nat \<Rightarrow> 'a \<Rightarrow> bool" where
  "put_by calls h0 ts n v \<longleftrightarrow> (\<exists>i < length ts. \<exists>topic. calls ! i = (topic, v) \<and> ts ! i = InsDone True \<and>
     node_of h0 topic = Some n)"

definition settled :: "(rstring \<times> 'a) list \<Rightarrow> 'a theap \<Rightarrow> 'a ins_pc list \<Rightarrow> 'a theap \<Rightarrow> nat \<Rightarrow> bool" where
  "settled calls h0 ts h n \<longleftrightarrow> (case tnodes h0 n of
     None \<Rightarrow> tnodes h n = None
   | Some nd0 \<Rightarrow> (\<exists>nd. tnodes h n = Some nd \<and> branches nd = branches nd0 \<and>
       (tsub nd = tsub nd0 \<or> tsub nd0 = None \<and> (\<exists>v. tsub nd = Some v \<and> put_by calls h0 ts n v))))"

definition insert_inv :: "(rstring \<times> 'a) list \<Rightarrow> 'a theap \<Rightarrow> 'a tconfig \<Rightarrow> bool" where
  "insert_inv calls h0 c \<longleftrightarrow> length (tthreads c) = length calls \<and> troot (tstore c) = troot h0 \<and>
     (\<forall>n. settled calls h0 (tthreads c) (tstore c) n) \<and>
     (\<forall>i < length calls. on_way h0 (fst (calls ! i)) (snd (calls ! i)) (tstore c) (tthreads c ! i))"

lemma settled_maps:
  assumes "\<And>n. settled calls h0 ts h n"
  shows "maps h = maps h0"
proof
  fix n show "maps h n = maps h0 n"
    using assms [of n] by (auto simp: settled_def maps_def split: option.splits)
qed

lemma load_slot_maps: "load_slot h cur =
    (case cur of None \<Rightarrow> Some (troot h) | Some (n, k) \<Rightarrow> Option.bind (maps h n) (\<lambda>cs. map_option Some (map_of cs k)))"
  by (auto simp: load_slot_def maps_def split: option.splits bind_splits)

lemma load_slot_same: "maps h = maps h0 \<Longrightarrow> troot h = troot h0 \<Longrightarrow> load_slot h cur = load_slot h0 cur"
  by (cases cur) (auto simp: load_slot_maps)

text \<open>A step of a thread on its way: no fault, and the nodes are as they were, or the topic's
  subscriber is set and the thread is back with success.\<close>

lemma on_way_step:
  assumes w: "on_way h0 topic v h pc" and node: "node_of h0 topic \<noteq> None"
    and same: "maps h = maps h0" "troot h = troot h0" and run: "\<not> returned pc"
  shows "\<exists>pc' h'. insert_step cas a pc h = Some (pc', h') \<and> on_way h0 topic v h' pc' \<and>
    (h' = h \<and> pc' \<noteq> InsDone True \<or>
     (\<exists>n nd. pc' = InsDone True \<and> node_of h0 topic = Some n \<and> tnodes h n = Some nd \<and> tsub nd = None \<and>
        h' = h\<lparr>tnodes := (tnodes h)(n \<mapsto> TNode (branches nd) (Some v))\<rparr>))"
proof (cases pc)
  case (InsLoad cur ps x)
  then obtain n where n: "x = v" "load_slot h cur = Some (Some n)" "walk (maps h0) n ps = node_of h0 topic"
    using w load_slot_same [OF same] by auto
  show ?thesis using n InsLoad node by (cases ps) (auto split: if_splits)
next
  case (InsGet cur n ps x)
  then obtain p qs cs q where ps: "x = v" "ps = p # qs" "maps h0 n = Some cs" "map_of cs p = Some q"
      "walk (maps h0) q qs = node_of h0 topic"
    using w node by (cases ps) (auto split: bind_splits)
  then obtain s where "tnodes h n = Some (TNode cs s)" using same maps_Some by metis
  then show ?thesis using InsGet ps by (auto simp: load_slot_maps)
next
  case (InsSet n x)
  have "\<exists>nd. tnodes h n = Some nd"
  proof -
    have "\<exists>r. walk (maps h0) r (split_slash topic) = Some n" using w InsSet by (auto simp: node_of_def split: bind_splits)
    moreover have "walk B r ps = Some n \<Longrightarrow> B n \<noteq> None" for B r and ps :: "rstring list"
      by (induction ps arbitrary: r) (auto split: bind_splits if_splits)
    ultimately have "maps h n \<noteq> None" using same by auto
    then show ?thesis by (auto simp: maps_def)
  qed
  then show ?thesis using InsSet w by auto
qed (use w run in auto)

lemma insert_inv_start:
  assumes "\<forall>(topic, v) \<in> set calls. node_of h topic \<noteq> None"
  shows "insert_inv calls h (inserting calls h)"
proof -
  have "on_way h (fst (calls ! i)) (snd (calls ! i)) h (tthreads (inserting calls h) ! i)" if i: "i < length calls" for i
  proof -
    obtain topic v where c: "calls ! i = (topic, v)" by fastforce
    then have "node_of h topic \<noteq> None" using assms nth_mem [OF i] by fastforce
    then show ?thesis using c i by (auto simp: inserting_def load_slot_def node_of_def split: bind_splits)
  qed
  then show ?thesis by (auto simp: insert_inv_def inserting_def settled_def split: option.split)
qed

lemma settled_other:
  assumes "settled calls h0 ts h n" and "\<not> returned (ts ! i)"
  shows "settled calls h0 (ts[i := pc]) h n"
proof -
  have "put_by calls h0 (ts[i := pc]) n v" if p: "put_by calls h0 ts n v" for v
  proof -
    obtain j topic where j: "j < length ts" "calls ! j = (topic, v)" "ts ! j = InsDone True"
      "node_of h0 topic = Some n" using p by (auto simp: put_by_def)
    then have "j \<noteq> i" using assms(2) by auto
    then show ?thesis using j by (auto simp: put_by_def intro!: exI [of _ j])
  qed
  then show ?thesis using assms(1) by (auto simp: settled_def split: option.splits)
qed

lemma on_way_kept:
  assumes "on_way h0 topic v h pc" and "\<And>n nd w. tnodes h n = Some nd \<Longrightarrow> tsub nd = Some w \<Longrightarrow>
    \<exists>nd'. tnodes h' n = Some nd' \<and> tsub nd' = Some w"
  shows "on_way h0 topic v h' pc"
proof (cases pc)
  case (InsDone r)
  show ?thesis
  proof (cases r)
    case True
    then obtain n nd where "node_of h0 topic = Some n" "tnodes h n = Some nd" "tsub nd = Some v"
      using assms(1) InsDone by auto
    moreover from assms(2) [OF this(2,3)] obtain nd' where "tnodes h' n = Some nd'" "tsub nd' = Some v" by blast
    ultimately show ?thesis using InsDone by simp
  qed (use InsDone in simp)
qed (use assms(1) in simp_all)

lemma insert_inv_step:
  assumes inv: "insert_inv calls h0 c" and st: "tstep c c'"
    and nodes: "\<forall>(topic, v) \<in> set calls. node_of h0 topic \<noteq> None"
  shows "insert_inv calls h0 c'"
  using st
proof cases
  case (go i a cas pc' h')
  let ?ts = "tthreads c" and ?h = "tstore c"
  note I = inv [unfolded insert_inv_def]
  have len: "length ?ts = length calls" and i: "i < length calls" using I go(2) by auto
  obtain topic v where call: "calls ! i = (topic, v)" by fastforce
  have same: "maps ?h = maps h0" "troot ?h = troot h0" using settled_maps I by blast+
  have run: "\<not> returned (?ts ! i)" using go(4) by auto
  have w: "on_way h0 topic v ?h (?ts ! i)" using I i call by fastforce
  have "node_of h0 topic \<noteq> None" using nodes nth_mem [OF i] call by fastforce
  from on_way_step [OF w this same run, of cas a] go(4)
  have w': "on_way h0 topic v h' pc'" and ch: "h' = ?h \<and> pc' \<noteq> InsDone True \<or>
     (\<exists>n nd. pc' = InsDone True \<and> node_of h0 topic = Some n \<and> tnodes ?h n = Some nd \<and> tsub nd = None \<and>
        h' = ?h\<lparr>tnodes := (tnodes ?h)(n \<mapsto> TNode (branches nd) (Some v))\<rparr>)" by auto
  have old: "settled calls h0 (?ts[i := pc']) ?h n" for n using I run by (blast intro: settled_other)
  have "settled calls h0 (?ts[i := pc']) h' n \<and> troot h' = troot h0" for n
    using ch
  proof
    assume "h' = ?h \<and> pc' \<noteq> InsDone True"
    then show ?thesis using old same by simp
  next
    assume "\<exists>n nd. pc' = InsDone True \<and> node_of h0 topic = Some n \<and> tnodes ?h n = Some nd \<and> tsub nd = None \<and>
        h' = ?h\<lparr>tnodes := (tnodes ?h)(n \<mapsto> TNode (branches nd) (Some v))\<rparr>"
    then obtain m nd where m: "pc' = InsDone True" "node_of h0 topic = Some m" "tnodes ?h m = Some nd"
      "tsub nd = None" "h' = ?h\<lparr>tnodes := (tnodes ?h)(m \<mapsto> TNode (branches nd) (Some v))\<rparr>" by blast
    have "put_by calls h0 (?ts[i := pc']) m v"
      unfolding put_by_def using i len call m by (auto intro!: exI [of _ i])
    then show ?thesis
      using old [of n] m same by (cases "n = m") (auto simp: settled_def split: option.splits)
  qed
  moreover have keep: "\<exists>nd'. tnodes h' n = Some nd' \<and> tsub nd' = Some w"
    if "tnodes ?h n = Some nd" "tsub nd = Some w" for n nd w
    using ch that by (auto split: if_splits)
  have "on_way h0 (fst (calls ! j)) (snd (calls ! j)) h' (?ts[i := pc'] ! j)" if j: "j < length calls" for j
  proof (cases "j = i")
    case True
    then show ?thesis using w' call len j by simp
  next
    case False
    have "on_way h0 (fst (calls ! j)) (snd (calls ! j)) ?h (?ts ! j)" using I j by blast
    then show ?thesis using on_way_kept [OF _ keep] False by simp
  qed
  ultimately show ?thesis unfolding insert_inv_def go(1) using len by auto
qed

lemma insert_inv_steps:
  assumes "tsteps (inserting calls h) c" and "\<forall>(topic, v) \<in> set calls. node_of h topic \<noteq> None"
  shows "insert_inv calls h c"
  using assms(1)
proof induction
  case base
  then show ?case using assms(2) by (rule insert_inv_start)
next
  case (step c c')
  then show ?case using insert_inv_step assms(2) by blast
qed

subsection \<open>A branch made twice\<close>

text \<open>A new branch in place of the one under a key of the root, with nothing below it.\<close>

lemma create_over:
  assumes st: "stored (tnodes h) (ANode n cs s)" and di: "distinct (addrs (ANode n cs s))"
    and fr: "\<forall>x \<ge> a. tnodes h x = None" and rt: "troot h = Some n"
    and key: "map_of cs p = Some b"
  obtains h' cs' where "insert_step cas a (InsCreate None n (p # ps) v) h = Some (InsLoad None (p # ps) v, h')"
    and "stored (tnodes h') (ANode n cs' s)" and "distinct (addrs (ANode n cs' s))"
    and "\<forall>x \<ge> Suc a. tnodes h' x = None" and "troot h' = Some n"
    and "map_of cs' p = Some (ANode a [] None)" and "\<And>q. q \<noteq> p \<Longrightarrow> map_of cs' q = map_of cs q"
    and "map fst cs' = map fst cs"
proof -
  obtain xs ys where cs: "cs = xs @ (p, b) # ys" "p \<notin> fst ` set xs" using map_of_split [OF key] .
  let ?cs = "xs @ (p, ANode a [] None) # ys"
  let ?h = "h\<lparr>tnodes := (tnodes h)(a \<mapsto> TNode [] None, n \<mapsto> TNode (map (\<lambda>(k, t). (k, aroot t)) ?cs) s)\<rparr>"
  have below: "x < a" if "x \<in> set (addrs (ANode n cs s))" for x using stored_below [OF st fr that] .
  have "p \<notin> fst ` set (map (\<lambda>(k, t). (k, aroot t)) xs)" using cs(2) by force
  then have "insert_step cas a (InsCreate None n (p # ps) v) h = Some (InsLoad None (p # ps) v, ?h)"
    using st by (simp add: cs update_at)
  moreover have same: "tnodes ?h x = tnodes h x" if "x \<in> set (kids xs) \<union> set (kids ys)" for x
    using that below [of x] di by (auto simp: cs)
  then have "stored_all (tnodes ?h) xs" "stored_all (tnodes ?h) ys"
    using stored_all_cong [of _ "tnodes ?h" "tnodes h"] st by (simp_all add: cs)
  then have "stored (tnodes ?h) (ANode n ?cs s)" using below [of n] by simp
  moreover have "distinct (addrs (ANode n ?cs s))" using di below by (force simp: cs)
  moreover have "\<forall>x \<ge> Suc a. tnodes ?h x = None" using fr below [of n] by auto
  moreover have "map_of ?cs p = Some (ANode a [] None)" using cs(2) by (simp add: map_add_Some_iff map_of_eq_None_iff)
  moreover have "map_of ?cs q = map_of cs q" if "q \<noteq> p" for q using that by (simp add: cs map_add_def split: option.split)
  moreover have "map fst ?cs = map fst cs" by (simp add: cs)
  ultimately show ?thesis using rt that [of ?h ?cs] by simp
qed

lemma sub_at_shape: "sub_at (shape (ANode n cs s)) (p # ps) =
    (case map_of cs p of None \<Rightarrow> None | Some b \<Rightarrow> sub_at (shape b) ps)"
  by (cases "map_of cs p") (simp_all add: map_of_shape)

lemma wf_shape: "trie_wf (shape (ANode n cs s)) \<longleftrightarrow> distinct (map fst cs) \<and> (\<forall>(k, t) \<in> set cs. trie_wf (shape t))"
  by (auto simp: comp_def case_prod_unfold)

lemma wf_replaced:
  assumes "map fst cs' = map fst cs" and "\<And>q. q \<noteq> p \<Longrightarrow> map_of cs' q = map_of cs q"
    and "map_of cs' p = Some (ANode a [] None)" and "trie_wf (shape (ANode n cs s))"
  shows "trie_wf (shape (ANode n cs' s))"
proof -
  have d: "distinct (map fst cs')" using assms(1,4) by (simp add: wf_shape del: shape.simps)
  have "trie_wf (shape t)" if t: "(k, t) \<in> set cs'" for k t
  proof -
    have m: "map_of cs' k = Some t" using t d by simp
    show ?thesis
    proof (cases "k = p")
      case False
      then have "map_of cs k = Some t" using m assms(2) by simp
      then show ?thesis using assms(4) map_of_SomeD [of cs k t] by (auto simp: wf_shape simp del: shape.simps)
    qed (use m assms(3) in auto)
  qed
  then show ?thesis using d by (auto simp: wf_shape simp del: shape.simps)
qed

section \<open>Properties\<close>

text \<open>A thread that inserts alone does what the single-threaded insertion does: from a heap that
  holds a tree it returns without a fault, with the result of \<open>trie_insert\<close>, and leaves a heap that
  holds the tree of \<open>trie_insert\<close>; every lookup in that heap finds what it finds in that tree.\<close>

theorem insert_alone:
  assumes "holds_tree h c" and "trie_wf c" and "\<forall>x \<ge> a. tnodes h x = None"
  shows "\<exists>r h' c'. run_insert cas a (InsLoad None (split_slash topic) v) h = Some (r, h') \<and>
    trie_insert cas c topic v = Some (r, c') \<and> holds_tree h' c' \<and>
    (\<forall>j. heap_get_val h' j = trie_get_val c' j)"
proof -
  obtain t where t: "shape t = c" "troot h = Some (aroot t)" "stored (tnodes h) t" "distinct (addrs t)"
    using assms(1) by (auto simp: holds_tree_def)
  obtain r t' h' where run: "run_insert cas a (InsLoad None (split_slash topic) v) h = Some (r, h')"
    "trie_insert cas c topic v = Some (r, shape t')" "grown a h t h' t'"
    using insert_root [OF t(3,4) assms(3) t(2), of cas "split_slash topic" v] t(1)
    by (auto simp: trie_insert_def)
  have "trie_wf (shape t')" using trie_insert_spec [OF assms(2), of cas topic v] run(2) by auto
  then have "heap_get_val h' j = trie_get_val (shape t') j" for j
    using heap_get_val_shape [of h' t'] holds_grown [OF run(3) t(2)] run(3)
    by (simp add: trie_get_val_sub_at grown_def)
  then show ?thesis using run(1,2) holds_grown [OF run(3) t(2)] by blast
qed

lemma new_holds: "holds_tree theap_new child_new"
  by (auto simp: holds_tree_def theap_new_def child_new_def intro!: exI [of _ "ANode 0 [] None"] exI [of _ 1])

theorem insert_alone_witness:
  "\<exists>r h' c'. run_insert True 1 (InsLoad None (split_slash (lit ''home/a'')) (7::nat)) theap_new = Some (r, h') \<and>
    trie_insert True child_new (lit ''home/a'') 7 = Some (r, c') \<and> holds_tree h' c' \<and>
    (\<forall>j. heap_get_val h' j = trie_get_val c' j)"
  by (rule insert_alone) (simp_all add: new_holds, simp add: theap_new_def)

text \<open>C38: Two insertions at once can lose a subscriber.  From any tree without a branch for a first
  part that two different topics share, there is a run of two threads inserting at the two topics in
  which no step is a fault and both return true, and afterwards a lookup of the first topic finds
  nothing while a lookup of the second finds its value: each thread looks the part up and finds no
  branch, both make one, and the one made last takes the place of the first with all that was put
  below it.\<close>

theorem concurrent_branch_lost:
  assumes "holds_tree h (Child cs s)" and "trie_wf (Child cs s)" and "map_of cs p = None"
    and "split_slash t1 = p # ps" and "split_slash t2 = p # qs" and "t1 \<noteq> t2"
  shows "\<exists>h'. tsteps (inserting [(t1, v1), (t2, v2)] h)
      \<lparr>tthreads = [InsDone True, InsDone True], tstore = h'\<rparr> \<and>
    heap_get_val h' t1 = Some None \<and> heap_get_val h' t2 = Some (Some v2)"
proof -
  let ?c = "\<lambda>ts h. \<lparr>tthreads = ts, tstore = h\<rparr>"
  obtain t a where t: "shape t = Child cs s" "troot h = Some (aroot t)" "stored (tnodes h) t" "distinct (addrs t)"
    and fr: "\<forall>x \<ge> a. tnodes h x = None" using assms(1) by (auto simp: holds_tree_def)
  obtain n ds where tn: "t = ANode n ds s" using t(1) by (cases t) auto
  have none: "map_of ds p = None" using t(1) assms(3) by (auto simp: tn map_of_shape)
  have node: "tnodes h n = Some (TNode (map (\<lambda>(k, t). (k, aroot t)) ds) s)" using t(3) by (simp add: tn)
  let ?i1 = "InsLoad None (p # ps) v1" and ?i2 = "InsLoad None (p # qs) v2"
  let ?g2 = "InsGet None n (p # qs) v2" and ?k2 = "InsCreate None n (p # qs) v2"
  have "tstep (?c [?i1, ?i2] h) (?c [?i1, ?g2] h)"
    using tstep.go [of 1 "?c [?i1, ?i2] h" a True ?g2 h] fr t(2) by (simp add: load_slot_def tn)
  moreover have "tstep (?c [?i1, ?g2] h) (?c [?i1, ?k2] h)"
    using tstep.go [of 1 "?c [?i1, ?g2] h" a True ?k2 h] fr node by (simp add: map_of_shape none)
  ultimately have two: "tsteps (?c [?i1, ?i2] h) (?c [?i1, ?k2] h)" by (simp add: converse_rtranclp_into_rtranclp)
  \<comment> \<open>the first thread runs to its end\<close>
  obtain r t' h1 where run1: "run_insert True a ?i1 h = Some (r, h1)"
    "trie_insert_parts True v1 (p # ps) (Child cs s) = Some (r, shape t')" "grown a h t h1 t'"
    using insert_root [OF t(3,4) fr t(2), of True "p # ps" v1] t(1) by auto
  have r: "r" and wf1: "trie_wf (shape t')" and at: "sub_at (shape t') (p # ps) = Some v1"
    using trie_insert_parts_wf [OF assms(2), of True v1 "p # ps"] run1(2) assms(3) by auto
  have first: "tsteps (?c [?i1, ?k2] h) (?c [InsDone True, ?k2] h1)"
    using run_insert_tsteps [OF run1(1), of 0 "[?i1, ?k2]"] fr r by simp
  \<comment> \<open>the second makes the branch again, and runs to its end\<close>
  obtain ds' s' where t': "t' = ANode n ds' s'" using run1(3) by (cases t') (auto simp: grown_def tn)
  obtain b where b: "map_of ds' p = Some b" using at by (cases "map_of ds' p") (auto simp: t' sub_at_shape simp del: shape.simps)
  obtain a' where fr1: "\<forall>x \<ge> a'. tnodes h1 x = None" using run1(3) by (auto simp: grown_def)
  have st1: "stored (tnodes h1) (ANode n ds' s')" "distinct (addrs (ANode n ds' s'))" "troot h1 = Some n"
    using run1(3) t(2) by (auto simp: grown_def t' tn)
  obtain h2 es where over: "insert_step True a' ?k2 h1 = Some (?i2, h2)"
    "stored (tnodes h2) (ANode n es s')" "distinct (addrs (ANode n es s'))" "\<forall>x \<ge> Suc a'. tnodes h2 x = None"
    "troot h2 = Some n" "map_of es p = Some (ANode a' [] None)" "\<And>q. q \<noteq> p \<Longrightarrow> map_of es q = map_of ds' q"
    "map fst es = map fst ds'"
    using create_over [OF st1(1,2) fr1 st1(3) b, of True qs v2] by metis
  have again: "tstep (?c [InsDone True, ?k2] h1) (?c [InsDone True, ?i2] h2)"
    using tstep.go [of 1 "?c [InsDone True, ?k2] h1" a' True ?i2 h2] fr1 over(1) by simp
  have wf2: "trie_wf (shape (ANode n es s'))" by (rule wf_replaced [OF over(8,7,6) wf1 [unfolded t']])
  have gone: "sub_at (shape (ANode n es s')) (p # xs) = None" for xs
    using over(6) by (simp add: sub_at_shape del: shape.simps) (cases xs; simp)
  obtain r2 u h3 where run2: "run_insert True (Suc a') ?i2 h2 = Some (r2, h3)"
    "trie_insert_parts True v2 (p # qs) (shape (ANode n es s')) = Some (r2, shape u)"
    "grown (Suc a') h2 (ANode n es s') h3 u"
    using insert_root [OF over(2,3,4), of True "p # qs" v2] over(5) by auto
  have r2: "r2" and at2: "\<And>xs. sub_at (shape u) xs = (if xs = p # qs then Some v2 else sub_at (shape (ANode n es s')) xs)"
    using trie_insert_parts_wf [OF wf2, of True v2 "p # qs"] run2(2) gone by auto
  have second: "tsteps (?c [InsDone True, ?i2] h2) (?c [InsDone True, InsDone True] h3)"
    using run_insert_tsteps [OF run2(1), of 1 "[InsDone True, ?i2]"] over(4) r2 by simp
  have "heap_get_val h3 j = Some (sub_at (shape u) (split_slash j))" for j
    using heap_get_val_shape [of h3 u] run2(3) over(5) by (simp add: grown_def)
  moreover have "p # ps \<noteq> p # qs" using assms(4-6) split_slash_inj by metis
  ultimately have "heap_get_val h3 t1 = Some None" "heap_get_val h3 t2 = Some (Some v2)"
    using at2 gone assms(4,5) by simp_all
  moreover have "inserting [(t1, v1), (t2, v2)] h = ?c [?i1, ?i2] h" using assms(4,5) by (simp add: inserting_def)
  then have "tsteps (inserting [(t1, v1), (t2, v2)] h) (?c [InsDone True, InsDone True] h3)"
    using rtranclp_trans [OF rtranclp_trans [OF two first] converse_rtranclp_into_rtranclp [OF again second]] by simp
  ultimately show ?thesis by blast
qed

theorem concurrent_branch_lost_witness:
  "\<exists>h'. tsteps (inserting [(lit ''home/a'', 1::nat), (lit ''home/b'', 2)] theap_new)
      \<lparr>tthreads = [InsDone True, InsDone True], tstore = h'\<rparr> \<and>
    heap_get_val h' (lit ''home/a'') = Some None \<and> heap_get_val h' (lit ''home/b'') = Some (Some 2)"
  by (rule concurrent_branch_lost [where cs = "[]" and s = None and p = "lit ''home''" and ps = "[lit ''a'']" and qs = "[lit ''b'']"])
    (simp_all add: new_holds [unfolded child_new_def] lit_def slash_def)


definition sample_heap :: "nat option \<Rightarrow> nat theap" where
  "sample_heap s = \<lparr>troot = Some 0, tnodes = [0 \<mapsto> TNode [(lit ''a'', 1)] None, 1 \<mapsto> TNode [] s]\<rparr>"

lemma sample_holds: "holds_tree (sample_heap s) (Child [(lit ''a'', Child [] s)] None)"
  by (auto simp: holds_tree_def sample_heap_def
    intro!: exI [of _ "ANode 0 [(lit ''a'', ANode 1 [] s)] None"] exI [of _ 2])

lemma sample_node: "node_of (sample_heap s) (lit ''a'') = Some 1"
  by (simp add: node_of_def sample_heap_def maps_def lit_def slash_def)

lemma sample_run: "run_insert True 2 (InsLoad None (split_slash (lit ''a'')) 7) (sample_heap None) = Some (True, sample_heap (Some 7))"
  by (simp add: run_insert.simps sample_heap_def load_slot_def lit_def slash_def fun_eq_iff)


end
