(* ===== verification/PacketTests.thy ===== *)
theory PacketTests
  imports Connect Publish PubAck Connack Subscribe
begin

text \<open>
  The unit tests of \<open>protocol/v5\<close> as they stand in the sources, run on the model: each test is a
  definition that is true when all its assertions hold.  They are evaluated with the buffers
  \<open>list_bytes\<close>.  This checks the model against what the authors expect of the code.
\<close>

text \<open>\<open>unwrap()\<close> of a result, and assertions on it.\<close>

definition ok_and :: "('e, 'a) run \<Rightarrow> ('a \<Rightarrow> bool) \<Rightarrow> bool" where
  "ok_and r asserts = (case r of Some (Ok x) \<Rightarrow> asserts x | _ \<Rightarrow> False)"

section \<open>CONNECT\<close>

definition test_decode_connect_packet :: "bytes_crate \<Rightarrow> bool" where
  "test_decode_connect_packet B =
     (let buffer = [
        0x10, 0x13,
        0x00, 0x04,
        0x4D, 0x51, 0x54, 0x54,
        0x05,
        0x02,
        0x00, 0x3C,
        0x00,
        0x00, 0x08,
        0x63, 0x6C, 0x69, 0x65, 0x6E, 0x74, 0x49, 0x44] in
      ok_and (connect_decode B buffer) (\<lambda>packet.
        c_protocol_name packet = lit ''MQTT'' \<and>
        c_protocol_level packet = 5 \<and>
        c_connect_flags packet = 0x02 \<and>
        c_keep_alive packet = 60 \<and>
        c_properties packet \<noteq> None \<and>
        c_client_id packet = lit ''clientID'' \<and>
        c_will_properties packet = None \<and>
        c_will_topic packet = None \<and>
        c_will_payload packet = None \<and>
        c_username packet = None \<and>
        c_password packet = None))"

definition test_decode_connect_packet_with_username_password :: "bytes_crate \<Rightarrow> bool" where
  "test_decode_connect_packet_with_username_password B =
     (let buffer = [
        0x10, 0x23,
        0x00, 0x04,
        0x4D, 0x51, 0x54, 0x54,
        0x05,
        0xC0,
        0x00, 0x3C,
        0x00,
        0x00, 0x08,
        0x63, 0x6C, 0x69, 0x65, 0x6E, 0x74, 0x49, 0x44,
        0x00, 0x08,
        0x75, 0x73, 0x65, 0x72, 0x6E, 0x61, 0x6D, 0x65,
        0x00, 0x08,
        0x70, 0x61, 0x73, 0x73, 0x77, 0x6F, 0x72, 0x64] in
      ok_and (connect_decode B buffer) (\<lambda>packet.
        c_protocol_name packet = lit ''MQTT'' \<and>
        c_protocol_level packet = 5 \<and>
        c_connect_flags packet = 0xC0 \<and>
        c_keep_alive packet = 60 \<and>
        c_properties packet \<noteq> None \<and>
        c_client_id packet = lit ''clientID'' \<and>
        c_will_properties packet = None \<and>
        c_will_topic packet = None \<and>
        c_will_payload packet = None \<and>
        c_username packet = Some (lit ''username'') \<and>
        c_password packet = Some (lit ''password'')))"

definition test_decode_connect_packet_with_invalid_protocol :: "bytes_crate \<Rightarrow> bool" where
  "test_decode_connect_packet_with_invalid_protocol B =
     (let buffer = [
        0x10, 0x0C,
        0x00, 0x04,
        0x4D, 0x51, 0x54, 0x58,
        0x05,
        0x02,
        0x00, 0x3C,
        0x00,
        0x00, 0x08,
        0x63, 0x6C, 0x69, 0x65, 0x6E, 0x74, 0x49, 0x44] in
      (case connect_decode B buffer of Some (Err e) \<Rightarrow> e = ''Invalid protocol name'' | _ \<Rightarrow> False))"

definition test_decode_connect_packet_with_invalid_protocol_level :: "bytes_crate \<Rightarrow> bool" where
  "test_decode_connect_packet_with_invalid_protocol_level B =
     (let buffer = [
        0x10, 0x0C,
        0x00, 0x04,
        0x4D, 0x51, 0x54, 0x54,
        0x04,
        0x02,
        0x00, 0x3C,
        0x00,
        0x00, 0x07,
        0x63, 0x6C, 0x69, 0x65, 0x6E, 0x74, 0x49, 0x44] in
      (case connect_decode B buffer of Some (Err e) \<Rightarrow> e = ''Unsupported protocol level'' | _ \<Rightarrow> False))"

definition test_decode_connect_packet_with_will :: "bytes_crate \<Rightarrow> bool" where
  "test_decode_connect_packet_with_will B =
     (let buffer = [
        0x10, 0x1D,
        0x00, 0x04,
        0x4D, 0x51, 0x54, 0x54,
        0x05,
        0x0E,
        0x00, 0x3C,
        0x00,
        0x00, 0x08,
        0x63, 0x6C, 0x69, 0x65, 0x6E, 0x74, 0x49, 0x44,
        0x00,
        0x00, 0x04,
        0x77, 0x69, 0x6C, 0x6C,
        0x00, 0x07,
        0x6D, 0x65, 0x73, 0x73, 0x61, 0x67, 0x65] in
      ok_and (connect_decode B buffer) (\<lambda>packet.
        c_protocol_name packet = lit ''MQTT'' \<and>
        c_protocol_level packet = 5 \<and>
        c_connect_flags packet = 0x0E \<and>
        c_keep_alive packet = 60 \<and>
        c_properties packet \<noteq> None \<and>
        c_client_id packet = lit ''clientID'' \<and>
        c_will_properties packet \<noteq> None \<and>
        c_will_topic packet = Some (lit ''will'') \<and>
        c_will_payload packet = Some (lit ''message'') \<and>
        c_username packet = None \<and>
        c_password packet = None))"

section \<open>PUBLISH\<close>

definition test_decode_publish :: "bytes_crate \<Rightarrow> bool" where
  "test_decode_publish B =
     (let buffer = put_u8 B [] 0x30;
          buffer = put_u8 B buffer 0x14;
          buffer = put_u16 B buffer 5;
          buffer = put_slice B buffer (lit ''topic'');
          buffer = put_u8 B buffer 0x07;
          buffer = put_u8 B buffer 0x01;
          buffer = put_u8 B buffer 1;
          buffer = put_u8 B buffer 0x02;
          buffer = put_u32 B buffer 300;
          buffer = put_slice B buffer (lit ''hello'');
          expected_properties = no_publish_properties
            \<lparr>pp_payload_format_indicator := Some 1, pp_message_expiry_interval := Some 300\<rparr>;
          expected_packet = \<lparr>p_dup = False, p_qos = QoS0, p_retain = False, p_topic = lit ''topic'',
            p_packet_id = None, p_payload = lit ''hello'', p_properties = Some expected_properties\<rparr> in
      ok_and (publish_decode B buffer) (\<lambda>packet. packet = expected_packet))"

definition test_publish_dif :: "bytes_crate \<Rightarrow> bool" where
  "test_publish_dif B =
     (let prop = no_publish_properties
            \<lparr>pp_payload_format_indicator := Some 1, pp_message_expiry_interval := Some 300\<rparr>;
          packet = \<lparr>p_dup = False, p_qos = QoS1, p_retain = False, p_topic = lit ''topic'',
            p_packet_id = Some 12345, p_payload = lit ''Hello mqtt'', p_properties = Some prop\<rparr> in
      ok_and (publish_encode B packet) (\<lambda>encoded.
      ok_and (publish_decode B encoded) (\<lambda>decoded. packet = decoded)))"

section \<open>Acknowledgements\<close>

definition put_user_property :: "bytes_crate \<Rightarrow> bytes \<Rightarrow> string \<Rightarrow> string \<Rightarrow> bytes" where
  "put_user_property B expected key value =
     (let expected = put_u8 B expected 0x26;
          expected = put_u16 B expected 4;
          expected = put_slice B expected (lit key);
          expected = put_u16 B expected 6
      in put_slice B expected (lit value))"

definition test_encode_puback :: "bytes_crate \<Rightarrow> bool" where
  "test_encode_puback B =
     (let properties = \<lparr>pa_reason_string = Some (lit ''Success''), pa_user_properties = Some
            [(lit ''key1'', lit ''value1''), (lit ''key2'', lit ''value2'')]\<rparr>;
          packet = \<lparr>pa_packet_type = PubAck, pa_packet_id = 1234, pa_reason_code = 0,
            pa_properties = Some properties\<rparr> in
      ok_and (puback_encode B packet) (\<lambda>buffer.
        let expected = put_u8 B [] 0x40;
            expected = put_u8 B expected 0x2C;
            expected = put_u16 B expected 1234;
            expected = put_u8 B expected 0;
            expected = put_u8 B expected 0x28;
            expected = put_u8 B expected 0x1F;
            expected = put_u16 B expected 7;
            expected = put_slice B expected (lit ''Success'');
            expected = put_user_property B expected ''key1'' ''value1'';
            expected = put_user_property B expected ''key2'' ''value2''
        in buffer = expected))"

definition test_encode_suback :: "bytes_crate \<Rightarrow> bool" where
  "test_encode_suback B =
     (let properties = \<lparr>sa_reason_string = Some (lit ''Success''), sa_user_properties = Some
            [(lit ''key1'', lit ''value1''), (lit ''key2'', lit ''value2'')]\<rparr>;
          prop_len = sub_ack_prop_len properties;
          packet = \<lparr>sa_id = 1234, sa_properties = Some properties,
            sa_return_codes = [Inr QoS0, Inr QoS1, Inl UnspecifiedError]\<rparr> in
      ok_and (subs_ack_encode B packet) (\<lambda>buffer.
        let expected = put_u8 B [] 0x90;
            expected = put_u8 B expected 0x2E;
            expected = put_u16 B expected 1234;
            expected = put_u8 B expected (word_of_nat prop_len);
            expected = put_u8 B expected 0x1F;
            expected = put_u16 B expected 7;
            expected = put_slice B expected (lit ''Success'');
            expected = put_user_property B expected ''key1'' ''value1'';
            expected = put_user_property B expected ''key2'' ''value2'';
            expected = put_u8 B expected 0x00;
            expected = put_u8 B expected 0x01;
            expected = put_u8 B expected 0x80
        in buffer = expected))"

section \<open>SUBSCRIBE\<close>

definition subscribe_test_table :: "(bytes \<times> subscribe_packet) list" where
  "subscribe_test_table = [
     ([0x82,
       0x2A,
       0x00, 0x01,
       0x00,
       0x00, 0x12,
       0x73, 0x65, 0x6E, 0x73, 0x6F, 0x72, 0x2F, 0x74, 0x65, 0x6D, 0x70, 0x65, 0x72, 0x61, 0x74, 0x75, 0x72, 0x65,
       0x01,
       0x00, 0x0F,
       0x73, 0x65, 0x6E, 0x73, 0x6F, 0x72, 0x2F, 0x68, 0x75, 0x6D, 0x69, 0x64, 0x69, 0x74, 0x79,
       0x02],
      \<lparr>sp_id = 1, sp_list = [
         \<lparr>sub_topic = lit ''sensor/temperature'', sub_max_qos = QoS1\<rparr>,
         \<lparr>sub_topic = lit ''sensor/humidity'', sub_max_qos = QoS2\<rparr>]\<rparr>),
     ([0x82,
       0x10,
       0x00, 0x01,
       0x00,
       0x00, 0x0A,
       0x74, 0x65, 0x73, 0x74, 0x2F, 0x74, 0x6F, 0x70, 0x69, 0x63,
       0x00],
      \<lparr>sp_id = 1, sp_list = [\<lparr>sub_topic = lit ''test/topic'', sub_max_qos = QoS0\<rparr>]\<rparr>)]"

definition test_subscribe_packet_deserialization :: "bytes_crate \<Rightarrow> bool" where
  "test_subscribe_packet_deserialization B = list_all (\<lambda>(raw, exp).
     ok_and (subscribe_decode B raw) (\<lambda>deserialized.
       sp_id deserialized = sp_id exp \<and>
       length (sp_list deserialized) = length (sp_list exp) \<and>
       list_all (\<lambda>(deserialized_sub, expected_sub).
         sub_topic deserialized_sub = sub_topic expected_sub \<and>
         sub_max_qos deserialized_sub = sub_max_qos expected_sub)
         (zip (sp_list deserialized) (sp_list exp)))) subscribe_test_table"

section \<open>CONNACK\<close>

definition connack_test_packet :: connack_packet where
  "connack_test_packet = \<lparr>k_session_present = True, k_return_code = 0, k_properties = Some \<lparr>
     ck_session_expiry_interval = Some 120,
     ck_receive_maximum = Some 10,
     ck_maximum_qos = Some 1,
     ck_retain_available = Some 1,
     ck_maximum_packet_size = Some 256,
     ck_assigned_client_identifier = Some (lit ''client-123''),
     ck_topic_alias_maximum = Some 5,
     ck_reason_string = Some (lit ''Success''),
     ck_user_properties = Some [(lit ''key1'', lit ''value1''), (lit ''key2'', lit ''value2'')],
     ck_wildcard_subscription_available = Some 1,
     ck_subscription_identifier_available = Some 1,
     ck_shared_subscription_available = Some 1,
     ck_server_keep_alive = Some 30,
     ck_response_information = Some (lit ''Info''),
     ck_server_reference = Some (lit ''ServerRef''),
     ck_authentication_method = Some (lit ''AuthMethod''),
     ck_authentication_data = Some [1, 2, 3, 4, 5]\<rparr>\<rparr>"

definition connack_test_expected :: "bytes_crate \<Rightarrow> bytes" where
  "connack_test_expected B =
     (let expected = put_slice B [] [0x20, 125, 0x01, 0x00, 122, 0x11];
          expected = put_u32 B expected 120;
          expected = put_u8 B expected 0x21;
          expected = put_u16 B expected 10;
          expected = put_slice B expected [0x24, 1, 0x25, 1, 0x27];
          expected = put_u32 B expected 256;
          expected = put_u8 B expected 0x12;
          expected = put_u16 B expected 10;
          expected = put_slice B expected (lit ''client-123'');
          expected = put_u8 B expected 0x22;
          expected = put_u16 B expected 5;
          expected = put_u8 B expected 0x1F;
          expected = put_u16 B expected 7;
          expected = put_slice B expected (lit ''Success'');
          expected = put_user_property B expected ''key1'' ''value1'';
          expected = put_u8 B expected 0x26;
          expected = put_u16 B expected 4;
          expected = put_slice B expected (lit ''key2'');
          expected = put_u16 B expected 6;
          expected = put_slice B expected (lit ''value2'' @ [0x28, 1, 0x29, 1, 0x2A, 1, 0x13]);
          expected = put_u16 B expected 30;
          expected = put_u8 B expected 0x1A;
          expected = put_u16 B expected 4;
          expected = put_slice B expected (lit ''Info'');
          expected = put_u8 B expected 0x1C;
          expected = put_u16 B expected 9;
          expected = put_slice B expected (lit ''ServerRef'');
          expected = put_u8 B expected 0x15;
          expected = put_u16 B expected 10;
          expected = put_slice B expected (lit ''AuthMethod'');
          expected = put_u8 B expected 0x16;
          expected = put_u16 B expected 5
      in put_slice B expected [1, 2, 3, 4, 5])"

text \<open>The assertions on the header, on the lengths, on the bytes, and on the packet read back.\<close>

definition test_encode_connack :: "bytes_crate \<Rightarrow> bool list" where
  "test_encode_connack B =
     (case connack_encode B connack_test_packet of
        Some (Ok buffer) \<Rightarrow>
          (case get_u8 B buffer of None \<Rightarrow> [False] | Some (b0, cbuf) \<Rightarrow>
          (case rl_decode B cbuf of Some (Ok (remaining_leng, cbuf)) \<Rightarrow>
            let len = remaining_leng = word_of_nat (length cbuf) in
            (case get_u8 B cbuf of None \<Rightarrow> [False] | Some (b1, cbuf) \<Rightarrow>
            (case get_u8 B cbuf of None \<Rightarrow> [False] | Some (b2, cbuf) \<Rightarrow>
            (case rl_decode B cbuf of Some (Ok (properties_len, cbuf)) \<Rightarrow>
              [b0 = 0x20, len, b1 = 0x01, b2 = 0x00, properties_len = 122,
               buffer = connack_test_expected B,
               ok_and (connack_decode B buffer)
                 (\<lambda>decoded. k_session_present decoded = k_session_present connack_test_packet),
               ok_and (connack_decode B buffer)
                 (\<lambda>decoded. k_properties decoded = k_properties connack_test_packet)]
            | _ \<Rightarrow> [False])))
          | _ \<Rightarrow> [False]))
      | _ \<Rightarrow> [False])"

section \<open>The tests on the encoders\<close>

text \<open>By the images of the encoders, so for every implementation of the buffers that does as documented.\<close>

lemmas test_images = ok_and_def Let_def put_user_property_def bytes_simps len_image_def lit_def str_ok_def
  varint_cases

lemma test_encode_puback_holds: "bytes_doc B \<Longrightarrow> test_encode_puback B"
  by (simp add: test_encode_puback_def puback_encode_frame puback_props_ok_def puback_body_def
      puback_props_image_def test_images)

lemma test_encode_suback_holds: "bytes_doc B \<Longrightarrow> test_encode_suback B"
  by (simp add: test_encode_suback_def subs_ack_encode_image sub_ack_prop_ok_def sub_ack_body_def sub_ack_props_def
      sub_ack_prop_len_def sub_ack_prop_image_def reason_image_def pairs_opt_image_def ack_code_def test_images)

lemma test_publish_dif_holds: "bytes_doc B \<Longrightarrow> test_publish_dif B"
proof -
  assume B: "bytes_doc B"
  define p where "p = \<lparr>p_dup = False, p_qos = QoS1, p_retain = False, p_topic = lit ''topic'',
    p_packet_id = Some 12345, p_payload = lit ''Hello mqtt'', p_properties = Some (no_publish_properties
      \<lparr>pp_payload_format_indicator := Some 1, pp_message_expiry_interval := Some 300\<rparr>)\<rparr>"
  have p: "publish_ok p" "p_packet_id p \<noteq> None \<longleftrightarrow> p_qos p \<noteq> QoS0"
    and some: "\<And>q. p_properties p = Some q \<Longrightarrow> publish_props_body q \<noteq> []"
    by (auto simp: p_def publish_ok_def str_ok_def lit_def publish_props_ok_def no_publish_properties_def
        publish_body_def publish_props_image_def publish_props_body_def varint_cases)
  have "(publish_view p)\<lparr>p_payload := p_payload p\<rparr> = p"
    by (simp add: publish_view_def p_def no_publish_properties_def)
  then show ?thesis
    using publish_encode_frame [OF B p(1)] publish_decode_frame [OF B p(1) some p(2), of "[]"]
    by (simp add: test_publish_dif_def ok_and_def Let_def p_def [symmetric])
qed

text \<open>The packet of the CONNACK test: the properties take 120 bytes.\<close>

lemma connack_test_props:
  "connack_ok connack_test_packet"
  "length (connack_props connack_test_packet) = 120"
  "connack_props connack_test_packet \<noteq> []"
  by (simp_all add: connack_test_packet_def connack_ok_def connack_props_ok_def connack_body_def connack_props_def
      connack_props_body_def len_image_def lit_def str_ok_def varint_cases enc32_def)

lemma test_encode_connack_answers:
  assumes B: "bytes_doc B"
  shows "test_encode_connack B = [True, True, True, True, False, False, True, True]"
proof -
  let ?p = connack_test_packet
  let ?q = "connack_props ?p"
  obtain q where q: "k_properties ?p = Some q" by (simp add: connack_test_packet_def)
  have body: "connack_body ?p = 1 # 0 # 120 # ?q"
    using connack_test_props(2) by (simp add: connack_body_def varint_cases connack_test_packet_def)
  have enc: "connack_encode B ?p = ok (0x20 # 123 # 1 # 0 # 120 # ?q)"
    using connack_encode_frame [OF B connack_test_props(1)] connack_test_props(2) by (simp add: body varint_cases)
  have "connack_props_body q \<noteq> []" using connack_test_props(3) q by (simp add: connack_props_def)
  then have dec: "connack_decode B (0x20 # 123 # 1 # 0 # 120 # ?q) = ok ?p"
    using connack_decode_prefix [OF B connack_test_props(1)]
      connack_decode_properties_image [OF B connack_test_props(1) q] connack_test_props(2)
    by (simp add: body varint_cases q [symmetric])
  have "rl_decode B (123 # 1 # 0 # 120 # ?q) = ok (123, 1 # 0 # 120 # ?q)"
    using rl_decode_image [OF B, of 123 "1 # 0 # 120 # ?q"] by (simp add: varint_cases)
  moreover have "rl_decode B (120 # ?q) = ok (120, ?q)"
    using rl_decode_image [OF B, of 120 ?q] by (simp add: varint_cases)
  moreover have "connack_test_expected B \<noteq> 0x20 # 123 # 1 # 0 # 120 # ?q"
    by (simp add: connack_test_expected_def Let_def bytes_simps [OF B] put_user_property_def)
  ultimately show ?thesis
    using B connack_test_props(2) by (simp add: test_encode_connack_def enc dec ok_and_def get_u8_doc)
qed

section \<open>Properties\<close>

text \<open>All unit tests of the packets but one hold of the model as they stand in the sources: the five of
  CONNECT, among them the two that must be refused, the two of PUBLISH, those of PUBACK and SUBACK
  byte for byte, and the table of SUBSCRIBE packets.\<close>

theorem packet_tests_pass:
  "test_decode_connect_packet list_bytes \<and>
   test_decode_connect_packet_with_username_password list_bytes \<and>
   test_decode_connect_packet_with_invalid_protocol list_bytes \<and>
   test_decode_connect_packet_with_invalid_protocol_level list_bytes \<and>
   test_decode_connect_packet_with_will list_bytes \<and>
   test_decode_publish list_bytes \<and>
   test_publish_dif list_bytes \<and>
   test_encode_puback list_bytes \<and>
   test_encode_suback list_bytes \<and>
   test_subscribe_packet_deserialization list_bytes"
  by (intro conjI test_publish_dif_holds test_encode_puback_holds test_encode_suback_holds list_bytes_doc;
      code_simp)

text \<open>The unit test of CONNACK fails at two of its assertions, whatever the buffers: those of the
  property length and of the bytes of the packet (the test puts the maximum packet size as four bytes,
  the encoder as two).  The packet is read back as it was.\<close>

theorem connack_test_fails:
  assumes "bytes_doc B"
  shows "test_encode_connack B = [True, True, True, True, False, False, True, True]"
  using assms by (rule test_encode_connack_answers)

theorem connack_test_fails_witness:
  "test_encode_connack list_bytes = [True, True, True, True, False, False, True, True]"
  by (rule connack_test_fails [OF list_bytes_doc])

end
