(* ===== verification/ListThreads.thy ===== *)
theory ListThreads
  imports LinkedList
begin

text \<open>
  Threads of \<open>ds/linked_list.rs\<close> in any interleaving: a configuration is the threads' program
  counters and the shared heap, and a step is one atomic operation of one thread.  Threads that only
  append are shown safe in every interleaving; with a thread that takes, an appended value can be
  lost and freed nodes can be used.
\<close>

record 'a config =
  threads :: "'a pc list"
  heap :: "'a lheap"

text \<open>Thread \<open>i\<close> goes one step; \<open>a\<close> is an address the allocator may give.\<close>

inductive lstep :: "'a config \<Rightarrow> 'a config \<Rightarrow> bool" where
  go: "lstep c \<lparr>threads = (threads c)[i := pc'], heap = h'\<rparr>"
    if "i < length (threads c)" "\<not> finished (threads c ! i)" "cells (heap c) a = None"
      "thread_step a (threads c ! i) (heap c) = Some (pc', h')"

abbreviation lsteps :: "'a config \<Rightarrow> 'a config \<Rightarrow> bool" where
  "lsteps \<equiv> lstep\<^sup>*\<^sup>*"

text \<open>Some thread's next operation is a memory fault.\<close>

definition faulty :: "'a config \<Rightarrow> bool" where
  "faulty c \<longleftrightarrow> (\<exists>pc \<in> set (threads c). \<not> finished pc \<and> thread_step 0 pc (heap c) = None)"

lemma thread_step_fault: "thread_step a pc h = None \<longleftrightarrow> thread_step b pc h = None"
  by (cases pc) (simp_all add: split: option.splits)

text \<open>A schedule names the thread of each step and the address it may be given.\<close>

fun run_schedule :: "(nat \<times> nat) list \<Rightarrow> 'a config \<Rightarrow> 'a config option" where
  "run_schedule [] c = Some c"
| "run_schedule ((i, a) # s) c =
     (if i < length (threads c) \<and> \<not> finished (threads c ! i) \<and> cells (heap c) a = None
      then case thread_step a (threads c ! i) (heap c) of
             None \<Rightarrow> None
           | Some (pc', h') \<Rightarrow> run_schedule s \<lparr>threads = (threads c)[i := pc'], heap = h'\<rparr>
      else None)"

lemma run_schedule_lsteps: "run_schedule s c = Some c' \<Longrightarrow> lsteps c c'"
proof (induction s c rule: run_schedule.induct)
  case (2 i a s c)
  then obtain pc' h' where step: "i < length (threads c)" "\<not> finished (threads c ! i)"
    "cells (heap c) a = None" "thread_step a (threads c ! i) (heap c) = Some (pc', h')"
    "run_schedule s \<lparr>threads = (threads c)[i := pc'], heap = h'\<rparr> = Some c'"
    by (auto split: if_splits option.splits)
  then have "lstep c \<lparr>threads = (threads c)[i := pc'], heap = h'\<rparr>" by (blast intro: lstep.go)
  moreover have "lsteps \<lparr>threads = (threads c)[i := pc'], heap = h'\<rparr> c'"
    using 2 step by auto
  ultimately show ?case by (rule converse_rtranclp_into_rtranclp)
qed simp

section \<open>Threads that only append\<close>

text \<open>The node a thread still owns, and the value it has not put in the list yet.\<close>

fun own :: "'a pc \<Rightarrow> nat set" where
  "own (AppendHead new) = {new}"
| "own (AppendCasHead new) = {new}"
| "own (AppendIter new) = {new}"
| "own (IterNext new _) = {new}"
| "own (IterAdvance new _) = {new}"
| "own (IterCas new _) = {new}"
| "own _ = {}"

definition pending :: "(nat \<Rightarrow> 'a node option) \<Rightarrow> 'a pc \<Rightarrow> 'a multiset" where
  "pending m pc =
     (case pc of AppendCall v \<Rightarrow> {#v#} | _ \<Rightarrow> image_mset (\<lambda>a. val (the (m a))) (mset_set (own pc)))"

text \<open>What a thread's pointers may be, when \<open>as\<close> is the chain of the list.\<close>

fun pc_ok :: "nat list \<Rightarrow> (nat \<Rightarrow> 'a node option) \<Rightarrow> 'a pc \<Rightarrow> bool" where
  "pc_ok as m (AppendIter new) \<longleftrightarrow> as \<noteq> []"
| "pc_ok as m (IterNext new cur) \<longleftrightarrow> (\<exists>c. cur = Some c \<and> c \<in> set as)"
| "pc_ok as m (IterAdvance new c) \<longleftrightarrow> c \<in> set as \<and> (\<exists>n. m c = Some n \<and> nxt n \<noteq> None)"
| "pc_ok as m (IterCas new c) \<longleftrightarrow> c \<in> set as"
| "pc_ok as m TakeCall \<longleftrightarrow> False"
| "pc_ok as m (TakeNext _) \<longleftrightarrow> False"
| "pc_ok as m (TakeCas _ _) \<longleftrightarrow> False"
| "pc_ok as m (TakeFree _) \<longleftrightarrow> False"
| "pc_ok as m (TakeDone _) \<longleftrightarrow> False"
| "pc_ok as m _ \<longleftrightarrow> True"

definition owned_ok :: "nat list \<Rightarrow> (nat \<Rightarrow> 'a node option) \<Rightarrow> 'a pc \<Rightarrow> bool" where
  "owned_ok as m pc \<longleftrightarrow> (\<forall>a \<in> own pc. a \<notin> set as \<and> (\<exists>v. m a = Some (Node v None)))"

text \<open>What a step of one thread leaves of the chain and the nodes of the others.\<close>

definition grows :: "nat set \<Rightarrow> nat list \<Rightarrow> (nat \<Rightarrow> 'a node option) \<Rightarrow> nat list \<Rightarrow>
    (nat \<Rightarrow> 'a node option) \<Rightarrow> bool" where
  "grows mine as m as' m' \<longleftrightarrow> set as \<subseteq> set as' \<and> set as' \<subseteq> set as \<union> mine \<and>
     (\<forall>c n. m c = Some n \<and> (c \<notin> set as \<or> nxt n \<noteq> None) \<longrightarrow> m' c = Some n)"

lemma grows_refl: "grows mine as m as m"
  by (simp add: grows_def)

lemma grows_pc_ok: "grows mine as m as' m' \<Longrightarrow> pc_ok as m pc \<Longrightarrow> pc_ok as' m' pc"
proof (cases pc)
  case (IterAdvance new c)
  assume g: "grows mine as m as' m'" and "pc_ok as m pc"
  then obtain n where "c \<in> set as" "m c = Some n" "nxt n \<noteq> None" using IterAdvance by auto
  moreover from this have "m' c = Some n" using g unfolding grows_def by blast
  ultimately show "pc_ok as' m' pc" using g IterAdvance by (auto simp: grows_def)
qed (auto simp: grows_def)

lemma grows_owned_ok:
  assumes "grows mine as m as' m'" and "owned_ok as m pc" and "own pc \<inter> mine = {}"
  shows "owned_ok as' m' pc"
  unfolding owned_ok_def
proof
  fix a assume "a \<in> own pc"
  then obtain v where "a \<notin> set as" "m a = Some (Node v None)" "a \<notin> mine"
    using assms(2,3) by (auto simp: owned_ok_def)
  then show "a \<notin> set as' \<and> (\<exists>v. m' a = Some (Node v None))"
    using assms(1) unfolding grows_def by blast
qed

lemma grows_pending:
  assumes "grows mine as m as' m'" and "owned_ok as m pc"
  shows "pending m' pc = pending m pc"
proof -
  have "\<forall>a \<in> own pc. m' a = m a" using assms unfolding grows_def owned_ok_def by metis
  then show ?thesis by (cases pc) (auto simp: pending_def)
qed

text \<open>One step of an appending thread: no fault, and at most its own value moves into the list.\<close>

definition step_ok :: "nat \<Rightarrow> 'a pc \<Rightarrow> 'a lheap \<Rightarrow> nat list \<Rightarrow> 'a pc \<Rightarrow> 'a lheap \<Rightarrow> nat list \<Rightarrow> bool" where
  "step_ok a pc h as pc' h' as' \<longleftrightarrow> thread_step a pc h = Some (pc', h') \<and> holds_list h' as' \<and>
     pc_ok as' (cells h') pc' \<and> owned_ok as' (cells h') pc' \<and> own pc' \<subseteq> insert a (own pc) \<and>
     grows (own pc) as (cells h) as' (cells h') \<and>
     (\<exists>vs. vals (cells h') as' = vals (cells h) as @ vs \<and>
        mset vs + pending (cells h') pc' = pending (cells h) pc)"

lemma step_ok_read:
  assumes "thread_step a pc h = Some (pc', h)" and "holds_list h as" and "pc_ok as (cells h) pc'"
    and "owned_ok as (cells h) pc" and "own pc' = own pc" and "\<And>v. pc \<noteq> AppendCall v"
    and "\<And>v. pc' \<noteq> AppendCall v"
  shows "step_ok a pc h as pc' h as"
  using assms unfolding step_ok_def
  by (auto simp: grows_refl owned_ok_def pending_def split: pc.splits)

lemma append_step_ok:
  assumes hl: "holds_list h as" and ok: "pc_ok as (cells h) pc" and ow: "owned_ok as (cells h) pc"
    and nf: "\<not> finished pc" and a: "\<And>v. pc = AppendCall v \<Longrightarrow> cells h a = None"
  shows "\<exists>pc' h' as'. step_ok a pc h as pc' h' as'"
proof -
  note hl' = hl [unfolded holds_list_def]
  show ?thesis
  proof (cases pc)
    case (AppendCall v)
    let ?m = "(cells h)(a := Some (Node v None))"
    have "a \<notin> set as" using a [OF AppendCall] hl' chain_dom [of "cells h" "head h" as a] by auto
    then have "chain ?m (head h) as" "vals ?m as = vals (cells h) as"
      using hl' by (auto intro: chain_cong intro!: vals_cong)
    then have "step_ok a pc h as (AppendHead a) (h\<lparr>cells := ?m\<rparr>) as"
      using AppendCall hl' a \<open>a \<notin> set as\<close>
      by (auto simp: step_ok_def holds_list_def owned_ok_def grows_def pending_def)
    then show ?thesis by blast
  next
    case (AppendHead new)
    have "as \<noteq> []" if "head h \<noteq> None" using that hl' by auto
    then have "step_ok a pc h as (if head h = None then AppendCasHead new else AppendIter new) h as"
      using AppendHead hl ow by (intro step_ok_read) auto
    then show ?thesis by blast
  next
    case (AppendCasHead new)
    show ?thesis
    proof (cases "head h")
      case None
      obtain v where v: "cells h new = Some (Node v None)" using ow AppendCasHead by (auto simp: owned_ok_def)
      have "step_ok a pc h as AppendDone (h\<lparr>head := Some new\<rparr>) [new]"
        using AppendCasHead None hl' v
        by (auto simp: step_ok_def holds_list_def owned_ok_def grows_def pending_def vals_def)
      then show ?thesis by blast
    next
      case (Some p)
      have "step_ok a pc h as (AppendHead new) h as"
        using AppendCasHead Some hl ow by (intro step_ok_read) auto
      then show ?thesis by blast
    qed
  next
    case (AppendIter new)
    have "\<exists>c. head h = Some c \<and> c \<in> set as" using hl' ok AppendIter by (cases as) auto
    then have "step_ok a pc h as (IterNext new (head h)) h as"
      using AppendIter hl ow by (intro step_ok_read) auto
    then show ?thesis by blast
  next
    case (IterNext new cur)
    then obtain c n where c: "cur = Some c" "c \<in> set as" "cells h c = Some n"
      using ok chain_dom hl' by fastforce
    have "step_ok a pc h as (if nxt n = None then IterCas new c else IterAdvance new c) h as"
      using IterNext hl ow c by (intro step_ok_read) (auto simp: deref_def)
    then show ?thesis by blast
  next
    case (IterAdvance new c)
    then obtain n b where n: "cells h c = Some n" "nxt n = Some b" "c \<in> set as" using ok by auto
    then have "b \<in> set as" using chain_next(2) hl' by metis
    then have "step_ok a pc h as (IterNext new (nxt n)) h as"
      using IterAdvance hl ow n by (intro step_ok_read) auto
    then show ?thesis by blast
  next
    case (IterCas new c)
    then obtain n where n: "c \<in> set as" "cells h c = Some n" using ok chain_dom hl' by fastforce
    show ?thesis
    proof (cases "nxt n")
      case None
      then obtain xs where xs: "as = xs @ [c]" using chain_next(1) hl' n by metis
      obtain v where v: "cells h new = Some (Node v None)" "new \<notin> set as"
        using ow IterCas by (auto simp: owned_ok_def)
      let ?m = "(cells h)(c := Some (Node (val n) (Some new)))"
      have "chain ?m (head h) (xs @ [c, new])"
        using chain_hang hl' xs v n by fastforce
      moreover have "vals ?m (xs @ [c, new]) = vals (cells h) as @ [v]"
        using vals_hang [of xs c new "cells h" n "Node v None"] hl' xs v n by simp
      ultimately have "step_ok a pc h as AppendDone (h\<lparr>cells := ?m\<rparr>) (xs @ [c, new])"
        using IterCas None hl' v n xs
        by (auto simp: step_ok_def holds_list_def owned_ok_def grows_def pending_def)
      then show ?thesis by blast
    next
      case (Some b)
      have "step_ok a pc h as (AppendHead new) h as"
        using IterCas Some n hl ow by (intro step_ok_read) auto
      then show ?thesis by blast
    qed
  qed (use ok nf in auto)
qed

subsection \<open>The invariant of appending threads\<close>

definition disjoint_own :: "'a pc list \<Rightarrow> bool" where
  "disjoint_own ts \<longleftrightarrow>
     (\<forall>i < length ts. \<forall>j < length ts. i \<noteq> j \<longrightarrow> own (ts ! i) \<inter> own (ts ! j) = {})"

definition append_inv :: "'a multiset \<Rightarrow> 'a config \<Rightarrow> nat list \<Rightarrow> bool" where
  "append_inv tot c as \<longleftrightarrow> holds_list (heap c) as \<and>
     (\<forall>pc \<in> set (threads c). pc_ok as (cells (heap c)) pc \<and> owned_ok as (cells (heap c)) pc) \<and>
     disjoint_own (threads c) \<and>
     mset (vals (cells (heap c)) as) + (\<Sum>pc \<leftarrow> threads c. pending (cells (heap c)) pc) = tot"

lemma sum_list_map_update:
  fixes f :: "'b \<Rightarrow> 'c::comm_monoid_add"
  assumes "i < length xs"
  shows "(\<Sum>x \<leftarrow> xs[i := y]. f x) + f (xs ! i) = (\<Sum>x \<leftarrow> xs. f x) + f y"
  using assms
proof (induction xs arbitrary: i)
  case (Cons x xs)
  show ?case
  proof (cases i)
    case (Suc j)
    then have "(\<Sum>x \<leftarrow> xs[j := y]. f x) + f (xs ! j) = (\<Sum>x \<leftarrow> xs. f x) + f y"
      using Cons by simp
    then show ?thesis using Suc by (simp add: add.assoc)
  qed (simp add: ac_simps)
qed simp

lemma disjoint_own_update:
  assumes "disjoint_own ts" and "i < length ts" and "own pc \<subseteq> insert a (own (ts ! i))"
    and "\<forall>j < length ts. j \<noteq> i \<longrightarrow> a \<notin> own (ts ! j)"
  shows "disjoint_own (ts[i := pc])"
  unfolding disjoint_own_def
proof (intro allI impI)
  fix j k
  assume "j < length (ts[i := pc])" and "k < length (ts[i := pc])" and "j \<noteq> k"
  then show "own (ts[i := pc] ! j) \<inter> own (ts[i := pc] ! k) = {}"
    using assms unfolding disjoint_own_def by (cases "j = i"; cases "k = i") (simp_all, blast+)
qed

lemma append_inv_step:
  assumes "append_inv tot c as" and "lstep c c'"
  shows "\<exists>as'. append_inv tot c' as' \<and>
    (\<exists>vs. vals (cells (heap c')) as' = vals (cells (heap c)) as @ vs)"
  using assms(2)
proof cases
  case (go i a pc' h')
  let ?ts = "threads c" and ?m = "cells (heap c)"
  note inv = assms(1) [unfolded append_inv_def]
  have pc: "?ts ! i \<in> set ?ts" using go(2) by simp
  obtain p h as' where "step_ok a (?ts ! i) (heap c) as p h as'"
    using append_step_ok [of "heap c" as "?ts ! i" a] inv pc go(3,4) by blast
  then have ok: "step_ok a (?ts ! i) (heap c) as pc' h' as'" using go(5) by (auto simp: step_ok_def)
  then have gr: "grows (own (?ts ! i)) as ?m as' (cells h')" by (simp add: step_ok_def)
  have fresh: "\<forall>j < length ?ts. j \<noteq> i \<longrightarrow> a \<notin> own (?ts ! j)"
    using inv go(4) by (metis nth_mem option.distinct(1) owned_ok_def)
  have other: "pc_ok as' (cells h') pcx \<and> owned_ok as' (cells h') pcx"
    if "pcx \<in> set (?ts[i := pc'])" for pcx
  proof -
    from that obtain j where j: "j < length ?ts" "pcx = ?ts[i := pc'] ! j"
      by (auto simp: in_set_conv_nth)
    show ?thesis
    proof (cases "j = i")
      case True
      then show ?thesis using j ok go(2) by (simp add: step_ok_def)
    next
      case False
      then have "own (?ts ! j) \<inter> own (?ts ! i) = {}"
        using inv j(1) go(2) unfolding disjoint_own_def by blast
      moreover have "pc_ok as ?m (?ts ! j)" "owned_ok as ?m (?ts ! j)" using inv j(1) by auto
      ultimately show ?thesis
        using False j grows_pc_ok [OF gr] grows_owned_ok [OF gr] by auto
    qed
  qed
  obtain vs where vs: "vals (cells h') as' = vals ?m as @ vs"
    "mset vs + pending (cells h') pc' = pending ?m (?ts ! i)" using ok by (auto simp: step_ok_def)
  have eq: "pending (cells h') pcx = pending ?m pcx" if "pcx \<in> set ?ts" for pcx
    using grows_pending [OF gr] inv that by blast
  then have sum: "(\<Sum>pc \<leftarrow> ?ts. pending (cells h') pc) = (\<Sum>pc \<leftarrow> ?ts. pending ?m pc)"
    by (metis (mono_tags, lifting) map_cong)
  have "(\<Sum>pc \<leftarrow> ?ts[i := pc']. pending (cells h') pc) + pending ?m (?ts ! i) =
      (\<Sum>pc \<leftarrow> ?ts. pending ?m pc) + pending (cells h') pc'"
    using sum_list_map_update [OF go(2), of "pending (cells h')" pc'] eq [OF pc] sum by simp
  then have moved: "(\<Sum>pc \<leftarrow> ?ts[i := pc']. pending (cells h') pc) + mset vs = (\<Sum>pc \<leftarrow> ?ts. pending ?m pc)"
    unfolding vs(2) [symmetric] by (simp flip: add.assoc)
  have "mset (vals (cells h') as') + (\<Sum>pc \<leftarrow> ?ts[i := pc']. pending (cells h') pc) =
      mset (vals ?m as) + ((\<Sum>pc \<leftarrow> ?ts[i := pc']. pending (cells h') pc) + mset vs)"
    unfolding vs(1) by (simp add: ac_simps)
  then have "mset (vals (cells h') as') + (\<Sum>pc \<leftarrow> ?ts[i := pc']. pending (cells h') pc) = tot"
    unfolding moved using inv by blast
  moreover have "disjoint_own (?ts[i := pc'])"
  proof -
    have "disjoint_own ?ts" and "own pc' \<subseteq> insert a (own (?ts ! i))"
      using inv ok by (blast, simp add: step_ok_def)
    then show ?thesis using disjoint_own_update go(2) fresh by blast
  qed
  ultimately have "append_inv tot c' as'"
    using go(1) ok other by (simp add: append_inv_def step_ok_def)
  then show ?thesis using vs(1) go(1) by auto
qed

lemma append_inv_steps:
  assumes "lsteps c c'" and "append_inv tot c as"
  shows "\<exists>as'. append_inv tot c' as' \<and>
    (\<exists>vs. vals (cells (heap c')) as' = vals (cells (heap c)) as @ vs)"
  using assms
proof (induction rule: rtranclp_induct)
  case (step d e)
  then obtain bs vs where d: "append_inv tot d bs"
    "vals (cells (heap d)) bs = vals (cells (heap c)) as @ vs" by blast
  from append_inv_step [OF d(1) step.hyps(2)] d(2) show ?case by auto
qed auto

lemma append_inv_safe:
  assumes "append_inv tot c as"
  shows "\<not> faulty c"
proof
  assume "faulty c"
  then obtain pc where pc: "pc \<in> set (threads c)" "\<not> finished pc" "thread_step 0 pc (heap c) = None"
    by (auto simp: faulty_def)
  then have "\<And>v. pc \<noteq> AppendCall v" by auto
  then obtain p h as' where "step_ok 0 pc (heap c) as p h as'"
    using append_step_ok [of "heap c" as pc 0] assms pc unfolding append_inv_def by blast
  then show False using pc(3) by (simp add: step_ok_def)
qed

text \<open>Threads that append one value each to an empty list.\<close>

definition appenders :: "'a list \<Rightarrow> 'a config" where
  "appenders vs = \<lparr>threads = map AppendCall vs, heap = list_new\<rparr>"

lemma append_inv_start: "append_inv (mset vs) (appenders vs) []"
proof -
  have "(\<Sum>pc \<leftarrow> map AppendCall vs. pending m pc) = mset vs" for m
    by (induction vs) (simp_all add: pending_def)
  then show ?thesis
    by (auto simp: append_inv_def appenders_def list_new_def holds_list_def owned_ok_def
        disjoint_own_def vals_def)
qed

lemma pending_finished: "finished pc \<Longrightarrow> pending m pc = {#}"
  by (cases pc) (simp_all add: pending_def)

lemma sum_list_finished:
  assumes "\<forall>pc \<in> set ts. finished pc"
  shows "(\<Sum>pc \<leftarrow> ts. pending m pc) = {#}"
  using assms by (induction ts) (simp_all add: pending_finished)

section \<open>Properties\<close>

lemma append_only_safe_spec:
  assumes "lsteps (appenders vs) c"
  shows "\<not> faulty c \<and> (\<exists>as. holds_list (heap c) as \<and> mset (vals (cells (heap c)) as) \<subseteq># mset vs \<and>
    ((\<forall>pc \<in> set (threads c). finished pc) \<longrightarrow> mset (vals (cells (heap c)) as) = mset vs))"
proof -
  obtain as where as: "append_inv (mset vs) c as"
    using append_inv_steps [OF assms append_inv_start] by blast
  then have "mset (vals (cells (heap c)) as) + (\<Sum>pc \<leftarrow> threads c. pending (cells (heap c)) pc) = mset vs"
    and "holds_list (heap c) as" by (auto simp: append_inv_def)
  moreover from this(1) have "mset (vals (cells (heap c)) as) \<subseteq># mset vs"
    by (metis mset_subset_eq_add_left)
  ultimately show ?thesis using append_inv_safe [OF as] sum_list_finished by fastforce
qed

text \<open>C11: However many appending threads interleave, none of them ever touches a null pointer or a node
  that is not there, the list is a proper chain at every moment with only values being appended in
  it, each as often as it is appended, and once all calls are back it holds exactly those values.\<close>

theorem append_only_safe:
  assumes "lsteps (appenders vs) c"
  shows "\<not> faulty c \<and> (\<exists>as. holds_list (heap c) as \<and> mset (vals (cells (heap c)) as) \<subseteq># mset vs \<and>
    ((\<forall>pc \<in> set (threads c). finished pc) \<longrightarrow> mset (vals (cells (heap c)) as) = mset vs))"
  using assms by (rule append_only_safe_spec)

text \<open>Two appends of which the second finds the empty list taken and starts over.\<close>

definition contended :: "(nat \<times> nat) list" where
  "contended = [(0, 0), (1, 1), (0, 2), (1, 2), (0, 2), (1, 2), (1, 2), (1, 2), (1, 2), (1, 2)]"

definition contended_end :: "nat config" where
  "contended_end = \<lparr>threads = [AppendDone, AppendDone], heap = \<lparr>head = Some 0,
     cells = [0 \<mapsto> Node 10 (Some 1), 1 \<mapsto> Node 20 None]\<rparr>\<rparr>"

lemma run_contended: "run_schedule contended (appenders [10, 20]) = Some contended_end"
  by (simp add: contended_def contended_end_def appenders_def list_new_def deref_def fun_eq_iff)

theorem append_only_safe_witness:
  "\<not> faulty contended_end \<and> (\<exists>as. holds_list (heap contended_end) as \<and>
    mset (vals (cells (heap contended_end)) as) \<subseteq># mset [10, 20] \<and>
    ((\<forall>pc \<in> set (threads contended_end). finished pc) \<longrightarrow>
      mset (vals (cells (heap contended_end)) as) = mset [10, 20]))"
  by (rule append_only_safe) (rule run_schedule_lsteps [OF run_contended])

text \<open>A list with one value, on which one thread appends another and one thread takes.\<close>

definition append_vs_take :: "nat config" where
  "append_vs_take = \<lparr>threads = [AppendCall 2, TakeCall],
     heap = \<lparr>head = Some 0, cells = [0 \<mapsto> Node 1 None]\<rparr>\<rparr>"

text \<open>An append that runs beside a take can return normally while its value is lost: the take
  had read the old end of the list, and empties it after the value was hung there.\<close>

theorem append_lost:
  "\<exists>c. lsteps append_vs_take c \<and> threads c = [AppendDone, TakeDone (Some 1)] \<and>
     holds_list (heap c) [] \<and> cells (heap c) 1 = Some (Node 2 None)"
proof -
  have "run_schedule [(0, 1), (0, 2), (0, 2), (0, 2), (1, 2), (1, 2), (0, 2), (1, 2), (1, 2)]
      append_vs_take =
    Some \<lparr>threads = [AppendDone, TakeDone (Some 1)], heap = \<lparr>head = None, cells = [1 \<mapsto> Node 2 None]\<rparr>\<rparr>"
    by (simp add: append_vs_take_def deref_def fun_eq_iff)
  from run_schedule_lsteps [OF this] show ?thesis
    by (intro exI conjI) (assumption, simp_all add: holds_list_def)
qed

text \<open>C37: An append beside a take can also follow a null head, or write into the node the take has
  freed; both are memory faults.\<close>

theorem append_take_faults:
  "(\<exists>c. lsteps append_vs_take c \<and> faulty c \<and> threads c ! 0 = IterNext 1 None) \<and>
   (\<exists>c. lsteps append_vs_take c \<and> faulty c \<and> threads c ! 0 = IterCas 1 0 \<and> cells (heap c) 0 = None)"
proof
  have "run_schedule [(0, 1), (0, 2), (1, 2), (1, 2), (1, 2), (1, 2), (0, 2)] append_vs_take =
    Some \<lparr>threads = [IterNext 1 None, TakeDone (Some 1)],
      heap = \<lparr>head = None, cells = [1 \<mapsto> Node 2 None]\<rparr>\<rparr>"
    by (simp add: append_vs_take_def fun_eq_iff)
  from run_schedule_lsteps [OF this]
  show "\<exists>c. lsteps append_vs_take c \<and> faulty c \<and> threads c ! 0 = IterNext 1 None"
    by (intro exI conjI) (assumption, simp_all add: faulty_def deref_def)
next
  have "run_schedule [(0, 1), (0, 2), (0, 2), (0, 2), (1, 2), (1, 2), (1, 2), (1, 2)] append_vs_take =
    Some \<lparr>threads = [IterCas 1 0, TakeDone (Some 1)],
      heap = \<lparr>head = None, cells = [1 \<mapsto> Node 2 None]\<rparr>\<rparr>"
    by (simp add: append_vs_take_def deref_def fun_eq_iff)
  from run_schedule_lsteps [OF this]
  show "\<exists>c. lsteps append_vs_take c \<and> faulty c \<and> threads c ! 0 = IterCas 1 0 \<and>
      cells (heap c) 0 = None"
    by (intro exI conjI) (assumption, simp_all add: faulty_def)
qed

end
