(* ===== verification/Auth.thy ===== *)
theory Auth
  imports Prelude
begin

text \<open>
  The credentials file of \<open>authentication.rs\<close>: decoding \<open>[user] [password]\<close>, the record that
  \<open>create\<close> appends to the file, and the search of \<open>authenticate\<close> through the records.  The
  operations on the file (one file, whose position is part of the state \<open>'s\<close>) are the record
  \<open>F\<close>, the crate \<open>argon2\<close> is the record \<open>A\<close>, the buffer is written with the crate \<open>bytes\<close>, \<open>B\<close>.
\<close>

section \<open>Parameters\<close>

datatype seek_from = SeekStart u64 | SeekEnd

datatype open_mode = OpenRead | OpenWrite | OpenReadAppend

record 's auth_file =
  af_open :: "open_mode \<Rightarrow> rstring \<Rightarrow> 's \<Rightarrow> (io_error + unit) \<times> 's"
  af_create_new :: "rstring \<Rightarrow> 's \<Rightarrow> (io_error + unit) \<times> 's"
  af_seek :: "seek_from \<Rightarrow> 's \<Rightarrow> (io_error + unit) \<times> 's"
  af_read_buf :: "nat \<Rightarrow> 's \<Rightarrow> (io_error + bytes) \<times> 's"
  af_write :: "bytes \<Rightarrow> 's \<Rightarrow> (io_error + nat) \<times> 's"
  af_flush :: "'s \<Rightarrow> (io_error + unit) \<times> 's"

record argon2 =
  hash_encoded :: "bytes \<Rightarrow> bytes \<Rightarrow> string + rstring"
  verify_encoded :: "rstring \<Rightarrow> bytes \<Rightarrow> string + bool"

section \<open>Data\<close>

definition SEGMENT_SIZE :: nat where "SEGMENT_SIZE = 311"
definition USERNAME_CAP :: nat where "USERNAME_CAP = 30"
definition PASSWORD_CAP :: nat where "PASSWORD_CAP = 256"
definition ALG_CAP :: nat where "ALG_CAP = 10"
definition SALT_CAP :: nat where "SALT_CAP = 10"

lemmas cap_defs = SEGMENT_SIZE_def USERNAME_CAP_def PASSWORD_CAP_def ALG_CAP_def SALT_CAP_def

record password_hashed =
  ph_password :: rstring
  ph_alg :: rstring
  ph_salt :: "rstring option"

datatype password = Hashed password_hashed | Plain rstring

record auth_data =
  ad_username :: rstring
  ad_password :: password

record authenticator =
  storage_path :: rstring

definition password_hashed_new :: "argon2 \<Rightarrow> bytes \<Rightarrow> (io_error, password_hashed) run" where
  "password_hashed_new A pwd =
     (let salt = lit ''random78'' in
      case hash_encoded A pwd salt of
        Inl e \<Rightarrow> panic
      | Inr password \<Rightarrow> ok \<lparr>ph_password = password, ph_alg = lit ''argon2'', ph_salt = Some salt\<rparr>)"

definition password_new_hash :: "argon2 \<Rightarrow> bytes \<Rightarrow> (io_error, password) run" where
  "password_new_hash A pwd = andThen (password_hashed_new A pwd) (\<lambda>hashed. ok (Hashed hashed))"

definition auth_data_new :: "rstring \<Rightarrow> rstring \<Rightarrow> auth_data" where
  "auth_data_new username password = \<lparr>ad_username = username, ad_password = Plain password\<rparr>"

definition auth_data_new_hashed :: "argon2 \<Rightarrow> rstring \<Rightarrow> rstring \<Rightarrow> (io_error, auth_data) run" where
  "auth_data_new_hashed A username password =
     andThen (password_new_hash A password) (\<lambda>hashed_password.
     ok \<lparr>ad_username = username, ad_password = hashed_password\<rparr>)"

definition hash_password :: "argon2 \<Rightarrow> auth_data \<Rightarrow> (io_error, auth_data) run" where
  "hash_password A auth =
     (case ad_password auth of
        Plain s \<Rightarrow> andThen (password_hashed_new A s) (\<lambda>hashed. ok (auth\<lparr>ad_password := Hashed hashed\<rparr>))
      | Hashed _ \<Rightarrow> ok auth)"

section \<open>Decoding\<close>

text \<open>Indexing with a range, \<open>&b[start..end]\<close>: it panics unless \<open>start \<le> end \<le> len\<close>.\<close>

definition slice :: "bytes \<Rightarrow> nat \<Rightarrow> nat \<Rightarrow> bytes option" where
  "slice b start end' =
     (if start \<le> end' \<and> end' \<le> length b then Some (take (end' - start) (drop start b)) else None)"

text \<open>
  The inner loop of \<open>decode\<close>, from \<open>i\<close> on: where it stops, and \<open>end\<close>, which stays 0 when there is
  no closing bracket.
\<close>

function closing :: "bytes \<Rightarrow> nat \<Rightarrow> nat \<times> nat" where
  "closing buffer i =
     (if i < length buffer then (if buffer ! i = 0x5D then (i, i) else closing buffer (i + 1)) else (i, 0))"
  by pat_completeness auto
termination by (relation "measure (\<lambda>(buffer, i). length buffer - i)") auto

declare closing.simps [simp del]

lemma closing_ge: "i \<le> fst (closing buffer i)"
  by (induction buffer i rule: closing.induct) (subst closing.simps, auto)

function decode_loop :: "bytes \<Rightarrow> nat \<Rightarrow> rstring list \<Rightarrow> (io_error, rstring list) run" where
  "decode_loop buffer i placeholder =
     (if i < length buffer then
        if buffer ! i = 0x5B then
          let (i', end') = closing buffer (i + 1) in
          need (slice buffer (i + 1) end') (\<lambda>enc_str.
          if utf8_valid enc_str then decode_loop buffer i' (placeholder @ [enc_str]) else panic)
        else decode_loop buffer (i + 1) placeholder
      else ok placeholder)"
  by pat_completeness auto
termination
proof (relation "measure (\<lambda>(buffer, i, placeholder). length buffer - i)", goal_cases)
  case (2 buffer i p c e enc_str)
  then show ?case using closing_ge [of "i + 1" buffer] by (cases "closing buffer (i + 1)") simp
qed auto

declare decode_loop.simps [simp del]

definition auth_decode :: "bytes \<Rightarrow> (io_error, auth_data) run" where
  "auth_decode buffer =
     andThen (decode_loop buffer 0 []) (\<lambda>placeholder.
     if length placeholder \<noteq> 2 then panic
     else ok (auth_data_new (placeholder ! 0) (placeholder ! 1)))"

section \<open>The record in the file\<close>

definition parts :: "bytes_crate \<Rightarrow> rstring \<Rightarrow> nat \<Rightarrow> nat \<times> bytes \<Rightarrow> nat \<times> bytes" where
  "parts B v cap = (\<lambda>(counter, buffer).
     let counter = counter + (cap + 1);
         buffer = put_slice B buffer v;
         buffer = (if length v < cap then put_bytes B buffer 0 (cap - length v) else buffer)
     in (counter, put_u8 B buffer 0x1F))"

definition auth_read :: "bytes_crate \<Rightarrow> auth_data \<Rightarrow> bytes \<Rightarrow> (io_error, nat \<times> bytes) run" where
  "auth_read B auth buffer =
     (let st = parts B (ad_username auth) USERNAME_CAP (0, buffer) in
      case ad_password auth of
        Plain _ \<Rightarrow> panic
      | Hashed password \<Rightarrow>
          let st = parts B (ph_password password) PASSWORD_CAP st;
              st = parts B (ph_alg password) ALG_CAP st;
              salt = (case ph_salt password of Some f \<Rightarrow> f | None \<Rightarrow> []);
              (counter, buffer) = parts B salt SALT_CAP st;
              buffer = put_u8 B buffer 0x0A
          in ok (counter + 1, buffer))"

section \<open>Searching a segment\<close>

text \<open>\<open>src[j]\<close> for \<open>j\<close> in a range of \<open>n\<close> indices; \<open>None\<close> is the panic of an index out of bounds.\<close>

fun index_each :: "bytes \<Rightarrow> nat \<Rightarrow> nat \<Rightarrow> bytes option" where
  "index_each src j 0 = Some []"
| "index_each src j (Suc n) =
     (if j < length src then map_option ((#) (src ! j)) (index_each src (Suc j) n) else None)"

text \<open>The loop of \<open>grab\<close>: the position after the first zero byte, or the end.\<close>

function after_nul :: "bytes \<Rightarrow> nat \<Rightarrow> nat \<Rightarrow> nat option" where
  "after_nul src pos end' =
     (if pos < end' then
        if pos < length src then (if src ! pos = 0 then Some (pos + 1) else after_nul src (pos + 1) end')
        else None
      else Some pos)"
  by pat_completeness auto
termination by (relation "measure (\<lambda>(src, pos, end'). end' - pos)") auto

declare after_nul.simps [simp del]

text \<open>\<open>clone_from_slice\<close> panics unless both slices have the same length.\<close>

definition clone_from_slice :: "bytes \<Rightarrow> bytes \<Rightarrow> bytes option" where
  "clone_from_slice val src = (if length val = length src then Some src else None)"

definition grab :: "bytes \<Rightarrow> nat \<Rightarrow> nat \<Rightarrow> (io_error, bytes \<times> nat) run" where
  "grab src pos cap =
     (let pos = pos + 1; end' = pos + cap in
      need (after_nul src pos end') (\<lambda>p.
      need (slice src p end') (\<lambda>placeholder.
      need (clone_from_slice [] placeholder) (\<lambda>val.
      ok (placeholder, pos + cap)))))"

text \<open>\<open>String::from_utf8\<close> with the default for bytes that are no string.\<close>

definition utf8_or_default :: "bytes \<Rightarrow> rstring" where
  "utf8_or_default b = (if utf8_valid b then b else [])"

text \<open>
  \<open>SegmentRead::evaluate\<close>.  The range of the comparison ends at \<open>pos + target.len()\<close>; its
  computation overflows, with overflow checks, for a target longer than the column.
\<close>

definition evaluate :: "bool \<Rightarrow> bytes \<Rightarrow> nat \<Rightarrow> rstring \<Rightarrow> (io_error, password_hashed option) run" where
  "evaluate checks src pos target =
     (if checks \<and> USERNAME_CAP < length target then panic
      else need (index_each src pos (length target)) (\<lambda>uname_bytes.
      if uname_bytes \<noteq> target then ok None
      else andThen (grab src (pos + USERNAME_CAP) PASSWORD_CAP) (\<lambda>(password, pos).
      let password = utf8_or_default password in
      andThen (grab src pos ALG_CAP) (\<lambda>(alg, pos).
      let alg = utf8_or_default alg in
      andThen (grab src pos SALT_CAP) (\<lambda>(salt, pos).
      if length salt = 0 then ok None
      else ok (Some \<lparr>ph_password = password, ph_alg = alg,
                 ph_salt = (if utf8_valid salt then Some salt else None)\<rparr>))))))"

fun evaluate_segments ::
    "bool \<Rightarrow> bytes \<Rightarrow> rstring \<Rightarrow> nat list \<Rightarrow> (io_error, password_hashed option) run" where
  "evaluate_segments checks buffer username [] = ok None"
| "evaluate_segments checks buffer username (i # is) =
     andThen (evaluate checks buffer (i * SEGMENT_SIZE) username) (\<lambda>r.
     case r of Some res \<Rightarrow> ok (Some res) | None \<Rightarrow> evaluate_segments checks buffer username is)"

section \<open>The store\<close>

definition username_not_found :: io_error where
  "username_not_found = IoError IoNotFound (lit ''username not found'')"

partial_function (option) get_loop ::
    "bool \<Rightarrow> 's auth_file \<Rightarrow> rstring \<Rightarrow> u64 \<Rightarrow> 's \<Rightarrow> (io_error, password_hashed) run" where
  "get_loop checks F username seek_idx s =
     (case af_seek F (SeekStart seek_idx) s of
        (Inl e, s) \<Rightarrow> err e
      | (Inr _, s) \<Rightarrow>
     (case af_read_buf F (4 * SEGMENT_SIZE) s of
        (Inl e, s) \<Rightarrow> err e
      | (Inr buffer, s) \<Rightarrow>
          if length buffer = 0 then err username_not_found
          else andThen (evaluate_segments checks buffer username [0..<4]) (\<lambda>r.
            case r of
              Some res \<Rightarrow> ok res
            | None \<Rightarrow>
                if length buffer < 4 * SEGMENT_SIZE then err username_not_found
                else need (uadd checks seek_idx (word_of_nat SEGMENT_SIZE + 1)) (\<lambda>seek_idx.
                  get_loop checks F username seek_idx s))))"

declare get_loop.simps [code]

definition auth_get ::
    "bool \<Rightarrow> 's auth_file \<Rightarrow> authenticator \<Rightarrow> rstring \<Rightarrow> 's \<Rightarrow> (io_error, password_hashed) run" where
  "auth_get checks F self username s =
     (case af_open F OpenRead (storage_path self) s of
        (Inl e, s) \<Rightarrow> err e
      | (Inr _, s) \<Rightarrow> get_loop checks F username 0 s)"

definition auth_write ::
    "'s auth_file \<Rightarrow> authenticator \<Rightarrow> bytes \<Rightarrow> 's \<Rightarrow> (io_error + nat) \<times> 's" where
  "auth_write F self buffer s =
     (case af_open F OpenWrite (storage_path self) s of
        (Inl e, s) \<Rightarrow> (Inl e, s)
      | (Inr _, s) \<Rightarrow>
     (case af_seek F SeekEnd s of
        (Inl e, s) \<Rightarrow> (Inl e, s)
      | (Inr _, s) \<Rightarrow>
     (case af_write F buffer s of
        (Inl e, s) \<Rightarrow> (Inl e, s)
      | (Inr written, s) \<Rightarrow>
     (case af_flush F s of (Inl e, s) \<Rightarrow> (Inl e, s) | (Inr _, s) \<Rightarrow> (Inr written, s)))))"

definition prepare_storage :: "'s auth_file \<Rightarrow> rstring \<Rightarrow> 's \<Rightarrow> (io_error + unit) \<times> 's" where
  "prepare_storage F path s =
     (case af_open F OpenReadAppend path s of
        (Inr f, s) \<Rightarrow> (Inr f, s)
      | (Inl e, s) \<Rightarrow> af_create_new F path s)"

definition authenticator_new :: "'s auth_file \<Rightarrow> rstring \<Rightarrow> 's \<Rightarrow> (io_error + authenticator) \<times> 's" where
  "authenticator_new F path s =
     (case prepare_storage F path s of
        (Inl e, s) \<Rightarrow> (Inl e, s)
      | (Inr _, s) \<Rightarrow> (Inr \<lparr>storage_path = path\<rparr>, s))"

definition authenticate ::
    "bool \<Rightarrow> 's auth_file \<Rightarrow> argon2 \<Rightarrow> authenticator \<Rightarrow> auth_data \<Rightarrow> 's \<Rightarrow> (io_error, bool) run" where
  "authenticate checks F A self auth s =
     (case auth_get checks F self (ad_username auth) s of
        None \<Rightarrow> None
      | Some Panic \<Rightarrow> panic
      | Some (Err _) \<Rightarrow> ok False
      | Some (Ok result_pwd) \<Rightarrow>
          (case ad_password auth of
             Hashed h \<Rightarrow> ok (ph_password result_pwd = ph_password h)
           | Plain s \<Rightarrow>
               (case verify_encoded A (ph_password result_pwd) s of Inr res \<Rightarrow> ok res | Inl _ \<Rightarrow> ok False)))"

definition auth_create ::
    "bytes_crate \<Rightarrow> 's auth_file \<Rightarrow> argon2 \<Rightarrow> authenticator \<Rightarrow> auth_data \<Rightarrow> 's \<Rightarrow> (io_error, bool) run \<times> 's" where
  "auth_create B F A self auth s =
     (case andThen (case ad_password auth of Plain _ \<Rightarrow> hash_password A auth | Hashed _ \<Rightarrow> ok auth)
             (\<lambda>data_create. auth_read B data_create []) of
        Some (Ok (n, buffer)) \<Rightarrow>
          (case auth_write F self buffer s of
             (Inl e, s) \<Rightarrow> (ok False, s)
           | (Inr v, s) \<Rightarrow> (ok (0 < v), s))
      | Some (Err e) \<Rightarrow> (err e, s)
      | Some Panic \<Rightarrow> (panic, s)
      | None \<Rightarrow> (None, s))"

section \<open>Lemmas on decoding\<close>

lemma closing_hit:
  assumes "0x5D \<notin> set w"
  shows "closing (pre @ w @ 0x5D # rest) (length pre) = (length pre + length w, length pre + length w)"
  using assms
proof (induction w arbitrary: pre)
  case Nil
  then show ?case by (subst closing.simps) simp
next
  case (Cons x w)
  have "closing ((pre @ [x]) @ w @ 0x5D # rest) (length (pre @ [x])) =
      (length (pre @ [x]) + length w, length (pre @ [x]) + length w)"
    using Cons.prems by (intro Cons.IH) simp
  then show ?case using Cons.prems by (subst closing.simps) (simp add: nth_append)
qed

lemma closing_miss: "0x5D \<notin> set (drop i b) \<Longrightarrow> i \<le> length b \<Longrightarrow> closing b i = (length b, 0)"
proof (induction "length b - i" arbitrary: i)
  case 0
  then show ?case by (subst closing.simps) simp
next
  case (Suc n)
  then have d: "drop i b = b ! i # drop (i + 1) b" by (simp add: Cons_nth_drop_Suc)
  have "closing b (i + 1) = (length b, 0)" by (rule Suc.hyps(1)) (use Suc.prems Suc.hyps(2) d in auto)
  then show ?case using Suc.prems d Suc.hyps(2) by (subst closing.simps) auto
qed

lemma decode_skip:
  assumes "0x5B \<notin> set w"
  shows "decode_loop (pre @ w @ rest) (length pre) ph = decode_loop (pre @ w @ rest) (length pre + length w) ph"
  using assms
proof (induction w arbitrary: pre)
  case (Cons x w)
  have "decode_loop ((pre @ [x]) @ w @ rest) (length (pre @ [x])) ph =
      decode_loop ((pre @ [x]) @ w @ rest) (length (pre @ [x]) + length w) ph"
    using Cons.prems by (intro Cons.IH) simp
  then show ?case using Cons.prems by (subst decode_loop.simps) (simp add: nth_append)
qed simp

lemma decode_bracket:
  assumes "0x5D \<notin> set w" and "utf8_valid w"
  shows "decode_loop (pre @ 0x5B # w @ 0x5D # rest) (length pre) ph =
    decode_loop (pre @ 0x5B # w @ 0x5D # rest) (length pre + length w + 2) (ph @ [w])"
proof -
  let ?b = "pre @ 0x5B # w @ 0x5D # rest"
  have c: "closing ?b (length pre + 1) = (length pre + 1 + length w, length pre + 1 + length w)"
    using closing_hit [OF assms(1), of "pre @ [0x5B]" rest] by simp
  have "decode_loop ?b (length pre) ph = decode_loop ?b (length pre + 1 + length w) (ph @ [w])"
    using c assms(2) by (subst decode_loop.simps) (simp add: slice_def nth_append)
  also have "\<dots> = decode_loop ?b (length pre + 1 + length w + 1) (ph @ [w])"
    by (subst decode_loop.simps) (simp add: nth_append)
  finally show ?thesis by simp
qed

lemma decode_end: "length b \<le> i \<Longrightarrow> decode_loop b i ph = ok ph"
  by (subst decode_loop.simps) simp

section \<open>Lemmas on the record\<close>

text \<open>A column of the record and the record of a user with an \<open>argon2\<close> password.\<close>

definition column :: "nat \<Rightarrow> rstring \<Rightarrow> bytes" where
  "column cap v = v @ replicate (cap - length v) 0 @ [0x1F]"

definition user_record :: "rstring \<Rightarrow> rstring \<Rightarrow> bytes" where
  "user_record u h = column 30 u @ column 256 h @ column 10 (lit ''argon2'') @
     column 10 (lit ''random78'') @ [0x0A]"

lemma length_column: "length v \<le> cap \<Longrightarrow> length (column cap v) = cap + 1"
  by (simp add: column_def)

lemma parts_column:
  "bytes_doc B \<Longrightarrow> parts B v cap (n, b) = (n + (cap + 1), b @ column cap v)"
  by (auto simp: parts_def column_def bytes_simps Let_def)

lemma auth_read_record:
  assumes "bytes_doc B"
  shows "auth_read B \<lparr>ad_username = u, ad_password = Hashed \<lparr>ph_password = h, ph_alg = lit ''argon2'',
      ph_salt = Some (lit ''random78'')\<rparr>\<rparr> b = ok (SEGMENT_SIZE, b @ user_record u h)"
  using assms by (simp add: auth_read_def parts_column [OF assms(1)] cap_defs user_record_def bytes_simps)

lemma length_user_record: "length u \<le> 30 \<Longrightarrow> length h \<le> 256 \<Longrightarrow> length (user_record u h) = SEGMENT_SIZE"
  by (simp add: user_record_def length_column lit_def SEGMENT_SIZE_def)

section \<open>Lemmas on the search\<close>

lemma after_nul_le:
  "pos \<le> k \<Longrightarrow> k < end' \<Longrightarrow> k < length src \<Longrightarrow> src ! k = 0 \<Longrightarrow>
     \<exists>p. after_nul src pos end' = Some p \<and> p \<le> k + 1"
proof (induction src pos end' rule: after_nul.induct)
  case (1 src pos end')
  show ?case
  proof (cases "src ! pos = 0")
    case True
    then show ?thesis using "1.prems" by (subst after_nul.simps) auto
  next
    case False
    then have "pos + 1 \<le> k" using "1.prems" by (cases "pos = k") auto
    then show ?thesis using "1.IH" "1.prems" False by (subst after_nul.simps) auto
  qed
qed

lemma grab_gives_nothing: "grab src pos cap = panic \<or> (\<exists>p. grab src pos cap = ok ([], p))"
  by (auto simp: grab_def Let_def need_def clone_from_slice_def split: option.splits)

lemma grab_nul_panics:
  assumes "pos < k" and "k < pos + cap" and "src ! k = 0" and "pos + 1 + cap \<le> length src"
  shows "grab src pos cap = panic"
proof -
  obtain p where "after_nul src (pos + 1) (pos + 1 + cap) = Some p" "p \<le> k + 1"
    using after_nul_le [of "pos + 1" k "pos + 1 + cap" src] assms by auto
  then show ?thesis using assms by (simp add: grab_def slice_def clone_from_slice_def)
qed

lemma index_each_prefix: "index_each (pre @ w @ rest) (length pre) (length w) = Some w"
proof (induction w arbitrary: pre)
  case (Cons x w)
  have "index_each ((pre @ [x]) @ w @ rest) (length (pre @ [x])) (length w) = Some w" by (rule Cons.IH)
  then show ?case by (simp add: nth_append)
qed simp

lemma after_grab:
  fixes P :: "(io_error, 'b) run \<Rightarrow> bool"
  assumes "P panic" and "\<And>q. P (f ([], q))"
  shows "P (andThen (grab src p cap) f)"
  using grab_gives_nothing [of src p cap] assms by (elim disjE exE) simp_all

lemma evaluate_never: "evaluate checks src pos target = panic \<or> evaluate checks src pos target = ok None"
proof -
  let ?P = "\<lambda>r. r = panic \<or> r = ok None"
  have "?P (andThen (grab src (pos + USERNAME_CAP) PASSWORD_CAP) (\<lambda>(password, pos).
      andThen (grab src pos ALG_CAP) (\<lambda>(alg, pos).
      andThen (grab src pos SALT_CAP) (\<lambda>(salt, pos).
      if length salt = 0 then ok None
      else ok (Some \<lparr>ph_password = utf8_or_default password, ph_alg = utf8_or_default alg,
                 ph_salt = (if utf8_valid salt then Some salt else None)\<rparr>)))))"
    by (intro after_grab [where P = ?P]) (simp, unfold prod.case, intro after_grab [where P = ?P],
        simp, unfold prod.case, intro after_grab [where P = ?P], simp_all)
  then show ?thesis by (simp add: evaluate_def Let_def need_def split: option.split)
qed

lemma evaluate_segments_never:
  "evaluate_segments checks b u is = panic \<or> evaluate_segments checks b u is = ok None"
proof (induction "is")
  case (Cons i "is")
  then show ?case using evaluate_never [of checks b "i * SEGMENT_SIZE" u] by auto
qed simp

lemma get_loop_never:
  assumes "get_loop checks F u n s = Some y"
  shows "\<nexists>r. y = Ok r"
proof (rule get_loop.raw_induct [where P = "\<lambda>checks F u n s y. \<nexists>r. y = Ok r", OF _ assms], goal_cases)
  case (1 get checks F u n s y)
  have rec: "get checks F u m s' \<noteq> ok r" for m s' r using 1(1) by blast
  show ?case
  proof (cases "af_seek F (SeekStart n) s")
    case seek: (Pair r s1)
    show ?thesis
    proof (cases "af_read_buf F (4 * SEGMENT_SIZE) s1")
      case read: (Pair b s2)
      show ?thesis
        using evaluate_segments_never [of checks "projr b" u "[0..<4]"] 1(2) seek read
        by (auto simp: need_def split: sum.splits if_splits option.splits simp: rec)
    qed
  qed
qed

section \<open>Properties\<close>

text \<open>A buffer with two pieces of text in square brackets, and no other opening bracket, is decoded
  to the user name and the password in them, whatever stands before, between and after.\<close>

theorem auth_decode_brackets:
  assumes "0x5B \<notin> set pre \<union> set mid \<union> set post" and "0x5D \<notin> set u \<union> set p"
    and "utf8_valid u" and "utf8_valid p"
  shows "auth_decode (pre @ 0x5B # u @ 0x5D # mid @ 0x5B # p @ 0x5D # post) = ok (auth_data_new u p)"
proof -
  let ?b = "pre @ 0x5B # u @ 0x5D # mid @ 0x5B # p @ 0x5D # post"
  let ?i = "length (pre @ 0x5B # u @ [0x5D])" and ?j = "length (pre @ 0x5B # u @ 0x5D # mid @ 0x5B # p @ [0x5D])"
  have "decode_loop ?b 0 [] = decode_loop ?b (length pre) []"
    using decode_skip [of pre "[]" "0x5B # u @ 0x5D # mid @ 0x5B # p @ 0x5D # post" "[]"] assms(1) by simp
  also have "\<dots> = decode_loop ?b ?i [u]"
    using decode_bracket [of u pre "mid @ 0x5B # p @ 0x5D # post" "[]"] assms(2,3) by simp
  also have "\<dots> = decode_loop ?b (?i + length mid) [u]"
    using decode_skip [of mid "pre @ 0x5B # u @ [0x5D]" "0x5B # p @ 0x5D # post" "[u]"] assms(1) by simp
  also have "\<dots> = decode_loop ?b ?j [u, p]"
    using decode_bracket [of p "pre @ 0x5B # u @ 0x5D # mid" post "[u]"] assms(2,4)
    by (simp add: ac_simps)
  also have "\<dots> = decode_loop ?b (?j + length post) [u, p]"
    using decode_skip [of post "pre @ 0x5B # u @ 0x5D # mid @ 0x5B # p @ [0x5D]" "[]" "[u, p]"] assms(1)
    by simp
  also have "\<dots> = ok [u, p]" by (rule decode_end) simp
  finally show ?thesis by (simp add: auth_decode_def auth_data_new_def)
qed

theorem auth_decode_brackets_witness:
  "auth_decode ([] @ 0x5B # lit ''arisy'' @ 0x5D # [0x0A] @ 0x5B # lit ''wadidawww9823'' @ 0x5D # []) =
     ok (auth_data_new (lit ''arisy'') (lit ''wadidawww9823''))"
  by (rule auth_decode_brackets) (simp_all add: lit_def)

text \<open>A bracket that is never closed panics, as does a buffer without two pieces in brackets.\<close>

theorem auth_decode_unclosed:
  assumes "0x5B \<notin> set pre" and "0x5D \<notin> set u"
  shows "auth_decode (pre @ 0x5B # u) = panic \<and> auth_decode pre = panic"
proof -
  have "decode_loop (pre @ 0x5B # u) 0 [] = decode_loop (pre @ 0x5B # u) (length pre) []"
    using decode_skip [of pre "[]" "0x5B # u" "[]"] assms(1) by simp
  moreover have "closing (pre @ 0x5B # u) (length pre + 1) = (length (pre @ 0x5B # u), 0)"
    using assms(2) by (intro closing_miss) auto
  then have "decode_loop (pre @ 0x5B # u) (length pre) [] = panic"
    by (subst decode_loop.simps) (simp add: slice_def nth_append)
  moreover have "decode_loop pre 0 [] = ok []"
    using decode_skip [of pre "[]" "[]" "[]"] assms(1) by (simp add: decode_end)
  ultimately show ?thesis by (simp add: auth_decode_def)
qed

theorem auth_decode_unclosed_witness:
  "auth_decode ([0x20] @ 0x5B # lit ''arisy'') = panic \<and> auth_decode [0x20] = panic"
  by (rule auth_decode_unclosed) (simp_all add: lit_def)

text \<open>C31: Creating a user writes one record at the end of the file: the user name, the hash of the password,
  the name of the algorithm and the salt, each filled up with zeroes to the width of its column when
  it is shorter.  Nothing bounds the name and the hash: the record has the 311 bytes of a segment
  exactly when the name has at most 30 bytes and the hash at most 256, and each byte beyond makes it
  longer by one.  The result says only whether any byte was written.\<close>

theorem create_appends_record:
  assumes "bytes_doc B" and "hash_encoded A pwd (lit ''random78'') = Inr h"
    and "af_open F OpenWrite (storage_path self) s = (Inr (), s1)"
    and "af_seek F SeekEnd s1 = (Inr (), s2)" and "af_write F (user_record u h) s2 = (Inr n, s3)"
    and "af_flush F s3 = (Inr (), s4)"
  shows "auth_create B F A self (auth_data_new u pwd) s = (ok (0 < n), s4) \<and>
    length (user_record u h) = 311 + (length u - 30) + (length h - 256) \<and>
    (length (user_record u h) = SEGMENT_SIZE \<longleftrightarrow> length u \<le> 30 \<and> length h \<le> 256)"
  using assms auth_read_record [OF assms(1), of u h "[]"]
  by (auto simp: auth_create_def auth_write_def auth_data_new_def hash_password_def password_hashed_new_def
      user_record_def column_def lit_def SEGMENT_SIZE_def)

text \<open>A file in memory: its content and the position.\<close>

definition memory_file :: "(bytes \<times> nat) auth_file" where
  "memory_file = \<lparr>
     af_open = (\<lambda>m p (b, i). (Inr (), (b, 0))),
     af_create_new = (\<lambda>p (b, i). (Inr (), ([], 0))),
     af_seek = (\<lambda>w (b, i). (Inr (), (b, case w of SeekStart n \<Rightarrow> unat n | SeekEnd \<Rightarrow> length b))),
     af_read_buf = (\<lambda>n (b, i). (Inr (take n (drop i b)), (b, i + min n (length b - i)))),
     af_write = (\<lambda>w (b, i). (Inr (length w), (take i b @ w @ drop (i + length w) b, i + length w))),
     af_flush = (\<lambda>s. (Inr (), s))\<rparr>"

definition toy_argon2 :: argon2 where
  "toy_argon2 = \<lparr>hash_encoded = (\<lambda>p s. Inr (p @ s)), verify_encoded = (\<lambda>h p. Inr True)\<rparr>"

theorem create_appends_record_witness:
  "auth_create list_bytes memory_file toy_argon2 \<lparr>storage_path = lit ''piw''\<rparr>
      (auth_data_new (lit ''arisy'') (lit ''pw'')) ([], 0) =
      (ok (0 < (311 :: nat)), (user_record (lit ''arisy'') (lit ''pwrandom78''), 311)) \<and>
    length (user_record (lit ''arisy'') (lit ''pwrandom78'')) =
      311 + (length (lit ''arisy'') - 30) + (length (lit ''pwrandom78'') - 256) \<and>
    (length (user_record (lit ''arisy'') (lit ''pwrandom78'')) = SEGMENT_SIZE \<longleftrightarrow>
      length (lit ''arisy'') \<le> 30 \<and> length (lit ''pwrandom78'') \<le> 256)"
  by (rule create_appends_record [OF list_bytes_doc, where ?s1.0 = "([], 0)" and ?s2.0 = "([], 0)" and
        ?s3.0 = "(user_record (lit ''arisy'') (lit ''pwrandom78''), 311)"])
    (simp_all add: memory_file_def toy_argon2_def length_user_record SEGMENT_SIZE_def lit_def)

lemma authenticate_never_true_spec:
  "authenticate checks F A self auth s \<noteq> ok True \<and> (\<nexists>p. auth_get checks F self u s = ok p)"
proof -
  have never: "\<nexists>p. auth_get checks F self v s = ok p" for v
    using get_loop_never [of checks F v 0] by (auto simp: auth_get_def split: prod.splits sum.splits)
  then show ?thesis by (auto simp: authenticate_def split: option.splits outcome.splits)
qed

text \<open>C32: Nobody is ever authenticated: whatever the file holds and however it is read, the search for
  the user name gives no password (every column that is read back without a panic is empty), so
  authentication fails, panics or does not come back.\<close>

theorem authenticate_never_true:
  "authenticate checks F A self auth s \<noteq> ok True \<and> (\<nexists>p. auth_get checks F self u s = ok p)"
  by (rule authenticate_never_true_spec)

text \<open>A user whose record is the first of the file makes the authentication panic, with whatever
  password (if the stored hash is shorter than 255 bytes): the column that holds the hash is read
  into a vector that has room but no elements.\<close>

theorem registered_user_panics:
  assumes "length u \<le> 30" and "length h < 255"
    and "af_open F OpenRead (storage_path self) s = (Inr (), s1)"
    and "af_seek F (SeekStart 0) s1 = (Inr (), s2)"
    and "af_read_buf F 1244 s2 = (Inr (user_record u h @ rest), s3)"
  shows "authenticate checks F A self (auth_data_new u pwd) s = panic"
proof -
  let ?b = "user_record u h @ rest"
  have len: "length (user_record u h) = 311"
    using length_user_record [of u h] assms(1,2) by (simp add: SEGMENT_SIZE_def)
  have "index_each ?b 0 (length u) = Some u"
    using index_each_prefix [of "[]" u "drop (length u) (column 30 u) @ drop 31 ?b"]
      length_column [OF assms(1)]
    by (simp add: user_record_def) (simp add: column_def)
  moreover have "replicate (256 - length h) (0 :: u8) = 0 # replicate (255 - length h) 0"
    using assms(2) by (simp add: Suc_diff_Suc flip: replicate_Suc)
  then have "\<exists>z. ?b = (column 30 u @ h) @ 0 # z" by (simp add: user_record_def column_def [of 256])
  then have "?b ! (31 + length h) = 0"
    using nth_append_length [of "column 30 u @ h"] length_column [OF assms(1)] by auto
  then have "grab ?b 30 256 = panic"
    using len assms(2) by (intro grab_nul_panics [where k = "31 + length h"]) simp_all
  ultimately have "evaluate checks ?b 0 u = panic"
    using assms(1) by (simp add: evaluate_def cap_defs)
  moreover have "?b \<noteq> []" using len by auto
  ultimately have "auth_get checks F self u s = panic"
    using assms(3-5) by (simp add: auth_get_def upt_rec get_loop.simps [of checks F u 0 s1] SEGMENT_SIZE_def)
  then show ?thesis by (simp add: authenticate_def auth_data_new_def)
qed

theorem registered_user_panics_witness:
  "authenticate True memory_file toy_argon2 \<lparr>storage_path = lit ''piw''\<rparr>
     (auth_data_new (lit ''arisy'') (lit ''pw'')) (user_record (lit ''arisy'') (lit ''pwrandom78'') @ [], 311) = panic"
  by (rule registered_user_panics [where h = "lit ''pwrandom78''" and rest = "[]" and
        ?s1.0 = "(user_record (lit ''arisy'') (lit ''pwrandom78'') @ [], 0)" and
        ?s2.0 = "(user_record (lit ''arisy'') (lit ''pwrandom78'') @ [], 0)" and
        ?s3.0 = "(user_record (lit ''arisy'') (lit ''pwrandom78'') @ [], 311)"])
    (simp_all add: memory_file_def length_user_record SEGMENT_SIZE_def lit_def)

end
