(* ===== verification/StructureTests.thy ===== *)
theory StructureTests
  imports ListThreads Router Auth
begin

text \<open>
  The tests of \<open>ds/linked_list.rs\<close>, \<open>ds/trie.rs\<close> and \<open>authentication.rs\<close>, on the model.  A test is a
  definition that is true when all its assertions hold, or the configuration its threads start in.
\<close>

section \<open>The lock-free list\<close>

text \<open>\<open>collects\<close>, which only the tests use: the values from the head on; \<open>None\<close> is a fault or no return.\<close>

partial_function (option) collect_from :: "'a lheap \<Rightarrow> nat option \<Rightarrow> 'a list \<Rightarrow> 'a list option" where
  "collect_from h cur collect =
     (case cur of
        None \<Rightarrow> Some collect
      | Some a \<Rightarrow> Option.bind (cells h a) (\<lambda>n. collect_from h (nxt n) (collect @ [val n])))"

declare collect_from.simps [code]

definition collects :: "'a lheap \<Rightarrow> 'a list option" where
  "collects h = collect_from h (head h) []"

lemma collect_from_chain: "chain (cells h) p as \<Longrightarrow> collect_from h p acc = Some (acc @ vals (cells h) as)"
  by (induction as arbitrary: p acc) (auto simp: collect_from.simps vals_def)

lemma collects_chain: "holds_list h as \<Longrightarrow> collects h = Some (vals (cells h) as)"
  using collect_from_chain [of h "head h" as "[]"] by (simp add: collects_def holds_list_def)

text \<open>
  The threads of the tests \<open>concurrent_insert\<close> and \<open>ctxswitch_insert\<close>: each of the three appends 0 to 5,
  one call after the other.  The calls are started here as threads of their own, which allows more
  interleavings: those of the tests are among them.
\<close>

definition insert_test_start :: "u8 config" where
  "insert_test_start = appenders (concat (replicate 3 [0, 1, 2, 3, 4, 5]))"

text \<open>The list of 600 numbers, and the first call of each of the three threads of \<open>concurrent_take_first\<close>.\<close>

definition take_test_start :: "u16 config" where
  "take_test_start = \<lparr>threads = [TakeCall, TakeCall, TakeCall],
     heap = \<lparr>head = Some 0, cells = (\<lambda>a. if a < 600
       then Some (Node (word_of_nat a) (if a + 1 < 600 then Some (a + 1) else None)) else None)\<rparr>\<rparr>"

section \<open>The topic trie\<close>

definition trie_test_cases :: "(client_id \<times> subscribe list) list" where
  "trie_test_cases = [
     (clid_new (lit ''clid1''), [
        \<lparr>sub_topic = lit ''home/bathroom/lamp'', sub_max_qos = QoS1\<rparr>,
        \<lparr>sub_topic = lit ''home/kitchen'', sub_max_qos = QoS2\<rparr>]),
     (clid_new (lit ''clid2''), [
        \<lparr>sub_topic = lit ''home/kitchen/topek'', sub_max_qos = QoS2\<rparr>,
        \<lparr>sub_topic = lit ''home/livingroom/fan'', sub_max_qos = QoS2\<rparr>])]"

text \<open>The loops over the subscriptions of one test case: \<open>None\<close> when an assertion fails.\<close>

fun insert_asserted :: "client_id \<Rightarrow> subscribe list \<Rightarrow> client_id child \<Rightarrow> client_id child option" where
  "insert_asserted clid [] tree = Some tree"
| "insert_asserted clid (sub # subs) tree =
     (case trie_insert True tree (sub_topic sub) clid of
        Some (True, tree) \<Rightarrow> insert_asserted clid subs tree
      | _ \<Rightarrow> None)"

fun remove_asserted :: "client_id \<Rightarrow> subscribe list \<Rightarrow> client_id child \<Rightarrow> client_id child option" where
  "remove_asserted clid [] tree = Some tree"
| "remove_asserted clid (sub # subs) tree =
     (case trie_remove clid_ne tree (sub_topic sub) clid of
        Some (Some True, tree) \<Rightarrow> remove_asserted clid subs tree
      | _ \<Rightarrow> None)"

definition got_all :: "client_id \<Rightarrow> subscribe list \<Rightarrow> client_id child \<Rightarrow> bool" where
  "got_all clid subs tree = list_all (\<lambda>sub.
     case trie_get_val tree (sub_topic sub) of Some (Some got) \<Rightarrow> clid_eq got clid | _ \<Rightarrow> False) subs"

definition got_none :: "subscribe list \<Rightarrow> client_id child \<Rightarrow> bool" where
  "got_none subs tree = list_all (\<lambda>sub. trie_get_val tree (sub_topic sub) = Some None) subs"

text \<open>One round of a loop over the test cases; the tree is \<open>None\<close> after an assertion that failed.\<close>

definition subscriber_round ::
    "client_id \<times> subscribe list \<Rightarrow> client_id child option \<Rightarrow> client_id child option" where
  "subscriber_round test pref_tree =
     Option.bind pref_tree (\<lambda>tree.
     Option.bind (insert_asserted (fst test) (snd test) tree) (\<lambda>tree.
       if got_all (fst test) (snd test) tree then Some tree else None))"

definition remove_round ::
    "client_id \<times> subscribe list \<Rightarrow> client_id child option \<Rightarrow> client_id child option" where
  "remove_round test pref_tree =
     Option.bind pref_tree (\<lambda>tree.
     Option.bind (remove_asserted (fst test) (snd test) tree) (\<lambda>tree.
       if got_none (snd test) tree then Some tree else None))"

definition test_subscriber :: bool where
  "test_subscriber =
     (fold remove_round trie_test_cases (fold subscriber_round trie_test_cases (Some trie_new)) \<noteq> None)"

definition test_cleanup :: bool where
  "test_cleanup =
     (case fold (\<lambda>test tree. Option.bind tree (insert_asserted (fst test) (snd test)))
             trie_test_cases (Some trie_new) of
        None \<Rightarrow> False
      | Some tree \<Rightarrow>
          (let target = trie_test_cases ! 1; topic = sub_topic (snd target ! 1) in
           case trie_remove clid_ne tree topic (fst target) of
             None \<Rightarrow> False
           | Some (_, tree) \<Rightarrow> trie_get_val tree topic = Some None))"

section \<open>The authenticator\<close>

definition test_ensure_create_or_open :: "'s auth_file \<Rightarrow> 's \<Rightarrow> bool" where
  "test_ensure_create_or_open F s =
     (case authenticator_new F (lit ''./piw'') s of
        (Inl e, s) \<Rightarrow> False
      | (Inr _, s) \<Rightarrow> (case authenticator_new F (lit ''./piw'') s of (Inl e, s) \<Rightarrow> False | (Inr _, s) \<Rightarrow> True))"

fun create_each ::
    "bytes_crate \<Rightarrow> bool \<Rightarrow> 's auth_file \<Rightarrow> argon2 \<Rightarrow> authenticator \<Rightarrow> (rstring \<times> rstring) list \<Rightarrow> 's \<Rightarrow> bool" where
  "create_each B checks F A authenticator [] s = True"
| "create_each B checks F A authenticator ((uname, pwd) # tests) s =
     (let auth_data = auth_data_new uname pwd in
      case hash_password A auth_data of
        Some (Ok hashed) \<Rightarrow>
          (case auth_create B F A authenticator hashed s of (created, s) \<Rightarrow>
             created = ok True \<and>
             authenticate checks F A authenticator auth_data s = ok True \<and>
             create_each B checks F A authenticator tests s)
      | _ \<Rightarrow> False)"

definition test_create_user_checked ::
    "bytes_crate \<Rightarrow> bool \<Rightarrow> 's auth_file \<Rightarrow> argon2 \<Rightarrow> 's \<Rightarrow> bool" where
  "test_create_user_checked B checks F A s =
     (case authenticator_new F (lit ''./piw'') s of
        (Inl e, s) \<Rightarrow> False
      | (Inr authenticator, s) \<Rightarrow> create_each B checks F A authenticator [
          (lit ''arisy'', lit ''wadidawww9823''),
          (lit ''prikis'', lit ''kenllopm21''),
          (lit ''jtrtt'', lit ''uohafw@43eughr\"ew2185few{}Q@$'')] s)"

text \<open>The words of \<open>decode_checked\<close>, each in brackets on a line of its own.\<close>

definition bracketed :: "string \<Rightarrow> string \<Rightarrow> bytes" where
  "bracketed u p = 0x5B # lit u @ [0x5D, 0x0A, 0x5B] @ lit p @ [0x5D]"

definition test_decode_checked :: "bool \<Rightarrow> 's auth_file \<Rightarrow> argon2 \<Rightarrow> 's \<Rightarrow> bool" where
  "test_decode_checked checks F A s =
     (case authenticator_new F (lit ''./piw'') s of
        (Inl e, s) \<Rightarrow> False
      | (Inr authenticator, s) \<Rightarrow> list_all (\<lambda>test.
          case auth_decode test of
            Some (Ok auth_data) \<Rightarrow> authenticate checks F A authenticator auth_data s = ok True
          | _ \<Rightarrow> False) [
          bracketed ''arisy'' ''wadidawww9823'',
          bracketed ''prikis'' ''kenllopm21'',
          bracketed ''jtrtt'' ''uohafw@43eughr\"ew2185few{}Q@$''])"

lemma create_each_fails: "\<not> create_each B checks F A a (test # tests) s"
  by (cases test)
    (simp add: Let_def authenticate_never_true_spec [THEN conjunct1] split: prod.split option.split outcome.split)

lemma decode_each_fails:
  "\<not> list_all (\<lambda>test. case auth_decode test of
       Some (Ok auth_data) \<Rightarrow> authenticate checks F A a auth_data s = ok True | _ \<Rightarrow> False) (test # tests)"
  by (simp add: authenticate_never_true_spec [THEN conjunct1] split: option.split outcome.split)

section \<open>Properties\<close>

text \<open>When all appending threads are back, in whatever order their steps came, collecting the list
  from its head gives exactly the appended values, each as often as it was appended.\<close>

theorem collects_after_appends:
  assumes "lsteps (appenders vs) c" and "\<forall>pc \<in> set (threads c). finished pc"
  shows "\<exists>ws. collects (heap c) = Some ws \<and> mset ws = mset vs"
  using append_only_safe_spec [OF assms(1)] assms(2) collects_chain by blast

theorem collects_after_appends_witness:
  "\<exists>ws. collects (heap contended_end) = Some ws \<and> mset ws = mset [10, 20]"
  by (rule collects_after_appends [OF run_schedule_lsteps [OF run_contended]])
    (simp add: contended_end_def)

text \<open>The assertion of the two tests that insert: 18 values.\<close>

theorem concurrent_insert_test:
  assumes "lsteps insert_test_start c" and "\<forall>pc \<in> set (threads c). finished pc"
  shows "\<exists>ppp. collects (heap c) = Some ppp \<and> length ppp = 18"
proof -
  from append_only_safe_spec [OF assms(1) [unfolded insert_test_start_def]] assms(2)
  obtain as where "holds_list (heap c) as"
    "mset (vals (cells (heap c)) as) = mset (concat (replicate 3 [0, 1, 2, 3, 4, 5]))" by blast
  then have "length (vals (cells (heap c)) as) = 18"
    using mset_eq_length by (fastforce simp: eval_nat_numeral)
  then show ?thesis using collects_chain \<open>holds_list (heap c) as\<close> by blast
qed

text \<open>The test that takes from three threads asserts nothing, and its threads can read a node that
  is freed already: one thread loads the head, another takes that node out and frees it, and the
  first then loads the next pointer of the freed node.\<close>

theorem concurrent_take_faults:
  "\<exists>c. lsteps take_test_start c \<and> faulty c \<and> threads c ! 0 = TakeNext 0 \<and>
     threads c ! 1 = TakeDone (Some 0) \<and> cells (heap c) 0 = None"
proof -
  have "run_schedule [(0, 600), (1, 600), (1, 600), (1, 600), (1, 600)] take_test_start =
    Some \<lparr>threads = [TakeNext 0, TakeDone (Some 0), TakeCall],
      heap = \<lparr>head = Some 1, cells = (cells (heap take_test_start))(0 := None)\<rparr>\<rparr>"
    by (simp add: take_test_start_def)
  from run_schedule_lsteps [OF this] show ?thesis
    by (intro exI conjI) (assumption, simp_all add: faulty_def)
qed

text \<open>Both tests of the trie hold as they stand in the sources.\<close>

theorem trie_tests_pass: "test_subscriber \<and> test_cleanup"
  by (intro conjI; code_simp)

text \<open>The tests of the authenticator that authenticate cannot pass, whatever the file and the
  password hashing do; the one that only creates or opens the file does if the file can be opened.\<close>

theorem auth_tests_cannot_pass:
  "\<not> test_create_user_checked B checks F A s \<and> \<not> test_decode_checked checks F A s \<and>
   test_ensure_create_or_open memory_file ([], 0)"
proof (intro conjI)
  show "\<not> test_create_user_checked B checks F A s"
    by (simp add: test_create_user_checked_def create_each_fails del: create_each.simps split: prod.split sum.split)
  show "\<not> test_decode_checked checks F A s"
    by (simp only: test_decode_checked_def decode_each_fails split: prod.split sum.split) simp
  show "test_ensure_create_or_open memory_file ([], 0)"
    by (simp add: test_ensure_create_or_open_def authenticator_new_def prepare_storage_def memory_file_def)
qed

end
