(* ===== verification/Spec2Isabelle.thy ===== *)
theory Spec2Isabelle
  imports Startup Coordinator RegistryHeap TrieThreads PacketTests StructureTests
begin

text \<open>
  A verification development of sipusu, an MQTT 5 broker in Rust (\<open>src/src\<close>).

  The program.  \<open>server.rs\<close> accepts connections and hands each to \<open>connection/handler.rs\<close>, which
  reads a CONNECT packet, answers with a CONNACK and starts or restores a session.  The session's
  client goes into the registry (\<open>client/clients.rs\<close>, sorted by client identifier), its files are
  written (\<open>client/storage.rs\<close>), and a task is spawned that listens to it
  (\<open>message_broker/mediator.rs\<close>): a PUBLISH goes into the message queue (\<open>message.rs\<close>, on the
  lock-free list of \<open>ds/linked_list.rs\<close>), a SUBSCRIBE into the topic tree (\<open>router.rs\<close>,
  \<open>ds/trie.rs\<close>) and the client's file of subscriptions.  The observer takes messages out of the
  queue, looks their topic up in the tree and forwards them through the registry, with the
  acknowledgements of the quality of service.  The packets are encoded and decoded by
  \<open>protocol/v5\<close>.

  How the code is modelled.  A struct is a record, an enum a datatype, an integer a word of its
  width, a \<open>String\<close> or a buffer the list of its bytes.  A call gives \<open>ok\<close>, \<open>err\<close> or \<open>panic\<close>, or
  \<open>None\<close> when it does not return (theory \<open>Prelude\<close>; in the theories with a heap also when it follows a
  pointer that leads nowhere); every unwrap, index out of bounds, arithmetic
  overflow (with \<open>checks\<close>, the overflow checks of the dev profile, or without) and early return of
  the source is a branch.  Mutable state is passed explicitly.  Loops that may not end are
  \<open>partial_function (option)\<close>, so there is no fuel anywhere, and that they return is proved
  (\<open>decoders_return\<close>, \<open>clear_ends\<close>, the lemmas named \<open>returns_\<close>); the other loops are functions
  with a termination proof.  The definitions that model code can be evaluated (\<open>code_simp\<close>).  Code of
  other crates is a parameter: the buffers of \<open>bytes\<close> (\<open>B\<close>, with the documented behaviour \<open>bytes_doc\<close>,
  which \<open>list_bytes\<close> satisfies), the sockets of \<open>tokio\<close> (\<open>RT\<close> reads with a timeout, \<open>W\<close> writes all),
  files (\<open>F\<close>), \<open>argon2\<close> (\<open>A\<close>), the TLS handshake (\<open>TLS\<close>) and configuration (\<open>T\<close>).  The time is an
  argument.

  The theories, in the order of their imports:

  \<^item> \<open>Prelude\<close>: outcomes, checked arithmetic, big-endian images, UTF-8, the interface of \<open>bytes\<close>.
  \<^item> \<open>Wire\<close> (\<open>protocol/v5/mod.rs\<close>, \<open>malform.rs\<close>): remaining length, strings, service levels; the
    encoders against reference images, the remaining length decoder on every buffer.
  \<^item> \<open>Subscribe\<close>, \<open>PubAck\<close>, \<open>Publish\<close>, \<open>Connect\<close>, \<open>Connack\<close> (the files of these names and
    \<open>subsack.rs\<close>), \<open>ClientPacket\<close> (\<open>mqtt.rs\<close>): the packets; for each the image of a well-formed
    packet, that the encoder writes it and the decoder reads it back, and the packets on which the
    code fails.
  \<^item> \<open>ClientId\<close> and \<open>Session\<close> (\<open>client/clobj.rs\<close>): the hash and the order of identifiers (an
    instance of \<open>linorder\<close>), deadlines and keep-alive; the interface \<open>session_controller\<close>.
  \<^item> \<open>Trie\<close> and \<open>Router\<close>: the tree of topics, abstracted to the map from topics to subscribers;
    the interface \<open>topic_store\<close>.
  \<^item> \<open>TrieThreads\<close>: insertion into the tree by threads in any interleaving, on a heap of nodes.  One thread
    alone does what \<open>Trie\<close> says; threads on branches that exist are safe; two that make the same branch
    can lose a subscriber.
  \<^item> \<open>LinkedList\<close>, \<open>ListThreads\<close>, \<open>MsgQueue\<close>: the lock-free list on an explicit heap, one step per
    atomic operation; alone it is a queue of values (the interface \<open>fifo_queue\<close>), appends of any number of
    threads lose and duplicate nothing, an append beside a take can fault; the queue with its
    waker refines a list, and loses a wake-up in one interleaving.
  \<^item> \<open>Registry\<close> (\<open>client/clients.rs\<close>): sorted insertion, binary search, the exchanges \<open>qos0\<close>,
    \<open>qos1\<close>, \<open>qos2\<close> on the interface \<open>client_directory\<close>; abstracted to the map from identifiers to
    clients.
  \<^item> \<open>RegistryHeap\<close>: the slots of the registry, shared with the listening tasks, and the boxes of the
    clients behind them.  Insertion refines that of \<open>Registry\<close>; a takeover leaves two tasks on one slot,
    and can free a client that its old task still uses.
  \<^item> \<open>Coordinator\<close> (\<open>msg_state.rs\<close>): the states of acknowledgements.
  \<^item> \<open>Storage\<close> and \<open>ClientLife\<close> (\<open>client/storage.rs\<close>, \<open>client/client.rs\<close>): the files of a client,
    what is written and read back, creating and restoring a client, clearing the registry.
  \<^item> \<open>Socket\<close> (\<open>connection/line.rs\<close>, \<open>connection/mod.rs\<close>, the sockets of \<open>clobj.rs\<close>): the
    dispatch over TCP and TLS and reading with a timeout, on the interface \<open>duplex\<close>.
  \<^item> \<open>Mediator\<close> (\<open>mediator.rs\<close>): one round of the listening task, one message of the observer,
    forwarding, subscribing, taking clients in.
  \<^item> \<open>Listening\<close> (\<open>spawn_client\<close> as a whole, over the times its rounds begin) and \<open>Observer\<close> (the
    observer over the events it waits for, with the queue, the registry and the tasks): what a
    client publishes is delivered in order, a silent client is dropped, an interrupt cleans up.
  \<^item> \<open>Handshake\<close> (\<open>connection/\<close>) and \<open>Server\<close> (\<open>server.rs\<close>): from the request to the registered
    client, and the accept loops over the events they see, on the interface \<open>wire\<close>.
  \<^item> \<open>Broker\<close>: the program as a transition system.  A state (\<open>world\<close>) is the registry, the tasks with
    their read buffers, the queue, the topic tree and the logs, with the messages that were ever queued
    and taken; a step (\<open>bstep\<close>) is one connection, one round of a listening task, one event of the
    observer or an interrupt, by the definitions of the other theories.  So the handlers go one at a
    time, in any order; what threads do to each other inside a handler is in \<open>ListThreads\<close>, \<open>MsgQueue\<close> and
    \<open>TrieThreads\<close>, and there messages and subscribers can be lost.  Shown by rule induction over
    every run from the empty broker: which clients and subscriptions there are, that the queue is in
    order and complete until an interrupt drops what is left in it, that the next message can be dealt
    with, and that no client and no subscription is removed.
  \<^item> \<open>Startup\<close> (\<open>Server::bind\<close> and \<open>CertificatePath\<close> of \<open>server.rs\<close>, \<open>main.rs\<close>, \<open>helper/time.rs\<close>): the
    certificates, what is bound on every branch, the two tasks the program starts.
  \<^item> \<open>Auth\<close> (\<open>authentication.rs\<close>): the credentials file, which the program does not use yet.
  \<^item> \<open>PacketTests\<close> and \<open>StructureTests\<close>: the unit tests of the sources as definitions, most of them
    proved to pass on the model and three to fail; they check the model against what its authors
    expect of the code.

  The properties are the theorems whose text begins with their number, from C1 on; a theorem
  \<open>_witness\<close> applies one to concrete values.  They stand in the theory of the component they are
  about, those that span components in \<open>Mediator\<close>, \<open>Observer\<close>, \<open>Handshake\<close>, \<open>Server\<close>, \<open>RegistryHeap\<close>
  and \<open>Broker\<close>.

  Bounds.  A remaining length is below \<open>128 ^ 4\<close>; a CONNECT body of at most 10000 bytes stands for
  what fits into the read buffer of 256 bytes; keep-alive intervals are at most 43690 seconds and
  times below \<open>2 ^ 63\<close> where a theorem excludes overflow.

  Not modelled: the memory orderings weaker than sequential consistency (the weaker ones allow
  more executions); freeing the nodes of the topic tree, and what a hash map of it does inside one of
  its operations; the interleaving of tasks inside one handler (each handler runs to its end, except in
  the theories on the list, the queue and the insertion into the tree; the task in which the observer
  forwards a message runs when the message is taken); what \<open>Debug\<close> printing
  and \<open>println!\<close> write; building the runtime of \<open>tokio\<close>; tasks that are aborted in the middle of a
  round.
\<close>

end
